theory Spec2Isabelle
  imports Complex_Main "HOL-Library.AList" "HOL-Library.Word"
begin

section \<open>Common data\<close>

text \<open>
  An instant (Go \<^verbatim>\<open>time.Time\<close>) is the number of nanoseconds since Go's zero time, an
  \<^typ>\<open>int\<close>; so \<^verbatim>\<open>timeZero\<close> is \<open>0\<close>, \<^verbatim>\<open>t.Add(d)\<close> is \<open>t + d\<close>, \<^verbatim>\<open>a.Before(b)\<close> is
  \<open>a < b\<close>, \<^verbatim>\<open>a.After(b)\<close> is \<open>a > b\<close> and \<^verbatim>\<open>a.Equal(b)\<close> is \<open>a = b\<close>. A
  \<^verbatim>\<open>time.Duration\<close> is an \<^typ>\<open>int\<close> of nanoseconds. The map keys
  \<^verbatim>\<open>xtime.ToUnixNano(t)\<close> relabel instants one to one, so maps are keyed by the instant.
\<close>

type_synonym time = int
type_synonym duration = int

definition timeZero :: time where
  "timeZero = 0"

text \<open>\<^verbatim>\<open>t.Truncate(d)\<close>: rounds down to a multiple of \<open>d\<close> since the zero time; \<open>t\<close> itself
  when \<open>d \<le> 0\<close>.\<close>

definition Truncate :: "time \<Rightarrow> duration \<Rightarrow> time" where
  "Truncate t d = (if d \<le> 0 then t else t - t mod d)"

section \<open>Errors and blocking calls\<close>

text \<open>
  The errors of the two packages, as values. \<open>External\<close> is an error returned by a
  collaborator that is not part of the modelled code (an encoder, an iterator, a block,
  the persist function, opening, cloning or closing a seeker). \<open>MultiError\<close> is what
  \<^verbatim>\<open>xerrors.MultiError.FinalError()\<close> returns when at least one error was added.
\<close>

datatype error =
    InvalidParamsError string
  | ErrTooPast
  | ErrTooFuture
  | errIncompleteMerge
  | errBucketMapCacheNotInSync time
  | errFetchBlocksNotOneBlock time
  | errBucketsDoNotExist time
  | errWritableBucketDoesNotExist time
  | errSeekerManagerAlreadyOpenOrClosed
  | errSeekerManagerAlreadyClosed
  | errSeekerManagerFileSetNotFound
  | errNoAvailableSeekers
  | errSeekersDontExist
  | errCantCloseSeekerManagerWhileSeekersAreBorrowed
  | errReturnedUnmanagedSeeker
  | errUpdateOpenLeaseSeekerManagerNotOpen
  | errConcurrentUpdateOpenLeaseNotAllowed
  | errOutOfOrderUpdateOpenLease
  | External string
  | MultiError "error list"


text \<open>
  A call either returns, or parks its goroutine: in \<^verbatim>\<open>wg.Wait()\<close> on a wait group whose
  counter is positive, or in a receive from \<^verbatim>\<open>openCloseLoopDoneCh\<close> with no sender; or it
  panics. The model is sequential: a parked call is reported as such, with the state it
  leaves visible to the other goroutines.
\<close>

datatype blocker = OnWaitGroup nat | OnOpenCloseLoopDoneCh

datatype 'a call = Returns 'a | Blocks blocker | Panics string

section \<open>Series buffer: buckets\<close>

text \<open>
  \<^verbatim>\<open>src/dbnode/storage/series/buffer.go\<close>. The encoder (\<^verbatim>\<open>encoding.Encoder\<close>), the
  bootstrapped block (\<^verbatim>\<open>block.DatabaseBlock\<close>), the stream an encoder gives
  (\<^verbatim>\<open>xio.SegmentReader\<close>), the iterator that merges streams and the persist function are
  collaborators outside the modelled code: encoders, blocks and streams are the type
  parameters \<open>'e\<close>, \<open>'b\<close> and \<open>'s\<close>, and what the collaborators do is the record
  \<open>bufferDeps\<close> of functions, so that every theorem holds whatever they do. The time
  unit, the annotation and the schema of a write are passed through to the encoder
  untouched and are left out.
\<close>

text \<open>Modelled from the spec: the declarations of \<^verbatim>\<open>WriteType\<close>, \<^verbatim>\<open>TruncateType\<close>,
  \<^verbatim>\<open>WriteOptions\<close>, \<^verbatim>\<open>FlushOutcome\<close> and \<^verbatim>\<open>BlockState\<close> (\<^verbatim>\<open>types.go\<close> of the series
  package is not among the sources), with the names \<^verbatim>\<open>buffer.go\<close> uses.\<close>

datatype WriteType = WarmWrite | ColdWrite | BootstrapWriteType

datatype TruncateType = TypeNone | TypeBlock

record WriteOptions =
  TruncateType :: TruncateType
  ForceValueEnabled :: bool
  ForceValue :: real

datatype FlushOutcome =
  FlushOutcomeErr | FlushOutcomeBlockDoesNotExist | FlushOutcomeFlushedToDisk

record BlockState =
  WarmRetrievable :: bool
  ColdVersion :: int

record Datapoint =
  Timestamp :: time
  Value :: real

type_synonym Segment = "8 word list"

text \<open>\<^verbatim>\<open>xio.BlockReader\<close>: a segment reader (possibly nil) with the start and size of its
  block. It is itself a \<^verbatim>\<open>SegmentReader\<close>: a value of that interface is a plain stream
  or a block reader.\<close>

record 's BlockReader =
  SegmentReader :: "'s option"
  Start :: time
  BlockSize :: duration

datatype 's segmentReader = Reader 's | ReaderOfBlock "'s BlockReader"

text \<open>
  The collaborators.
  \<^item> \<open>newEncoder start\<close>: \<^verbatim>\<open>EncoderPool().Get()\<close> followed by \<^verbatim>\<open>Reset(start, ...)\<close>.
  \<^item> \<open>Encode e dp\<close>: \<^verbatim>\<open>e.Encode(dp, unit, annotation)\<close>, the error and the encoder after
    the call.
  \<^item> \<open>LastEncoded\<close>, \<open>encoderStream\<close> (\<^verbatim>\<open>Stream()\<close>: the stream, or \<open>None\<close> when
    \<open>ok\<close> is false), \<open>encoderLen\<close> (\<^verbatim>\<open>Len()\<close>).
  \<^item> \<open>blockStartTime\<close>, \<open>blockLen\<close>, \<open>blockStream\<close> (\<^verbatim>\<open>Stream(ctx)\<close>) of a block;
    \<open>IsNotEmpty\<close> of a block reader.
  \<^item> \<open>iterate streams\<close>: the datapoints the multi reader iterator yields over the
    streams until \<^verbatim>\<open>Next()\<close> is false, and its \<^verbatim>\<open>Err()\<close> then.
  \<^item> \<open>Segment\<close> (\<^verbatim>\<open>stream.Segment()\<close>) and \<open>SegmentChecksum\<close>.
\<close>

record ('e, 's, 'b) bufferDeps =
  newEncoder :: "time \<Rightarrow> 'e"
  Encode :: "'e \<Rightarrow> Datapoint \<Rightarrow> error option \<times> 'e"
  LastEncoded :: "'e \<Rightarrow> error + Datapoint"
  encoderStream :: "'e \<Rightarrow> 's option"
  encoderLen :: "'e \<Rightarrow> nat"
  blockStartTime :: "'b \<Rightarrow> time"
  blockLen :: "'b \<Rightarrow> nat"
  blockStream :: "'b \<Rightarrow> error + 's BlockReader"
  IsNotEmpty :: "'s BlockReader \<Rightarrow> bool"
  iterate :: "'s segmentReader list \<Rightarrow> Datapoint list \<times> error option"
  Segment :: "'s segmentReader \<Rightarrow> error + Segment"
  SegmentChecksum :: "Segment \<Rightarrow> 32 word"

definition writableBucketVersion :: int where
  "writableBucketVersion = 0"

definition bucketsCacheSize :: nat where
  "bucketsCacheSize = 2"

record 'e inOrderEncoder =
  encoder :: 'e
  lastWriteAt :: time

record ('e, 'b) BufferBucket =
  start :: time
  encoders :: "'e inOrderEncoder list"
  bootstrapped :: "'b list"
  version :: int
  writeType :: WriteType

text \<open>\<^verbatim>\<open>resetEncoders\<close> and \<^verbatim>\<open>resetBootstrapped\<close> close what the bucket holds and empty
  the slice: the bucket after the call, and the encoders (blocks) closed.\<close>

definition resetEncoders :: "('e, 'b) BufferBucket \<Rightarrow> ('e, 'b) BufferBucket \<times> 'e list" where
  "resetEncoders b = (b\<lparr>encoders := []\<rparr>, map encoder (encoders b))"

definition resetBootstrapped :: "('e, 'b) BufferBucket \<Rightarrow> ('e, 'b) BufferBucket \<times> 'b list" where
  "resetBootstrapped b = (b\<lparr>bootstrapped := []\<rparr>, bootstrapped b)"

text \<open>\<^verbatim>\<open>BufferBucket.resetTo(start, writeType, opts)\<close> on a bucket from the pool (its former
  content is closed): one new encoder, no bootstrapped block, the writable version.\<close>

definition BufferBucket_resetTo :: "('e, 's, 'b) bufferDeps \<Rightarrow> time \<Rightarrow> WriteType
    \<Rightarrow> ('e, 'b) BufferBucket" where
  "BufferBucket_resetTo deps st wt =
     \<lparr>start = st,
      encoders = [\<lparr>encoder = newEncoder deps st, lastWriteAt = timeZero\<rparr>],
      bootstrapped = [],
      version = writableBucketVersion,
      writeType = wt\<rparr>"

definition hasJustSingleEncoder :: "('e, 'b) BufferBucket \<Rightarrow> bool" where
  "hasJustSingleEncoder b \<longleftrightarrow> length (encoders b) = 1 \<and> length (bootstrapped b) = 0"

definition hasJustSingleBootstrappedBlock :: "('e, 's, 'b) bufferDeps \<Rightarrow> ('e, 'b) BufferBucket
    \<Rightarrow> bool" where
  "hasJustSingleBootstrappedBlock deps b \<longleftrightarrow>
     (length (encoders b) = 0
      \<or> (length (encoders b) = 1 \<and> encoderLen deps (encoder (encoders b ! 0)) = 0))
     \<and> length (bootstrapped b) = 1"

definition needsMerge :: "('e, 's, 'b) bufferDeps \<Rightarrow> ('e, 'b) BufferBucket \<Rightarrow> bool" where
  "needsMerge deps b \<longleftrightarrow>
     \<not> (hasJustSingleEncoder b \<or> hasJustSingleBootstrappedBlock deps b)"

text \<open>\<^verbatim>\<open>mergeStreamsToEncoder\<close>: the loop that encodes what the iterator yields, keeping
  the timestamp of the last datapoint; an error of \<^verbatim>\<open>Encode\<close> or of the iterator closes
  the new encoder and is returned.\<close>

fun encodeAll :: "('e, 's, 'b) bufferDeps \<Rightarrow> 'e \<Rightarrow> time \<Rightarrow> Datapoint list
    \<Rightarrow> error + 'e \<times> time" where
  "encodeAll deps e lastAt [] = Inr (e, lastAt)"
| "encodeAll deps e lastAt (dp # dps) =
     (case Encode deps e dp of
        (Some err, e') \<Rightarrow> Inl err
      | (None, e') \<Rightarrow> encodeAll deps e' (Timestamp dp) dps)"

definition mergeStreamsToEncoder :: "('e, 's, 'b) bufferDeps \<Rightarrow> time \<Rightarrow> 's segmentReader list
    \<Rightarrow> error + 'e \<times> time" where
  "mergeStreamsToEncoder deps blockStart streams =
     (case iterate deps streams of
        (dps, iterErr) \<Rightarrow>
          (case encodeAll deps (newEncoder deps blockStart) timeZero dps of
             Inl err \<Rightarrow> Inl err
           | Inr (e, lastAt) \<Rightarrow>
               (case iterErr of Some err \<Rightarrow> Inl err | None \<Rightarrow> Inr (e, lastAt))))"

text \<open>The readers \<^verbatim>\<open>BufferBucket.merge\<close> gathers: of every bootstrapped block whose
  \<^verbatim>\<open>Stream\<close> succeeds with a segment reader, then of every encoder that has a stream.\<close>

definition bootstrappedReaders :: "('e, 's, 'b) bufferDeps \<Rightarrow> 'b list \<Rightarrow> 's list" where
  "bootstrappedReaders deps bls =
     List.map_filter
       (\<lambda>bl. case blockStream deps bl of Inl err \<Rightarrow> None | Inr br \<Rightarrow> SegmentReader br) bls"

definition encoderReaders :: "('e, 's, 'b) bufferDeps \<Rightarrow> 'e inOrderEncoder list \<Rightarrow> 's list" where
  "encoderReaders deps es = List.map_filter (\<lambda>e. encoderStream deps (encoder e)) es"

text \<open>
  \<^verbatim>\<open>BufferBucket.merge(nsCtx)\<close>: the error, or the number of streams merged, the bucket
  after the call, and the encoders and blocks it closed. When the bucket does not need
  a merge, and when merging fails, the bucket is as before.
\<close>

definition BufferBucket_merge :: "('e, 's, 'b) bufferDeps \<Rightarrow> ('e, 'b) BufferBucket
    \<Rightarrow> error + nat \<times> ('e, 'b) BufferBucket \<times> 'e list \<times> 'b list" where
  "BufferBucket_merge deps b =
     (if \<not> needsMerge deps b then Inr (0, b, [], [])
      else
        (let readers = bootstrappedReaders deps (bootstrapped b) @ encoderReaders deps (encoders b);
             merges = length readers
         in case mergeStreamsToEncoder deps (start b) (map Reader readers) of
              Inl err \<Rightarrow> Inl err
            | Inr (e, lastAt) \<Rightarrow>
                (case resetEncoders b of
                   (b1, closedEncoders) \<Rightarrow>
                     (case resetBootstrapped b1 of
                        (b2, closedBlocks) \<Rightarrow>
                          Inr (merges,
                               b2\<lparr>encoders := encoders b2 @ [\<lparr>encoder = e, lastWriteAt = lastAt\<rparr>]\<rparr>,
                               closedEncoders, closedBlocks)))))"

text \<open>The end of \<^verbatim>\<open>mergeToStream\<close>, after a merge that succeeded: the check that the
  bucket holds just one encoder, and the stream of that encoder.\<close>

definition mergedStream :: "('e, 's, 'b) bufferDeps \<Rightarrow> ('e, 'b) BufferBucket
    \<Rightarrow> error + 's segmentReader option" where
  "mergedStream deps b =
     (if \<not> hasJustSingleEncoder b then Inl errIncompleteMerge
      else (case encoderStream deps (encoder (encoders b ! 0)) of
              None \<Rightarrow> Inr None
            | Some s \<Rightarrow> Inr (Some (Reader s))))"

text \<open>
  \<^verbatim>\<open>BufferBucket.mergeToStream(ctx, nsCtx)\<close>: the error, or the stream (\<open>None\<close> when \<open>ok\<close>
  is false), and the bucket after the call. When the merge fails, the encoders and the
  bootstrapped blocks of the bucket are reset before the error is returned.
\<close>

definition mergeToStream :: "('e, 's, 'b) bufferDeps \<Rightarrow> ('e, 'b) BufferBucket
    \<Rightarrow> (error + 's segmentReader option) \<times> ('e, 'b) BufferBucket" where
  "mergeToStream deps b =
     (if hasJustSingleEncoder b then
        (let b1 = fst (resetBootstrapped b) in
         case encoderStream deps (encoder (encoders b1 ! 0)) of
           None \<Rightarrow> (Inr None, b1)
         | Some s \<Rightarrow> (Inr (Some (Reader s)), b1))
      else if hasJustSingleBootstrappedBlock deps b then
        (let b1 = fst (resetEncoders b) in
         case blockStream deps (bootstrapped b1 ! 0) of
           Inl err \<Rightarrow> (Inl err, b1)
         | Inr br \<Rightarrow> (Inr (Some (ReaderOfBlock br)), b1))
      else
        (case BufferBucket_merge deps b of
           Inl err \<Rightarrow> (Inl err, fst (resetBootstrapped (fst (resetEncoders b))))
         | Inr (merges, b1, closedEncoders, closedBlocks) \<Rightarrow> (mergedStream deps b1, b1)))"

text \<open>
  \<^verbatim>\<open>BufferBucket.write\<close>: the search for the encoder to write to. An encoder last written
  at the same timestamp makes the write a no-op when its last value is the same
  (\<open>NoOp\<close>), fails when \<^verbatim>\<open>LastEncoded\<close> fails (\<open>Fail\<close>), and is skipped otherwise; the
  first encoder last written before the timestamp is chosen (\<open>At\<close>).
\<close>

datatype encoderChoice = NoOp | Fail error | At nat | NoEncoder

fun findEncoder :: "('e, 's, 'b) bufferDeps \<Rightarrow> time \<Rightarrow> real \<Rightarrow> nat \<Rightarrow> 'e inOrderEncoder list
    \<Rightarrow> encoderChoice" where
  "findEncoder deps ts v i [] = NoEncoder"
| "findEncoder deps ts v i (e # es) =
     (if ts = lastWriteAt e then
        (case LastEncoded deps (encoder e) of
           Inl err \<Rightarrow> Fail err
         | Inr lastDp \<Rightarrow> if Value lastDp = v then NoOp else findEncoder deps ts v (Suc i) es)
      else if ts > lastWriteAt e then At i
      else findEncoder deps ts v (Suc i) es)"

text \<open>\<^verbatim>\<open>writeToEncoderIndex(idx, datapoint, ...)\<close>: the encoder is the one \<^verbatim>\<open>Encode\<close> leaves;
  \<open>lastWriteAt\<close> moves only when \<^verbatim>\<open>Encode\<close> succeeds.\<close>

definition writeToEncoderIndex :: "('e, 's, 'b) bufferDeps \<Rightarrow> ('e, 'b) BufferBucket \<Rightarrow> nat
    \<Rightarrow> Datapoint \<Rightarrow> error option \<times> ('e, 'b) BufferBucket" where
  "writeToEncoderIndex deps b idx dp =
     (case Encode deps (encoder (encoders b ! idx)) dp of
        (Some err, e') \<Rightarrow>
          (Some err, b\<lparr>encoders := (encoders b)[idx := (encoders b ! idx)\<lparr>encoder := e'\<rparr>]\<rparr>)
      | (None, e') \<Rightarrow>
          (None, b\<lparr>encoders := (encoders b)
                     [idx := \<lparr>encoder = e', lastWriteAt = Timestamp dp\<rparr>]\<rparr>))"

text \<open>\<^verbatim>\<open>BufferBucket.write(timestamp, value, ...)\<close>: \<open>(written, err)\<close> and the bucket.
  \<open>blockSize\<close> is \<^verbatim>\<open>b.opts.RetentionOptions().BlockSize()\<close>.\<close>

definition BufferBucket_write :: "('e, 's, 'b) bufferDeps \<Rightarrow> duration \<Rightarrow> ('e, 'b) BufferBucket
    \<Rightarrow> time \<Rightarrow> real \<Rightarrow> (bool \<times> error option) \<times> ('e, 'b) BufferBucket" where
  "BufferBucket_write deps blockSz b ts v =
     (let dp = \<lparr>Timestamp = ts, Value = v\<rparr> in
      case findEncoder deps ts v 0 (encoders b) of
        Fail err \<Rightarrow> ((False, Some err), b)
      | NoOp \<Rightarrow> ((False, None), b)
      | At idx \<Rightarrow>
          (case writeToEncoderIndex deps b idx dp of
             (err, b1) \<Rightarrow> ((err = None, err), b1))
      | NoEncoder \<Rightarrow>
          (let b1 = b\<lparr>encoders := encoders b @
                      [\<lparr>encoder = newEncoder deps (Truncate ts blockSz), lastWriteAt = ts\<rparr>]\<rparr>;
               idx = length (encoders b1) - 1
           in case writeToEncoderIndex deps b1 idx dp of
                (Some err, b2) \<Rightarrow> ((False, Some err), b2\<lparr>encoders := take idx (encoders b2)\<rparr>)
              | (None, b2) \<Rightarrow> ((True, None), b2)))"

text \<open>\<^verbatim>\<open>BufferBucket.streams(ctx)\<close>: the block readers of the bootstrapped blocks that are
  not empty, then of the encoders that have a stream.\<close>

definition BufferBucket_streams :: "('e, 's, 'b) bufferDeps \<Rightarrow> duration \<Rightarrow> ('e, 'b) BufferBucket
    \<Rightarrow> 's BlockReader list" where
  "BufferBucket_streams deps blockSz b =
     List.map_filter
       (\<lambda>bl. if blockLen deps bl = 0 then None
             else (case blockStream deps bl of
                     Inl err \<Rightarrow> None
                   | Inr s \<Rightarrow> if IsNotEmpty deps s then Some s else None))
       (bootstrapped b)
     @ List.map_filter
       (\<lambda>e. case encoderStream deps (encoder e) of
               None \<Rightarrow> None
             | Some s \<Rightarrow> Some \<lparr>SegmentReader = Some s, Start = start b, BlockSize = blockSz\<rparr>)
       (encoders b)"

definition BufferBucket_streamsLen :: "('e, 's, 'b) bufferDeps \<Rightarrow> ('e, 'b) BufferBucket \<Rightarrow> nat" where
  "BufferBucket_streamsLen deps b =
     sum_list (map (blockLen deps) (bootstrapped b))
     + sum_list (map (\<lambda>e. encoderLen deps (encoder e)) (encoders b))"

section \<open>Series buffer: bucket versions\<close>

text \<open>\<^verbatim>\<open>BufferBucketVersions\<close>: the buckets of one block start. The slice holds pointers to
  buckets that nothing else refers to, so the buckets are held by value and a write
  through a pointer is an update of the list.\<close>

record ('e, 'b) BufferBucketVersions =
  buckets :: "('e, 'b) BufferBucket list"
  bvStart :: time
  lastReadUnixNanos :: int

record streamsOptions =
  filterWriteType :: bool
  filterType :: WriteType

text \<open>\<^verbatim>\<open>BufferBucketVersions.resetTo(start, opts, bucketPool)\<close>.\<close>

definition BufferBucketVersions_resetTo :: "time \<Rightarrow> ('e, 'b) BufferBucketVersions" where
  "BufferBucketVersions_resetTo st = \<lparr>buckets = [], bvStart = st, lastReadUnixNanos = 0\<rparr>"

definition selected :: "streamsOptions \<Rightarrow> ('e, 'b) BufferBucket \<Rightarrow> bool" where
  "selected sOpts b \<longleftrightarrow> \<not> filterWriteType sOpts \<or> writeType b = filterType sOpts"

definition BufferBucketVersions_streams :: "('e, 's, 'b) bufferDeps \<Rightarrow> duration
    \<Rightarrow> ('e, 'b) BufferBucketVersions \<Rightarrow> streamsOptions \<Rightarrow> 's BlockReader list" where
  "BufferBucketVersions_streams deps blockSz bv sOpts =
     concat (map (BufferBucket_streams deps blockSz) (filter (selected sOpts) (buckets bv)))"

definition BufferBucketVersions_streamsLen :: "('e, 's, 'b) bufferDeps
    \<Rightarrow> ('e, 'b) BufferBucketVersions \<Rightarrow> nat" where
  "BufferBucketVersions_streamsLen deps bv =
     sum_list (map (BufferBucket_streamsLen deps) (buckets bv))"

text \<open>\<^verbatim>\<open>writableBucket(writeType)\<close>: the position of the first bucket of the writable
  version and of the write type.\<close>

fun writableBucket :: "('e, 'b) BufferBucket list \<Rightarrow> WriteType \<Rightarrow> nat option" where
  "writableBucket [] wt = None"
| "writableBucket (b # bs) wt =
     (if version b = writableBucketVersion \<and> writeType b = wt then Some 0
      else map_option Suc (writableBucket bs wt))"

text \<open>\<^verbatim>\<open>writableBucketCreate(writeType)\<close>: the position of the writable bucket, appended
  when there was none, and the bucket versions.\<close>

definition writableBucketCreate :: "('e, 's, 'b) bufferDeps \<Rightarrow> ('e, 'b) BufferBucketVersions
    \<Rightarrow> WriteType \<Rightarrow> nat \<times> ('e, 'b) BufferBucketVersions" where
  "writableBucketCreate deps bv wt =
     (case writableBucket (buckets bv) wt of
        Some i \<Rightarrow> (i, bv)
      | None \<Rightarrow>
          (length (buckets bv),
           bv\<lparr>buckets := buckets bv @ [BufferBucket_resetTo deps (bvStart bv) wt]\<rparr>))"

definition BufferBucketVersions_write :: "('e, 's, 'b) bufferDeps \<Rightarrow> duration
    \<Rightarrow> ('e, 'b) BufferBucketVersions \<Rightarrow> time \<Rightarrow> real \<Rightarrow> WriteType
    \<Rightarrow> (bool \<times> error option) \<times> ('e, 'b) BufferBucketVersions" where
  "BufferBucketVersions_write deps blockSz bv ts v wt =
     (case writableBucketCreate deps bv wt of
        (i, bv1) \<Rightarrow>
          (case BufferBucket_write deps blockSz (buckets bv1 ! i) ts v of
             (r, b') \<Rightarrow> (r, bv1\<lparr>buckets := (buckets bv1)[i := b']\<rparr>)))"

text \<open>\<^verbatim>\<open>BufferBucketVersions.merge(writeType, nsCtx)\<close>: merges the writable buckets of the
  write type; the first error stops the loop and is returned with a count of 0, the
  buckets merged before it staying merged.\<close>

fun mergeBuckets :: "('e, 's, 'b) bufferDeps \<Rightarrow> WriteType \<Rightarrow> ('e, 'b) BufferBucket list
    \<Rightarrow> (error + nat) \<times> ('e, 'b) BufferBucket list" where
  "mergeBuckets deps wt [] = (Inr 0, [])"
| "mergeBuckets deps wt (b # bs) =
     (if version b = writableBucketVersion \<and> wt = writeType b then
        (case BufferBucket_merge deps b of
           Inl err \<Rightarrow> (Inl err, b # bs)
         | Inr (merges, b', closedEncoders, closedBlocks) \<Rightarrow>
             (case mergeBuckets deps wt bs of
                (Inl err, bs') \<Rightarrow> (Inl err, b' # bs')
              | (Inr res, bs') \<Rightarrow> (Inr (merges + res), b' # bs')))
      else
        (case mergeBuckets deps wt bs of (r, bs') \<Rightarrow> (r, b # bs')))"

definition BufferBucketVersions_merge :: "('e, 's, 'b) bufferDeps \<Rightarrow> ('e, 'b) BufferBucketVersions
    \<Rightarrow> WriteType \<Rightarrow> (error + nat) \<times> ('e, 'b) BufferBucketVersions" where
  "BufferBucketVersions_merge deps bv wt =
     (case mergeBuckets deps wt (buckets bv) of (r, bs') \<Rightarrow> (r, bv\<lparr>buckets := bs'\<rparr>))"

text \<open>\<^verbatim>\<open>removeBucketsUpToVersion(writeType, version)\<close>.\<close>

definition removeBucketsUpToVersion :: "('e, 'b) BufferBucketVersions \<Rightarrow> WriteType \<Rightarrow> int
    \<Rightarrow> ('e, 'b) BufferBucketVersions" where
  "removeBucketsUpToVersion bv wt ver =
     bv\<lparr>buckets :=
          filter (\<lambda>b. \<not> (writeType b = wt \<and> version b \<noteq> writableBucketVersion \<and> version b \<le> ver))
            (buckets bv)\<rparr>"

definition setLastRead :: "('e, 'b) BufferBucketVersions \<Rightarrow> time \<Rightarrow> ('e, 'b) BufferBucketVersions" where
  "setLastRead bv t = bv\<lparr>lastReadUnixNanos := t\<rparr>"

text \<open>\<^verbatim>\<open>BufferBucketVersions.bootstrap(bl)\<close>.\<close>

definition BufferBucketVersions_bootstrap :: "('e, 's, 'b) bufferDeps
    \<Rightarrow> ('e, 'b) BufferBucketVersions \<Rightarrow> 'b \<Rightarrow> ('e, 'b) BufferBucketVersions" where
  "BufferBucketVersions_bootstrap deps bv bl =
     (case writableBucketCreate deps bv BootstrapWriteType of
        (i, bv1) \<Rightarrow>
          bv1\<lparr>buckets := (buckets bv1)
                 [i := (buckets bv1 ! i)\<lparr>bootstrapped := bootstrapped (buckets bv1 ! i) @ [bl]\<rparr>]\<rparr>)"

text \<open>
  \<^verbatim>\<open>mergeToStreams(ctx, opts)\<close>: one stream for every selected bucket that has one. The
  first error stops the loop; the buckets visited up to it, the failing one included,
  stay as \<^verbatim>\<open>mergeToStream\<close> left them.
\<close>

fun mergeBucketsToStreams :: "('e, 's, 'b) bufferDeps \<Rightarrow> streamsOptions
    \<Rightarrow> ('e, 'b) BufferBucket list
    \<Rightarrow> (error + 's segmentReader list) \<times> ('e, 'b) BufferBucket list" where
  "mergeBucketsToStreams deps sOpts [] = (Inr [], [])"
| "mergeBucketsToStreams deps sOpts (b # bs) =
     (if selected sOpts b then
        (case mergeToStream deps b of
           (Inl err, b') \<Rightarrow> (Inl err, b' # bs)
         | (Inr so, b') \<Rightarrow>
             (case mergeBucketsToStreams deps sOpts bs of
                (Inl err, bs') \<Rightarrow> (Inl err, b' # bs')
              | (Inr res, bs') \<Rightarrow>
                  (Inr (case so of None \<Rightarrow> res | Some s \<Rightarrow> s # res), b' # bs')))
      else
        (case mergeBucketsToStreams deps sOpts bs of (r, bs') \<Rightarrow> (r, b # bs')))"

definition mergeToStreams :: "('e, 's, 'b) bufferDeps \<Rightarrow> ('e, 'b) BufferBucketVersions
    \<Rightarrow> streamsOptions \<Rightarrow> (error + 's segmentReader list) \<times> ('e, 'b) BufferBucketVersions" where
  "mergeToStreams deps bv sOpts =
     (case mergeBucketsToStreams deps sOpts (buckets bv) of (r, bs') \<Rightarrow> (r, bv\<lparr>buckets := bs'\<rparr>))"

section \<open>Series buffer\<close>

text \<open>
  \<^verbatim>\<open>dbBuffer\<close>. The map and the cache hold pointers to the same
  \<^verbatim>\<open>BufferBucketVersions\<close> objects, so the objects live in a store, \<open>heap\<close>, from pointers
  (\<^typ>\<open>nat\<close>) to objects; \<open>nextPtr\<close> is the next unused pointer, which
  \<^verbatim>\<open>bucketVersionsPool.Get()\<close> returns (an object the pool recycles is referred to by
  nothing else, as a new one). \<open>bucketsMap\<close> is an association list with distinct
  keys, whose order stands for the order in which a \<^verbatim>\<open>range\<close> visits the Go map;
  \<open>bucketVersionsCache\<close> is the array of \<open>bucketsCacheSize\<close> pointers, \<open>None\<close> for nil.
  The clock \<^verbatim>\<open>nowFn\<close> is the argument \<open>now\<close> of the operations that read it.
\<close>

record ('e, 'b) dbBuffer =
  heap :: "nat \<Rightarrow> ('e, 'b) BufferBucketVersions"
  nextPtr :: nat
  bucketsMap :: "(time \<times> nat) list"
  bucketVersionsCache :: "nat option list"
  inOrderBlockStarts :: "time list"
  blockSize :: duration
  bufferPast :: duration
  bufferFuture :: duration
  coldWritesEnabled :: bool
  retentionPeriod :: duration
  futureRetentionPeriod :: duration

text \<open>\<^verbatim>\<open>newDatabaseBuffer()\<close> followed by \<^verbatim>\<open>Reset(id, opts)\<close>, which reads the settings from
  the options.\<close>

definition newDatabaseBuffer :: "duration \<Rightarrow> duration \<Rightarrow> duration \<Rightarrow> bool \<Rightarrow> duration \<Rightarrow> duration
    \<Rightarrow> ('e, 'b) dbBuffer" where
  "newDatabaseBuffer blockSz past future cold retention futureRetention =
     \<lparr>heap = (\<lambda>p. BufferBucketVersions_resetTo timeZero), nextPtr = 0,
      bucketsMap = [], bucketVersionsCache = replicate bucketsCacheSize None,
      inOrderBlockStarts = [],
      blockSize = blockSz, bufferPast = past, bufferFuture = future,
      coldWritesEnabled = cold, retentionPeriod = retention,
      futureRetentionPeriod = futureRetention\<rparr>"

definition Reset :: "('e, 'b) dbBuffer \<Rightarrow> duration \<Rightarrow> duration \<Rightarrow> duration \<Rightarrow> bool \<Rightarrow> duration
    \<Rightarrow> duration \<Rightarrow> ('e, 'b) dbBuffer" where
  "Reset b blockSz past future cold retention futureRetention =
     b\<lparr>blockSize := blockSz, bufferPast := past, bufferFuture := future,
       coldWritesEnabled := cold, retentionPeriod := retention,
       futureRetentionPeriod := futureRetention\<rparr>"

text \<open>\<^verbatim>\<open>bucketVersionsAt(t)\<close>: the cache first (the first entry that is not nil and whose
  object starts at \<open>t\<close>), then the map.\<close>

definition bucketVersionsAt :: "('e, 'b) dbBuffer \<Rightarrow> time \<Rightarrow> nat option" where
  "bucketVersionsAt b t =
     (case find (\<lambda>c. case c of None \<Rightarrow> False | Some p \<Rightarrow> bvStart (heap b p) = t)
             (bucketVersionsCache b) of
        Some (Some p) \<Rightarrow> Some p
      | _ \<Rightarrow> map_of (bucketsMap b) t)"

text \<open>\<^verbatim>\<open>inOrderBlockStartsAdd(newTime)\<close>: before the first start after \<open>newTime\<close>;
  \<^verbatim>\<open>inOrderBlockStartsRemove(removeTime)\<close>: the first start equal to it.\<close>

definition inOrderBlockStartsAdd :: "time list \<Rightarrow> time \<Rightarrow> time list" where
  "inOrderBlockStartsAdd starts newTime =
     takeWhile (\<lambda>t. \<not> t > newTime) starts @ newTime # dropWhile (\<lambda>t. \<not> t > newTime) starts"

definition inOrderBlockStartsRemove :: "time list \<Rightarrow> time \<Rightarrow> time list" where
  "inOrderBlockStartsRemove starts removeTime = remove1 removeTime starts"

text \<open>\<^verbatim>\<open>bucketVersionsAtCreate(t)\<close>: the pointer and the buffer.\<close>

definition bucketVersionsAtCreate :: "('e, 'b) dbBuffer \<Rightarrow> time \<Rightarrow> nat \<times> ('e, 'b) dbBuffer" where
  "bucketVersionsAtCreate b t =
     (case bucketVersionsAt b t of
        Some p \<Rightarrow> (p, b)
      | None \<Rightarrow>
          (nextPtr b,
           b\<lparr>heap := (heap b)(nextPtr b := BufferBucketVersions_resetTo t),
             nextPtr := Suc (nextPtr b),
             bucketsMap := AList.update t (nextPtr b) (bucketsMap b),
             inOrderBlockStarts := inOrderBlockStartsAdd (inOrderBlockStarts b) t\<rparr>))"

text \<open>The last position of a pointer in the cache (both loops over the cache keep the last
  match).\<close>

fun lastIndexFrom :: "'a \<Rightarrow> 'a list \<Rightarrow> nat \<Rightarrow> nat option \<Rightarrow> nat option" where
  "lastIndexFrom x [] i acc = acc"
| "lastIndexFrom x (y # ys) i acc = lastIndexFrom x ys (Suc i) (if y = x then Some i else acc)"

definition putBucketVersionsInCache :: "('e, 'b) dbBuffer \<Rightarrow> nat \<Rightarrow> ('e, 'b) dbBuffer" where
  "putBucketVersionsInCache b newBuckets =
     (let c = bucketVersionsCache b;
          replaceIdx = (case lastIndexFrom (Some newBuckets) c 0 None of
                          None \<Rightarrow> bucketsCacheSize - 1
                        | Some i \<Rightarrow> i)
      in b\<lparr>bucketVersionsCache := (Some newBuckets # take replaceIdx c) @ drop (Suc replaceIdx) c\<rparr>)"

definition removeBucketVersionsInCache :: "('e, 'b) dbBuffer \<Rightarrow> nat \<Rightarrow> ('e, 'b) dbBuffer" where
  "removeBucketVersionsInCache b oldBuckets =
     (let c = bucketVersionsCache b in
      case lastIndexFrom (Some oldBuckets) c 0 None of
        None \<Rightarrow> b
      | Some nilIdx \<Rightarrow>
          b\<lparr>bucketVersionsCache := take nilIdx c @ drop (Suc nilIdx) c @ [None]\<rparr>)"

definition removeBucketVersionsAt :: "('e, 'b) dbBuffer \<Rightarrow> time \<Rightarrow> ('e, 'b) dbBuffer" where
  "removeBucketVersionsAt b blockStart =
     (case bucketVersionsAt b blockStart of
        None \<Rightarrow> b
      | Some p \<Rightarrow>
          (let b1 = b\<lparr>bucketsMap := AList.delete blockStart (bucketsMap b)\<rparr>;
               b2 = removeBucketVersionsInCache b1 p;
               b3 = b2\<lparr>inOrderBlockStarts :=
                        inOrderBlockStartsRemove (inOrderBlockStarts b2) blockStart\<rparr>
           in b3\<lparr>heap := (heap b3)(p := BufferBucketVersions_resetTo timeZero)\<rparr>))"

text \<open>
  The \<^verbatim>\<open>switch\<close> at the head of \<^verbatim>\<open>Write\<close> and the two checks of a cold write after it:
  the write type, and the error that rejects the write, if any.
\<close>

definition classifyWrite :: "('e, 'b) dbBuffer \<Rightarrow> time \<Rightarrow> time \<Rightarrow> WriteType \<times> error option" where
  "classifyWrite b now timestamp =
     (let pastLimit = now + (-1) * bufferPast b;
          futureLimit = now + bufferFuture b;
          switch =
            (if \<not> pastLimit < timestamp then
               (ColdWrite,
                if \<not> coldWritesEnabled b
                then Some (InvalidParamsError ''datapoint too far in past'') else None)
             else if \<not> futureLimit > timestamp then
               (ColdWrite,
                if \<not> coldWritesEnabled b
                then Some (InvalidParamsError ''datapoint too far in future'') else None)
             else (WarmWrite, None))
      in case switch of
           (wt, Some err) \<Rightarrow> (wt, Some err)
         | (wt, None) \<Rightarrow>
             if wt = ColdWrite then
               (if now + (- retentionPeriod b) > timestamp then (wt, Some ErrTooPast)
                else if \<not> now + futureRetentionPeriod b + blockSize b > timestamp
                then (wt, Some ErrTooFuture)
                else (wt, None))
             else (wt, None))"

text \<open>\<^verbatim>\<open>Write(ctx, timestamp, value, unit, annotation, wOpts)\<close> with the clock at \<open>now\<close>:
  \<open>(written, err)\<close> and the buffer.\<close>

definition Write :: "('e, 's, 'b) bufferDeps \<Rightarrow> ('e, 'b) dbBuffer \<Rightarrow> time \<Rightarrow> time \<Rightarrow> real
    \<Rightarrow> WriteOptions \<Rightarrow> (bool \<times> error option) \<times> ('e, 'b) dbBuffer" where
  "Write deps b now timestamp v wOpts =
     (case classifyWrite b now timestamp of
        (wt, Some err) \<Rightarrow> ((False, Some err), b)
      | (wt, None) \<Rightarrow>
          (let blockStart = Truncate timestamp (blockSize b) in
           case bucketVersionsAtCreate b blockStart of
             (p, b1) \<Rightarrow>
               (let b2 = putBucketVersionsInCache b1 p;
                    ts = (if TruncateType wOpts = TypeBlock then blockStart else timestamp);
                    v' = (if ForceValueEnabled wOpts then ForceValue wOpts else v)
                in case BufferBucketVersions_write deps (blockSize b2) (heap b2 p) ts v' wt of
                     (r, bv') \<Rightarrow> (r, b2\<lparr>heap := (heap b2)(p := bv')\<rparr>))))"

text \<open>\<^verbatim>\<open>Bootstrap(bl)\<close>.\<close>

definition Bootstrap :: "('e, 's, 'b) bufferDeps \<Rightarrow> ('e, 'b) dbBuffer \<Rightarrow> 'b \<Rightarrow> ('e, 'b) dbBuffer" where
  "Bootstrap deps b bl =
     (case bucketVersionsAtCreate b (blockStartTime deps bl) of
        (p, b1) \<Rightarrow> b1\<lparr>heap := (heap b1)(p := BufferBucketVersions_bootstrap deps (heap b1 p) bl)\<rparr>)"

text \<open>
  The stream that \<^verbatim>\<open>WarmFlush\<close> and \<^verbatim>\<open>Snapshot\<close> persist: the only stream when there is
  just one; otherwise the streams (none included) merged into a new encoder, and the
  stream of that encoder, \<open>None\<close> when it has none. (\<^verbatim>\<open>WarmFlush\<close> calls
  \<^verbatim>\<open>mergeStreamsToEncoder\<close>; \<^verbatim>\<open>Snapshot\<close> has the same loop written out.)
\<close>

definition streamToPersist :: "('e, 's, 'b) bufferDeps \<Rightarrow> time \<Rightarrow> 's segmentReader list
    \<Rightarrow> error + 's segmentReader option" where
  "streamToPersist deps blockStart streams =
     (if length streams = 1 then Inr (Some (streams ! 0))
      else (case mergeStreamsToEncoder deps blockStart streams of
              Inl err \<Rightarrow> Inl err
            | Inr (e, lastAt) \<Rightarrow> Inr (map_option Reader (encoderStream deps e))))"

text \<open>Storing a bucket versions object at a pointer.\<close>

definition storeAt :: "('e, 'b) dbBuffer \<Rightarrow> nat \<Rightarrow> ('e, 'b) BufferBucketVersions
    \<Rightarrow> ('e, 'b) dbBuffer" where
  "storeAt b p bv = b\<lparr>heap := (heap b)(p := bv)\<rparr>"

definition setVersion :: "('e, 'b) BufferBucketVersions \<Rightarrow> nat \<Rightarrow> int
    \<Rightarrow> ('e, 'b) BufferBucketVersions" where
  "setVersion bv i ver = bv\<lparr>buckets := (buckets bv)[i := (buckets bv ! i)\<lparr>version := ver\<rparr>]\<rparr>"

text \<open>
  \<^verbatim>\<open>WarmFlush(ctx, blockStart, id, tags, persistFn, nsCtx)\<close>: the outcome, the error, the
  calls made to \<open>persistFn\<close> (segment and checksum; the id and the tags are left out),
  and the buffer.
\<close>

definition WarmFlush :: "('e, 's, 'b) bufferDeps \<Rightarrow> ('e, 'b) dbBuffer \<Rightarrow> time
    \<Rightarrow> (Segment \<Rightarrow> 32 word \<Rightarrow> error option)
    \<Rightarrow> (FlushOutcome \<times> error option \<times> (Segment \<times> 32 word) list) \<times> ('e, 'b) dbBuffer" where
  "WarmFlush deps b blockStart persistFn =
     (case bucketVersionsAt b blockStart of
        None \<Rightarrow> ((FlushOutcomeBlockDoesNotExist, None, []), b)
      | Some p \<Rightarrow>
          (case mergeToStreams deps (heap b p)
                  \<lparr>filterWriteType = True, filterType = WarmWrite\<rparr> of
             (Inl err, bv1) \<Rightarrow> ((FlushOutcomeErr, Some err, []), storeAt b p bv1)
           | (Inr streams, bv1) \<Rightarrow>
               (case streamToPersist deps blockStart streams of
                  Inl err \<Rightarrow> ((FlushOutcomeErr, Some err, []), storeAt b p bv1)
                | Inr None \<Rightarrow> ((FlushOutcomeBlockDoesNotExist, None, []), storeAt b p bv1)
                | Inr (Some stream) \<Rightarrow>
                    (case Segment deps stream of
                       Inl err \<Rightarrow> ((FlushOutcomeErr, Some err, []), storeAt b p bv1)
                     | Inr seg \<Rightarrow>
                         if length seg = 0 then
                           ((FlushOutcomeBlockDoesNotExist, None, []), storeAt b p bv1)
                         else
                           (case persistFn seg (SegmentChecksum deps seg) of
                              Some err \<Rightarrow>
                                ((FlushOutcomeErr, Some err, [(seg, SegmentChecksum deps seg)]),
                                 storeAt b p bv1)
                            | None \<Rightarrow>
                                ((FlushOutcomeFlushedToDisk, None,
                                  [(seg, SegmentChecksum deps seg)]),
                                 (case writableBucket (buckets bv1) WarmWrite of
                                    None \<Rightarrow> storeAt b p bv1
                                  | Some i \<Rightarrow> storeAt b p (setVersion bv1 i 1))))))))"

text \<open>\<^verbatim>\<open>Snapshot(ctx, blockStart, id, tags, persistFn, nsCtx)\<close>: the error, the calls made to
  \<open>persistFn\<close>, and the buffer.\<close>

definition Snapshot :: "('e, 's, 'b) bufferDeps \<Rightarrow> ('e, 'b) dbBuffer \<Rightarrow> time
    \<Rightarrow> (Segment \<Rightarrow> 32 word \<Rightarrow> error option)
    \<Rightarrow> (error option \<times> (Segment \<times> 32 word) list) \<times> ('e, 'b) dbBuffer" where
  "Snapshot deps b blockStart persistFn =
     (case bucketVersionsAt b blockStart of
        None \<Rightarrow> ((None, []), b)
      | Some p \<Rightarrow>
          (case mergeToStreams deps (heap b p)
                  \<lparr>filterWriteType = False, filterType = WarmWrite\<rparr> of
             (Inl err, bv1) \<Rightarrow> ((Some err, []), storeAt b p bv1)
           | (Inr streams, bv1) \<Rightarrow>
               (case streamToPersist deps blockStart streams of
                  Inl err \<Rightarrow> ((Some err, []), storeAt b p bv1)
                | Inr None \<Rightarrow> ((None, []), storeAt b p bv1)
                | Inr (Some stream) \<Rightarrow>
                    (case Segment deps stream of
                       Inl err \<Rightarrow> ((Some err, []), storeAt b p bv1)
                     | Inr seg \<Rightarrow>
                         if length seg = 0 then ((None, []), storeAt b p bv1)
                         else
                           ((persistFn seg (SegmentChecksum deps seg),
                             [(seg, SegmentChecksum deps seg)]),
                            storeAt b p bv1)))))"

text \<open>\<^verbatim>\<open>ReadEncoded(ctx, start, end, nsCtx)\<close> with the clock at \<open>now\<close>: the loop over
  \<open>inOrderBlockStarts\<close>. An error leaves the last read times set so far.\<close>

fun readEncodedLoop :: "('e, 's, 'b) bufferDeps \<Rightarrow> time \<Rightarrow> time \<Rightarrow> time \<Rightarrow> time list
    \<Rightarrow> ('e, 'b) dbBuffer \<Rightarrow> 's BlockReader list list
    \<Rightarrow> (error + 's BlockReader list list) \<times> ('e, 'b) dbBuffer" where
  "readEncodedLoop deps now st en [] b res = (Inr res, b)"
| "readEncodedLoop deps now st en (blockStart # rest) b res =
     (if \<not> blockStart < en \<or> \<not> st < blockStart + blockSize b then
        readEncodedLoop deps now st en rest b res
      else
        (case bucketVersionsAt b blockStart of
           None \<Rightarrow> (Inl (errBucketMapCacheNotInSync blockStart), b)
         | Some p \<Rightarrow>
             (let streams = BufferBucketVersions_streams deps (blockSize b) (heap b p)
                              \<lparr>filterWriteType = False, filterType = WarmWrite\<rparr>
              in readEncodedLoop deps now st en rest
                   (storeAt b p (setLastRead (heap b p) now))
                   (if length streams > 0 then res @ [streams] else res))))"

definition ReadEncoded :: "('e, 's, 'b) bufferDeps \<Rightarrow> ('e, 'b) dbBuffer \<Rightarrow> time \<Rightarrow> time \<Rightarrow> time
    \<Rightarrow> (error + 's BlockReader list list) \<times> ('e, 'b) dbBuffer" where
  "ReadEncoded deps b now st en = readEncodedLoop deps now st en (inOrderBlockStarts b) b []"

text \<open>\<^verbatim>\<open>fetchBlocks(ctx, starts, sOpts)\<close>: one result, start and streams, for every start
  with streams, sorted by start.\<close>

definition fetchBlocks :: "('e, 's, 'b) bufferDeps \<Rightarrow> ('e, 'b) dbBuffer \<Rightarrow> time list
    \<Rightarrow> streamsOptions \<Rightarrow> (time \<times> 's BlockReader list) list" where
  "fetchBlocks deps b starts sOpts =
     sort_key fst
       (List.map_filter
          (\<lambda>st. case bucketVersionsAt b st of
                  None \<Rightarrow> None
                | Some p \<Rightarrow>
                    (let streams = BufferBucketVersions_streams deps (blockSize b) (heap b p) sOpts
                     in if length streams > 0 then Some (st, streams) else None))
          starts)"

text \<open>\<^verbatim>\<open>FetchBlocksForColdFlush(ctx, start, version, nsCtx)\<close>.\<close>

definition FetchBlocksForColdFlush :: "('e, 's, 'b) bufferDeps \<Rightarrow> ('e, 'b) dbBuffer \<Rightarrow> time \<Rightarrow> int
    \<Rightarrow> (error + 's BlockReader list) \<times> ('e, 'b) dbBuffer" where
  "FetchBlocksForColdFlush deps b st ver =
     (let res = fetchBlocks deps b [st] \<lparr>filterWriteType = True, filterType = ColdWrite\<rparr> in
      if length res = 0 then (Inr [], b)
      else if length res \<noteq> 1 then (Inl (errFetchBlocksNotOneBlock st), b)
      else
        (case bucketVersionsAt b st of
           None \<Rightarrow> (Inl (errBucketsDoNotExist st), b)
         | Some p \<Rightarrow>
             (case writableBucket (buckets (heap b p)) ColdWrite of
                Some i \<Rightarrow> (Inr (snd (res ! 0)), storeAt b p (setVersion (heap b p) i ver))
              | None \<Rightarrow> (Inl (errWritableBucketDoesNotExist st), b))))"

text \<open>
  \<^verbatim>\<open>Tick(blockStates, nsCtx)\<close>: the loop over the entries of the map as they were when
  the loop began (the only key the loop deletes is the one it is visiting). The result is
  the count of merged blocks, the evicted block starts and the merge errors, which the
  code logs and does not return.
\<close>

definition blockStateAt :: "(time \<rightharpoonup> BlockState) \<Rightarrow> time \<Rightarrow> BlockState" where
  "blockStateAt blockStates t =
     (case blockStates t of
        None \<Rightarrow> \<lparr>WarmRetrievable = False, ColdVersion = 0\<rparr>
      | Some s \<Rightarrow> s)"

definition tickEvict :: "('e, 'b) BufferBucketVersions \<Rightarrow> BlockState
    \<Rightarrow> ('e, 'b) BufferBucketVersions" where
  "tickEvict bv blockState =
     (let bv1 = (if WarmRetrievable blockState then removeBucketsUpToVersion bv WarmWrite 1 else bv)
      in if ColdVersion blockState > 0
         then removeBucketsUpToVersion bv1 ColdWrite (ColdVersion blockState) else bv1)"

fun tickLoop :: "('e, 's, 'b) bufferDeps \<Rightarrow> (time \<rightharpoonup> BlockState) \<Rightarrow> (time \<times> nat) list
    \<Rightarrow> ('e, 'b) dbBuffer \<Rightarrow> nat \<times> time list \<times> error list
    \<Rightarrow> (nat \<times> time list \<times> error list) \<times> ('e, 'b) dbBuffer" where
  "tickLoop deps blockStates [] b res = (res, b)"
| "tickLoop deps blockStates ((tNano, p) # rest) b (merged, evicted, logged) =
     (let blockState = blockStateAt blockStates tNano;
          eligible = (WarmRetrievable blockState \<or> ColdVersion blockState > 0);
          bv1 = (if eligible then tickEvict (heap b p) blockState else heap b p);
          b1 = storeAt b p bv1
      in if eligible \<and> BufferBucketVersions_streamsLen deps bv1 = 0 then
           tickLoop deps blockStates rest (removeBucketVersionsAt b1 tNano)
             (merged, evicted @ [tNano], logged)
         else
           (case BufferBucketVersions_merge deps bv1 WarmWrite of
              (Inl err, bv2) \<Rightarrow>
                tickLoop deps blockStates rest (storeAt b1 p bv2) (merged, evicted, logged @ [err])
            | (Inr merges, bv2) \<Rightarrow>
                tickLoop deps blockStates rest (storeAt b1 p bv2)
                  (if merges > 0 then merged + 1 else merged, evicted, logged)))"

definition Tick :: "('e, 's, 'b) bufferDeps \<Rightarrow> ('e, 'b) dbBuffer \<Rightarrow> (time \<rightharpoonup> BlockState)
    \<Rightarrow> (nat \<times> time list \<times> error list) \<times> ('e, 'b) dbBuffer" where
  "Tick deps b blockStates = tickLoop deps blockStates (bucketsMap b) b (0, [], [])"

subsection \<open>Concrete collaborators and buffers for evaluation\<close>

text \<open>An encoder is the list of the datapoints encoded, a stream the list it reads, a
  block its start and its datapoints. The iterator yields the datapoints of the streams
  by timestamp. Nothing fails.\<close>

definition exampleIterate :: "Datapoint list segmentReader list \<Rightarrow> Datapoint list \<times> error option" where
  "exampleIterate rs =
     (sort_key Timestamp
        (concat (map (\<lambda>r. case r of
                            Reader s \<Rightarrow> s
                          | ReaderOfBlock br \<Rightarrow> (case SegmentReader br of None \<Rightarrow> [] | Some s \<Rightarrow> s))
                   rs)),
      None)"

definition exampleSegment :: "Datapoint list segmentReader \<Rightarrow> error + Segment" where
  "exampleSegment r =
     Inr (map (\<lambda>dp. word_of_int (Timestamp dp))
            (case r of
               Reader s \<Rightarrow> s
             | ReaderOfBlock br \<Rightarrow> (case SegmentReader br of None \<Rightarrow> [] | Some s \<Rightarrow> s)))"

definition exampleBufferDeps :: "(Datapoint list, Datapoint list, time \<times> Datapoint list) bufferDeps" where
  "exampleBufferDeps =
     \<lparr>newEncoder = (\<lambda>st. []),
      Encode = (\<lambda>e dp. (None, e @ [dp])),
      LastEncoded = (\<lambda>e. case rev e of [] \<Rightarrow> Inl (External ''encoder has no datapoint'')
                                       | dp # dps \<Rightarrow> Inr dp),
      encoderStream = (\<lambda>e. if e = [] then None else Some e),
      encoderLen = length,
      blockStartTime = fst,
      blockLen = (\<lambda>bl. length (snd bl)),
      blockStream = (\<lambda>bl. Inr \<lparr>SegmentReader = Some (snd bl), Start = fst bl, BlockSize = 10\<rparr>),
      IsNotEmpty = (\<lambda>br. True),
      iterate = exampleIterate,
      Segment = exampleSegment,
      SegmentChecksum = (\<lambda>seg. of_nat (length seg))\<rparr>"

text \<open>The same collaborators with an encoder that refuses every datapoint.\<close>

definition exampleFailingDeps :: "(Datapoint list, Datapoint list, time \<times> Datapoint list) bufferDeps" where
  "exampleFailingDeps =
     exampleBufferDeps\<lparr>Encode := (\<lambda>e dp. (Some (External ''encode failed''), e))\<rparr>"

text \<open>A buffer with blocks of size 10, a past and future window of 3, a retention of 100
  and a future retention of 50; with cold writes disabled, and enabled.\<close>

definition exampleBuffer :: "(Datapoint list, time \<times> Datapoint list) dbBuffer" where
  "exampleBuffer = newDatabaseBuffer 10 3 3 False 100 50"

definition exampleColdBuffer :: "(Datapoint list, time \<times> Datapoint list) dbBuffer" where
  "exampleColdBuffer = newDatabaseBuffer 10 3 3 True 100 50"

definition exampleWriteOptions :: WriteOptions where
  "exampleWriteOptions = \<lparr>TruncateType = TypeNone, ForceValueEnabled = False, ForceValue = 0\<rparr>"

text \<open>A warm bucket with two encoders, as two writes of different values at the same
  timestamp leave it.\<close>

definition exampleTwoEncoders :: "(Datapoint list, time \<times> Datapoint list) BufferBucket" where
  "exampleTwoEncoders =
     \<lparr>start = 100,
      encoders = [\<lparr>encoder = [\<lparr>Timestamp = 105, Value = 1\<rparr>], lastWriteAt = 105\<rparr>,
                  \<lparr>encoder = [\<lparr>Timestamp = 105, Value = 2\<rparr>], lastWriteAt = 105\<rparr>],
      bootstrapped = [],
      version = 0,
      writeType = WarmWrite\<rparr>"

text \<open>The bucket \<^verbatim>\<open>Bootstrap\<close> creates for one block: the empty encoder of \<^verbatim>\<open>resetTo\<close> and
  the block.\<close>

definition exampleBootstrapped :: "(Datapoint list, time \<times> Datapoint list) BufferBucket" where
  "exampleBootstrapped =
     \<lparr>start = 100,
      encoders = [\<lparr>encoder = [], lastWriteAt = 0\<rparr>],
      bootstrapped = [(100, [\<lparr>Timestamp = 101, Value = 1\<rparr>])],
      version = 0,
      writeType = BootstrapWriteType\<rparr>"

text \<open>The buffer after the warm write of the value 1 at 101 with the clock at 100: one
  bucket versions object, at pointer 0, for the block start 100.\<close>

definition exampleWarmBucket :: "(Datapoint list, time \<times> Datapoint list) BufferBucket" where
  "exampleWarmBucket =
     \<lparr>start = 100,
      encoders = [\<lparr>encoder = [\<lparr>Timestamp = 101, Value = 1\<rparr>], lastWriteAt = 101\<rparr>],
      bootstrapped = [],
      version = 0,
      writeType = WarmWrite\<rparr>"

definition exampleWarmBuffer :: "(Datapoint list, time \<times> Datapoint list) dbBuffer" where
  "exampleWarmBuffer =
     exampleBuffer
       \<lparr>heap := (heap exampleBuffer)
                  (0 := \<lparr>buckets = [exampleWarmBucket], bvStart = 100, lastReadUnixNanos = 0\<rparr>),
        nextPtr := 1,
        bucketsMap := [(100, 0)],
        bucketVersionsCache := [Some 0, None],
        inOrderBlockStarts := [100]\<rparr>"

text \<open>Persist functions that accept and that refuse every segment.\<close>

definition examplePersistFn :: "Segment \<Rightarrow> 32 word \<Rightarrow> error option" where
  "examplePersistFn seg checksum = None"

definition exampleFailingPersistFn :: "Segment \<Rightarrow> 32 word \<Rightarrow> error option" where
  "exampleFailingPersistFn seg checksum = Some (External ''disk full'')"

text \<open>The buffer, cold writes enabled, after the cold write of the value 1 at 55 with the
  clock at 100: one bucket versions object, at pointer 0, for the block start 50.\<close>

definition exampleColdBucket :: "(Datapoint list, time \<times> Datapoint list) BufferBucket" where
  "exampleColdBucket =
     \<lparr>start = 50,
      encoders = [\<lparr>encoder = [\<lparr>Timestamp = 55, Value = 1\<rparr>], lastWriteAt = 55\<rparr>],
      bootstrapped = [],
      version = 0,
      writeType = ColdWrite\<rparr>"

definition exampleColdWrittenBuffer :: "(Datapoint list, time \<times> Datapoint list) dbBuffer" where
  "exampleColdWrittenBuffer =
     exampleColdBuffer
       \<lparr>heap := (heap exampleColdBuffer)
                  (0 := \<lparr>buckets = [exampleColdBucket], bvStart = 50, lastReadUnixNanos = 0\<rparr>),
        nextPtr := 1,
        bucketsMap := [(50, 0)],
        bucketVersionsCache := [Some 0, None],
        inOrderBlockStarts := [50]\<rparr>"

text \<open>The warm buffer whose bucket for the block start 100 holds the two encoders.\<close>

definition exampleTwoEncodersBuffer :: "(Datapoint list, time \<times> Datapoint list) dbBuffer" where
  "exampleTwoEncodersBuffer =
     exampleBuffer
       \<lparr>heap := (heap exampleBuffer)
                  (0 := \<lparr>buckets = [exampleTwoEncoders], bvStart = 100, lastReadUnixNanos = 0\<rparr>),
        nextPtr := 1,
        bucketsMap := [(100, 0)],
        bucketVersionsCache := [Some 0, None],
        inOrderBlockStarts := [100]\<rparr>"

text \<open>A buffer whose bucket versions for the block start 100 hold the warm bucket with
  two encoders and a cold bucket with one datapoint, at 103.\<close>

definition exampleColdBucketAt100 :: "(Datapoint list, time \<times> Datapoint list) BufferBucket" where
  "exampleColdBucketAt100 =
     \<lparr>start = 100,
      encoders = [\<lparr>encoder = [\<lparr>Timestamp = 103, Value = 9\<rparr>], lastWriteAt = 103\<rparr>],
      bootstrapped = [],
      version = 0,
      writeType = ColdWrite\<rparr>"

definition exampleMixedBuffer :: "(Datapoint list, time \<times> Datapoint list) dbBuffer" where
  "exampleMixedBuffer =
     exampleColdBuffer
       \<lparr>heap := (heap exampleColdBuffer)
                  (0 := \<lparr>buckets = [exampleTwoEncoders, exampleColdBucketAt100],
                         bvStart = 100, lastReadUnixNanos = 0\<rparr>),
        nextPtr := 1,
        bucketsMap := [(100, 0)],
        bucketVersionsCache := [Some 0, None],
        inOrderBlockStarts := [100]\<rparr>"

section \<open>Series buffer: coherence of the map, the sorted list and the cache\<close>

text \<open>
  The invariant that the operations of \<^verbatim>\<open>dbBuffer\<close> keep. The keys of \<open>bucketsMap\<close> are the
  entries of \<open>inOrderBlockStarts\<close>, which is sorted and without duplicates; the map holds
  each object once, allocated, and under the block start the object carries; the cache
  has \<open>bucketsCacheSize\<close> slots, holds no object twice, and every object it holds is in
  the map.
\<close>

definition coherent :: "('e, 'b) dbBuffer \<Rightarrow> bool" where
  "coherent b \<longleftrightarrow>
     distinct (map fst (bucketsMap b))
     \<and> distinct (map snd (bucketsMap b))
     \<and> (\<forall>(t, p) \<in> set (bucketsMap b). p < nextPtr b \<and> bvStart (heap b p) = t)
     \<and> sorted (inOrderBlockStarts b)
     \<and> distinct (inOrderBlockStarts b)
     \<and> set (inOrderBlockStarts b) = fst ` set (bucketsMap b)
     \<and> length (bucketVersionsCache b) = bucketsCacheSize
     \<and> distinct (filter (\<lambda>c. c \<noteq> None) (bucketVersionsCache b))
     \<and> set (bucketVersionsCache b) \<subseteq> insert None (Some ` snd ` set (bucketsMap b))"

text \<open>
  The methods of \<^verbatim>\<open>dbBuffer\<close> that write to the buffer, with their arguments (the clock
  included), and the buffer each leaves. The other methods (\<^verbatim>\<open>IsEmpty\<close>, \<^verbatim>\<open>Stats\<close>,
  \<^verbatim>\<open>ColdFlushBlockStarts\<close>, \<^verbatim>\<open>FetchBlocks\<close>, \<^verbatim>\<open>FetchBlocksMetadata\<close>) only read it.
\<close>

datatype 'b bufferOperation =
    OpWrite time time real WriteOptions
  | OpBootstrap 'b
  | OpTick "time \<rightharpoonup> BlockState"
  | OpSnapshot time "Segment \<Rightarrow> 32 word \<Rightarrow> error option"
  | OpWarmFlush time "Segment \<Rightarrow> 32 word \<Rightarrow> error option"
  | OpReadEncoded time time time
  | OpFetchBlocksForColdFlush time int
  | OpReset duration duration duration bool duration duration

fun applyOperation :: "('e, 's, 'b) bufferDeps \<Rightarrow> ('e, 'b) dbBuffer \<Rightarrow> 'b bufferOperation
    \<Rightarrow> ('e, 'b) dbBuffer" where
  "applyOperation deps b (OpWrite now timestamp v wOpts) = snd (Write deps b now timestamp v wOpts)"
| "applyOperation deps b (OpBootstrap bl) = Bootstrap deps b bl"
| "applyOperation deps b (OpTick blockStates) = snd (Tick deps b blockStates)"
| "applyOperation deps b (OpSnapshot blockStart persistFn) =
     snd (Snapshot deps b blockStart persistFn)"
| "applyOperation deps b (OpWarmFlush blockStart persistFn) =
     snd (WarmFlush deps b blockStart persistFn)"
| "applyOperation deps b (OpReadEncoded now st en) = snd (ReadEncoded deps b now st en)"
| "applyOperation deps b (OpFetchBlocksForColdFlush st ver) =
     snd (FetchBlocksForColdFlush deps b st ver)"
| "applyOperation deps b (OpReset blockSz past future cold retention futureRetention) =
     Reset b blockSz past future cold retention futureRetention"

text \<open>A buffer that is not coherent: the sorted list holds the block start 100, the map
  and the cache hold nothing.\<close>

definition exampleStaleBuffer :: "(Datapoint list, time \<times> Datapoint list) dbBuffer" where
  "exampleStaleBuffer = exampleBuffer\<lparr>inOrderBlockStarts := [100]\<rparr>"

section \<open>Seeker manager\<close>

text \<open>
  \<^verbatim>\<open>src/dbnode/persist/fs/seek_manager.go\<close>. A seeker
  (\<^verbatim>\<open>ConcurrentDataFileSetSeeker\<close>, an interface value holding a pointer) is its
  identity, a \<^typ>\<open>nat\<close>; so is a \<^verbatim>\<open>*sync.WaitGroup\<close> and a bloom filter pointer.
\<close>

datatype seekerManagerStatus = seekerManagerNotOpen | seekerManagerOpen | seekerManagerClosed

datatype UpdateOpenLeaseResult = NoOpenLease | UpdateOpenLease

record borrowableSeeker =
  seeker :: nat
  isBorrowed :: bool

record seekersAndBloom =
  wg :: "nat option"
  seekers :: "borrowableSeeker list"
  bloomFilter :: "nat option"
  volume :: int

text \<open>The zero value \<^verbatim>\<open>seekersAndBloom{}\<close>.\<close>

definition emptySeekersAndBloom :: seekersAndBloom where
  "emptySeekersAndBloom = \<lparr>wg = None, seekers = [], bloomFilter = None, volume = 0\<rparr>"

record rotatableSeekers =
  active :: seekersAndBloom
  inactive :: seekersAndBloom

text \<open>\<^verbatim>\<open>seekersByTime\<close>: the Go map \<^verbatim>\<open>seekers\<close> is an association list with distinct keys
  (field \<open>seekersAt\<close>); its order stands for the order in which a \<^verbatim>\<open>range\<close> visits
  it.\<close>

record seekersByTime =
  shard :: nat
  accessed :: bool
  seekersAt :: "(time \<times> rotatableSeekers) list"

record LeaseDescriptor =
  Namespace :: string
  Shard :: nat
  BlockStart :: time

record LeaseState =
  Volume :: int

text \<open>
  The manager. Beside the fields of the Go struct that the modelled methods use, the
  record carries the part of the heap they act on: \<open>closedSeekers\<close>, the seekers on
  which \<^verbatim>\<open>Close()\<close> was called, in call order; \<open>waitGroups\<close>, the counter of every wait
  group; \<open>nextWaitGroup\<close>, the next unused wait group pointer.
\<close>

record seekerManager =
  fetchConcurrency :: int
  status :: seekerManagerStatus
  isUpdatingLease :: bool
  seekersByShardIdx :: "seekersByTime list"
  namespace :: string
  closedSeekers :: "nat list"
  waitGroups :: "nat \<Rightarrow> int"
  nextWaitGroup :: nat

text \<open>
  The collaborators: \<open>newOpenSeekerFn\<close> (the manager's function field, which opens
  the fileset of a shard, block start and volume), \<^verbatim>\<open>seeker.ConcurrentClone()\<close> (the
  second argument counts the clones already taken from that seeker: each call returns a
  new object), \<^verbatim>\<open>seeker.Close()\<close> and \<^verbatim>\<open>seeker.ConcurrentIDBloomFilter()\<close>.
\<close>

record seekerDeps =
  newOpenSeekerFn :: "nat \<Rightarrow> time \<Rightarrow> int \<Rightarrow> error + nat"
  ConcurrentClone :: "nat \<Rightarrow> nat \<Rightarrow> error + nat"
  seekerClose :: "nat \<Rightarrow> error option"
  ConcurrentIDBloomFilter :: "nat \<Rightarrow> nat option"

text \<open>Closing a list of seekers: the manager with the calls logged, and the results of
  the calls.\<close>

definition closeAll :: "seekerDeps \<Rightarrow> seekerManager \<Rightarrow> borrowableSeeker list
    \<Rightarrow> seekerManager \<times> error option list" where
  "closeAll deps m sks =
     (m\<lparr>closedSeekers := closedSeekers m @ map seeker sks\<rparr>,
      map (\<lambda>s. seekerClose deps (seeker s)) sks)"


text \<open>\<^verbatim>\<open>seekersByTime(shard)\<close>: the entry of the shard, after growing the sparse array to
  \<open>shard + 1\<close> entries when the shard is beyond it. The result is the manager; the
  entry is \<open>seekersByShardIdx m ! shard\<close>.\<close>

definition seekersByTime :: "seekerManager \<Rightarrow> nat \<Rightarrow> seekerManager" where
  "seekersByTime m sh =
     (if sh < length (seekersByShardIdx m) then m
      else m\<lparr>seekersByShardIdx := seekersByShardIdx m @
             map (\<lambda>i. \<lparr>shard = i, accessed = False, seekersAt = []\<rparr>)
               [length (seekersByShardIdx m) ..< sh + 1]\<rparr>)"

text \<open>Reading and writing \<^verbatim>\<open>byTime.seekers[start]\<close> of a shard inside the array.\<close>

definition lookupSeekers :: "seekerManager \<Rightarrow> nat \<Rightarrow> time \<Rightarrow> rotatableSeekers option" where
  "lookupSeekers m sh blockStart =
     (if sh < length (seekersByShardIdx m)
      then map_of (seekersAt (seekersByShardIdx m ! sh)) blockStart else None)"

definition storeSeekers :: "seekerManager \<Rightarrow> nat \<Rightarrow> time \<Rightarrow> rotatableSeekers \<Rightarrow> seekerManager" where
  "storeSeekers m sh blockStart rs =
     m\<lparr>seekersByShardIdx := (seekersByShardIdx m)
          [sh := (seekersByShardIdx m ! sh)
             \<lparr>seekersAt := AList.update blockStart rs (seekersAt (seekersByShardIdx m ! sh))\<rparr>]\<rparr>"

text \<open>The first slot of a slice that holds the seeker (the \<^verbatim>\<open>range\<close> loops of
  \<^verbatim>\<open>returnSeekerWithLock\<close> stop at the first match).\<close>

fun findSeeker :: "nat \<Rightarrow> borrowableSeeker list \<Rightarrow> nat option" where
  "findSeeker sk [] = None"
| "findSeeker sk (x # xs) =
     (if seeker x = sk then Some 0 else map_option Suc (findSeeker sk xs))"

definition clearBorrowed :: "borrowableSeeker list \<Rightarrow> nat \<Rightarrow> borrowableSeeker list" where
  "clearBorrowed xs i = xs[i := (xs ! i)\<lparr>isBorrowed := False\<rparr>]"

definition anyBorrowed :: "borrowableSeeker list \<Rightarrow> bool" where
  "anyBorrowed xs = list_ex isBorrowed xs"



text \<open>\<^verbatim>\<open>seekersAndBloomFromSeeker\<close>: the loop that clones the seeker
  \<open>fetchConcurrency - 1\<close> times; when a clone fails, the seekers gathered so far are
  closed and the errors returned together.\<close>

fun cloneLoop :: "seekerDeps \<Rightarrow> seekerManager \<Rightarrow> nat \<Rightarrow> nat \<Rightarrow> nat \<Rightarrow> borrowableSeeker list
    \<Rightarrow> (error + borrowableSeeker list) \<times> seekerManager" where
  "cloneLoop deps m sk 0 i acc = (Inr acc, m)"
| "cloneLoop deps m sk (Suc k) i acc =
     (case ConcurrentClone deps sk i of
        Inl err \<Rightarrow>
          (case closeAll deps m acc of
             (m1, errs) \<Rightarrow> (Inl (MultiError (err # List.map_filter id errs)), m1))
      | Inr c \<Rightarrow> cloneLoop deps m sk k (Suc i) (acc @ [\<lparr>seeker = c, isBorrowed = False\<rparr>]))"

definition seekersAndBloomFromSeeker :: "seekerDeps \<Rightarrow> seekerManager \<Rightarrow> nat \<Rightarrow> int
    \<Rightarrow> (error + seekersAndBloom) \<times> seekerManager" where
  "seekersAndBloomFromSeeker deps m sk vol =
     (case cloneLoop deps m sk (nat (fetchConcurrency m - 1)) 0
             [\<lparr>seeker = sk, isBorrowed = False\<rparr>] of
        (Inl e, m1) \<Rightarrow> (Inl e, m1)
      | (Inr bs, m1) \<Rightarrow>
          (Inr \<lparr>wg = None, seekers = bs,
                bloomFilter = ConcurrentIDBloomFilter deps (seeker (bs ! 0)),
                volume = vol\<rparr>, m1))"

definition newSeekersAndBloom :: "seekerDeps \<Rightarrow> seekerManager \<Rightarrow> nat \<Rightarrow> time \<Rightarrow> int
    \<Rightarrow> (error + seekersAndBloom) \<times> seekerManager" where
  "newSeekersAndBloom deps m sh blockStart vol =
     (case newOpenSeekerFn deps sh blockStart vol of
        Inl e \<Rightarrow> (Inl e, m)
      | Inr sk \<Rightarrow> seekersAndBloomFromSeeker deps m sk vol)"

text \<open>
  \<^verbatim>\<open>acquireByTimeLockWaitGroupAware\<close>: returns the entry and whether it exists, once no
  goroutine is opening seekers for the block start. While the entry carries a wait group
  on its active seekers the loop waits on it and looks again; with no other goroutine to
  finish the opening, the call does not return.
\<close>

definition acquireByTimeLockWaitGroupAware :: "seekerManager \<Rightarrow> nat \<Rightarrow> time
    \<Rightarrow> (rotatableSeekers \<times> bool) call" where
  "acquireByTimeLockWaitGroupAware m sh blockStart =
     (case lookupSeekers m sh blockStart of
        None \<Rightarrow> Returns (\<lparr>active = emptySeekersAndBloom, inactive = emptySeekersAndBloom\<rparr>, False)
      | Some rs \<Rightarrow>
          (case wg (active rs) of
             None \<Rightarrow> Returns (rs, True)
           | Some w \<Rightarrow> Blocks (OnWaitGroup w)))"

text \<open>
  \<^verbatim>\<open>updateOpenLeaseHotSwapSeekers(descriptor, state)\<close>. The result is the error, or the
  wait group to wait on (if any) and the lease result; with an error the Go code returns
  the numeral \<open>0\<close> as the lease result, which the model leaves out.
\<close>

definition updateOpenLeaseHotSwapSeekers :: "seekerDeps \<Rightarrow> seekerManager \<Rightarrow> LeaseDescriptor
    \<Rightarrow> LeaseState \<Rightarrow> (error + nat option \<times> UpdateOpenLeaseResult) call \<times> seekerManager" where
  "updateOpenLeaseHotSwapSeekers deps m descriptor state =
     (case newSeekersAndBloom deps m (Shard descriptor) (BlockStart descriptor) (Volume state) of
        (Inl err, m1) \<Rightarrow> (Returns (Inl err), m1)
      | (Inr newActiveSeekers, m1) \<Rightarrow>
          (let m2 = seekersByTime m1 (Shard descriptor) in
           case acquireByTimeLockWaitGroupAware m2 (Shard descriptor) (BlockStart descriptor) of
             Blocks b \<Rightarrow> (Blocks b, m2)
           | Panics p \<Rightarrow> (Panics p, m2)
           | Returns (rs, ok) \<Rightarrow>
               if \<not> ok then
                 (Returns (Inr (None, NoOpenLease)),
                  storeSeekers m2 (Shard descriptor) (BlockStart descriptor)
                    (rs\<lparr>active := newActiveSeekers\<rparr>))
               else if volume (active rs) > Volume state then
                 (case closeAll deps m2 (seekers newActiveSeekers) of
                    (m3, errs) \<Rightarrow> (Returns (Inl errOutOfOrderUpdateOpenLease), m3))
               else
                 (let rs1 = rs\<lparr>inactive := active rs, active := newActiveSeekers\<rparr> in
                  if anyBorrowed (seekers (inactive rs1)) then
                    (let w = nextWaitGroup m2;
                         m3 = m2\<lparr>waitGroups := (waitGroups m2)(w := 1), nextWaitGroup := Suc w\<rparr>;
                         rs2 = rs1\<lparr>inactive := (inactive rs1)\<lparr>wg := Some w\<rparr>\<rparr>
                     in (Returns (Inr (Some w, UpdateOpenLease)),
                         storeSeekers m3 (Shard descriptor) (BlockStart descriptor) rs2))
                  else
                    (Returns (Inr (None, UpdateOpenLease)),
                     storeSeekers m2 (Shard descriptor) (BlockStart descriptor) rs1))))"

text \<open>\<^verbatim>\<open>startUpdateOpenLease(descriptor)\<close>: \<open>(noop, err)\<close> and the manager.\<close>

definition startUpdateOpenLease :: "seekerManager \<Rightarrow> LeaseDescriptor
    \<Rightarrow> (bool \<times> error option) \<times> seekerManager" where
  "startUpdateOpenLease m descriptor =
     (if status m \<noteq> seekerManagerOpen then
        ((False, Some errUpdateOpenLeaseSeekerManagerNotOpen), m)
      else if isUpdatingLease m then
        ((False, Some errConcurrentUpdateOpenLeaseNotAllowed), m)
      else if namespace m \<noteq> Namespace descriptor then ((True, None), m)
      else ((False, None), m\<lparr>isUpdatingLease := True\<rparr>))"

text \<open>
  \<^verbatim>\<open>UpdateOpenLease(descriptor, state)\<close>. The deferred function clears
  \<open>isUpdatingLease\<close> when the call returns. When the swap left borrowed seekers
  inactive, the call parks in \<^verbatim>\<open>wg.Wait()\<close> until the last of them is returned.
\<close>

definition UpdateOpenLease_call :: "seekerDeps \<Rightarrow> seekerManager \<Rightarrow> LeaseDescriptor \<Rightarrow> LeaseState
    \<Rightarrow> (error + UpdateOpenLeaseResult) call \<times> seekerManager" where
  "UpdateOpenLease_call deps m descriptor state =
     (case startUpdateOpenLease m descriptor of
        ((noop, Some err), m1) \<Rightarrow> (Returns (Inl err), m1)
      | ((True, None), m1) \<Rightarrow> (Returns (Inr NoOpenLease), m1)
      | ((False, None), m1) \<Rightarrow>
          (case updateOpenLeaseHotSwapSeekers deps m1 descriptor state of
             (Blocks b, m2) \<Rightarrow> (Blocks b, m2)
           | (Panics p, m2) \<Rightarrow> (Panics p, m2)
           | (Returns (Inl err), m2) \<Rightarrow> (Returns (Inl err), m2\<lparr>isUpdatingLease := False\<rparr>)
           | (Returns (Inr (Some w, res)), m2) \<Rightarrow>
               if waitGroups m2 w > 0 then (Blocks (OnWaitGroup w), m2)
               else (Returns (Inr res), m2\<lparr>isUpdatingLease := False\<rparr>)
           | (Returns (Inr (None, res)), m2) \<Rightarrow>
               (Returns (Inr res), m2\<lparr>isUpdatingLease := False\<rparr>)))"

text \<open>Whether a seeker of the entry, active or inactive, is borrowed (the two inner
  loops of \<^verbatim>\<open>Close\<close>).\<close>

definition entryBorrowed :: "rotatableSeekers \<Rightarrow> bool" where
  "entryBorrowed rs \<longleftrightarrow> anyBorrowed (seekers (active rs)) \<or> anyBorrowed (seekers (inactive rs))"

definition managerBorrowed :: "seekerManager \<Rightarrow> bool" where
  "managerBorrowed m \<longleftrightarrow>
     list_ex (\<lambda>byTime. list_ex (\<lambda>e. entryBorrowed (snd e)) (seekersAt byTime))
       (seekersByShardIdx m)"

text \<open>
  The end of \<^verbatim>\<open>openCloseLoop\<close>, after the loop has seen a status other than open
  (``Release all resources''): every active and every inactive seeker of every entry is
  closed (errors are only logged), every map and the array are set to nil.
\<close>

definition releaseEntry :: "seekerDeps \<Rightarrow> rotatableSeekers \<Rightarrow> seekerManager \<Rightarrow> seekerManager" where
  "releaseEntry deps rs m =
     fst (closeAll deps (fst (closeAll deps m (seekers (active rs)))) (seekers (inactive rs)))"

definition releaseByTime :: "seekerDeps \<Rightarrow> seekersByTime \<Rightarrow> seekerManager \<Rightarrow> seekerManager" where
  "releaseByTime deps byTime m = fold (\<lambda>e. releaseEntry deps (snd e)) (seekersAt byTime) m"

definition openCloseLoopRelease :: "seekerDeps \<Rightarrow> seekerManager \<Rightarrow> seekerManager" where
  "openCloseLoopRelease deps m =
     (fold (releaseByTime deps) (seekersByShardIdx m) m)\<lparr>seekersByShardIdx := []\<rparr>"

text \<open>
  \<^verbatim>\<open>Close()\<close>. After setting the status the call waits on \<^verbatim>\<open>openCloseLoopDoneCh\<close>. The
  loop runs exactly while the status is open (\<^verbatim>\<open>Open\<close> starts it): it then leaves its
  \<^verbatim>\<open>for\<close>, releases everything and sends on the channel, and \<^verbatim>\<open>Close\<close> returns nil. On a
  manager that was never opened no loop runs and the receive parks for ever. The
  iteration of the loop that may be under way when \<^verbatim>\<open>Close\<close> is called, and calls of other
  goroutines between the status change and the release, are not modelled.
\<close>

definition Close :: "seekerDeps \<Rightarrow> seekerManager \<Rightarrow> error option call \<times> seekerManager" where
  "Close deps m =
     (if status m = seekerManagerClosed then (Returns (Some errSeekerManagerAlreadyClosed), m)
      else if managerBorrowed m then
        (Returns (Some errCantCloseSeekerManagerWhileSeekersAreBorrowed), m)
      else if status m = seekerManagerOpen then
        (Returns None, openCloseLoopRelease deps (m\<lparr>status := seekerManagerClosed\<rparr>))
      else (Blocks OnOpenCloseLoopDoneCh, m\<lparr>status := seekerManagerClosed\<rparr>))"

text \<open>The seekers the manager holds, and those of them that are borrowed, in the order
  of the array, the maps and the slices.\<close>

definition entrySeekers :: "rotatableSeekers \<Rightarrow> nat list" where
  "entrySeekers rs = map seeker (seekers (active rs)) @ map seeker (seekers (inactive rs))"

definition heldSeekers :: "seekerManager \<Rightarrow> nat list" where
  "heldSeekers m =
     concat (map (\<lambda>byTime. concat (map (\<lambda>e. entrySeekers (snd e)) (seekersAt byTime)))
       (seekersByShardIdx m))"

definition entryBorrowedSeekers :: "rotatableSeekers \<Rightarrow> nat list" where
  "entryBorrowedSeekers rs =
     map seeker (filter isBorrowed (seekers (active rs))) @
     map seeker (filter isBorrowed (seekers (inactive rs)))"

definition borrowedSeekers :: "seekerManager \<Rightarrow> nat list" where
  "borrowedSeekers m =
     concat (map (\<lambda>byTime. concat (map (\<lambda>e. entryBorrowedSeekers (snd e)) (seekersAt byTime)))
       (seekersByShardIdx m))"

subsection \<open>Concrete managers for evaluation\<close>

text \<open>Collaborators that never fail: the seeker of volume \<open>v\<close> is \<open>200 + v\<close>, its
  \<open>i\<close>-th clone \<open>1000 * (i + 1)\<close> above it.\<close>

definition exampleDeps :: seekerDeps where
  "exampleDeps =
     \<lparr>newOpenSeekerFn = (\<lambda>sh t v. Inr (200 + nat v)),
      ConcurrentClone = (\<lambda>s i. Inr (s + 1000 * (i + 1))),
      seekerClose = (\<lambda>s. None),
      ConcurrentIDBloomFilter = (\<lambda>s. Some s)\<rparr>"

text \<open>An open manager of namespace \<open>ns\<close> with one shard and one block start, 100: volume 3
  is active with its first seeker borrowed, volume 2 is inactive with its first seeker
  still borrowed and a wait group on it.\<close>

definition exampleEntry :: rotatableSeekers where
  "exampleEntry =
     \<lparr>active = \<lparr>wg = None,
                seekers = [\<lparr>seeker = 103, isBorrowed = True\<rparr>, \<lparr>seeker = 1103, isBorrowed = False\<rparr>],
                bloomFilter = Some 103, volume = 3\<rparr>,
      inactive = \<lparr>wg = Some 0,
                  seekers = [\<lparr>seeker = 102, isBorrowed = True\<rparr>, \<lparr>seeker = 1102, isBorrowed = False\<rparr>],
                  bloomFilter = Some 102, volume = 2\<rparr>\<rparr>"

definition exampleManager :: seekerManager where
  "exampleManager =
     \<lparr>fetchConcurrency = 2, status = seekerManagerOpen, isUpdatingLease = False,
      seekersByShardIdx = [\<lparr>shard = 0, accessed = True, seekersAt = [(100, exampleEntry)]\<rparr>],
      namespace = ''ns'', closedSeekers = [], waitGroups = (\<lambda>w. 0)(0 := 1),
      nextWaitGroup = 1\<rparr>"

text \<open>The same manager with every seeker returned and no inactive seekers.\<close>

definition exampleIdleEntry :: rotatableSeekers where
  "exampleIdleEntry =
     \<lparr>active = \<lparr>wg = None,
                seekers = [\<lparr>seeker = 103, isBorrowed = False\<rparr>, \<lparr>seeker = 1103, isBorrowed = False\<rparr>],
                bloomFilter = Some 103, volume = 3\<rparr>,
      inactive = emptySeekersAndBloom\<rparr>"

definition exampleIdleManager :: seekerManager where
  "exampleIdleManager =
     \<lparr>fetchConcurrency = 2, status = seekerManagerOpen, isUpdatingLease = False,
      seekersByShardIdx = [\<lparr>shard = 0, accessed = True, seekersAt = [(100, exampleIdleEntry)]\<rparr>],
      namespace = ''ns'', closedSeekers = [], waitGroups = (\<lambda>w. 0),
      nextWaitGroup = 0\<rparr>"

definition exampleDescriptor :: LeaseDescriptor where
  "exampleDescriptor = \<lparr>Namespace = ''ns'', Shard = 0, BlockStart = 100\<rparr>"

section \<open>Namespace index: Query\<close>

text \<open>
  Modelled from the spec: the namespace index's \<^verbatim>\<open>Query\<close> (the \<^verbatim>\<open>nsIndex\<close> implementation
  is not among the sources; only its test \<^verbatim>\<open>TestNamespaceIndexBlockQuery\<close> and the
  interface declaration are). The state is \<open>blocksByTime\<close> and \<open>blockStartsDescOrder\<close>; a
  block answers a query with \<open>(exhaustive, error)\<close>, given here by the function \<open>bq\<close>
  from the block to \<open>Inr exhaustive\<close> or \<open>Inl error\<close>.
\<close>

record IndexBlock =
  StartTime :: time
  EndTime :: time

record nsIndex =
  blocksByTime :: "time \<rightharpoonup> IndexBlock"
  blockStartsDescOrder :: "time list"

record QueryOptions =
  StartInclusive :: time
  EndExclusive :: time

text \<open>Modelled from the spec: the block's \<open>[start, end)\<close> intersects
  \<open>[startInclusive, endExclusive)\<close>, that is, some time lies in both half-open
  intervals: the later of the two starts is before the earlier of the two ends. An empty
  or inverted query range intersects nothing.\<close>

definition intersects :: "QueryOptions \<Rightarrow> IndexBlock \<Rightarrow> bool" where
  "intersects opts blk \<longleftrightarrow>
     max (StartTime blk) (StartInclusive opts) < min (EndTime blk) (EndExclusive opts)"

text \<open>Modelled from the spec: the blocks to scan, in the order of
  \<open>blockStartsDescOrder\<close>.\<close>

definition blocksForQuery :: "nsIndex \<Rightarrow> QueryOptions \<Rightarrow> IndexBlock list" where
  "blocksForQuery idx opts =
     List.map_filter
       (\<lambda>t. case blocksByTime idx t of
               None \<Rightarrow> None
             | Some blk \<Rightarrow> if intersects opts blk then Some blk else None)
       (blockStartsDescOrder idx)"

text \<open>Modelled from the spec: the scan. It returns the blocks it queried, in order, and
  the result: the first error, or the conjunction of the flags, stopping at the first
  block that reports \<open>exhaustive = false\<close>.\<close>

fun queryBlocks :: "(IndexBlock \<Rightarrow> 'err + bool) \<Rightarrow> IndexBlock list
    \<Rightarrow> IndexBlock list \<times> ('err + bool)" where
  "queryBlocks bq [] = ([], Inr True)"
| "queryBlocks bq (blk # blks) =
     (case bq blk of
        Inl e \<Rightarrow> ([blk], Inl e)
      | Inr False \<Rightarrow> ([blk], Inr False)
      | Inr True \<Rightarrow> (case queryBlocks bq blks of (visited, r) \<Rightarrow> (blk # visited, r)))"

definition Query :: "(IndexBlock \<Rightarrow> 'err + bool) \<Rightarrow> nsIndex \<Rightarrow> QueryOptions
    \<Rightarrow> IndexBlock list \<times> ('err + bool)" where
  "Query bq idx opts = queryBlocks bq (blocksForQuery idx opts)"

text \<open>A concrete index for evaluation: three blocks \<open>B0 < B1 < B2\<close> of size 10, of
  which the latest reports \<open>exhaustive = false\<close>.\<close>

definition exampleIndex :: nsIndex where
  "exampleIndex =
     \<lparr>blocksByTime =
        [0 \<mapsto> \<lparr>StartTime = 0, EndTime = 10\<rparr>,
         10 \<mapsto> \<lparr>StartTime = 10, EndTime = 20\<rparr>,
         20 \<mapsto> \<lparr>StartTime = 20, EndTime = 30\<rparr>],
      blockStartsDescOrder = [20, 10, 0]\<rparr>"

definition exampleBlockQuery :: "IndexBlock \<Rightarrow> unit + bool" where
  "exampleBlockQuery blk = Inr (StartTime blk \<noteq> 20)"

section \<open>Properties of the series buffer\<close>

lemma needsMerge_cases:
  "needsMerge deps b \<longleftrightarrow>
     length (encoders b) > 1
     \<or> (encoders b = [] \<and> length (bootstrapped b) \<noteq> 1)
     \<or> (length (encoders b) = 1 \<and> bootstrapped b \<noteq> []
         \<and> \<not> (length (bootstrapped b) = 1 \<and> encoderLen deps (encoder (encoders b ! 0)) = 0))"
  by (cases "encoders b"; cases "bootstrapped b")
    (auto simp: needsMerge_def hasJustSingleEncoder_def hasJustSingleBootstrappedBlock_def)

lemma BufferBucket_merge_no_need:
  "\<not> needsMerge deps b \<Longrightarrow> BufferBucket_merge deps b = Inr (0, b, [], [])"
  by (simp add: BufferBucket_merge_def)

lemma BufferBucket_merge_success:
  assumes nm: "needsMerge deps b"
    and ok: "BufferBucket_merge deps b = Inr (n, b', ce, cb)"
  shows "length (encoders b') = 1 \<and> bootstrapped b' = [] \<and> version b' = version b
      \<and> writeType b' = writeType b \<and> start b' = start b"
    and "ce = map encoder (encoders b)" and "cb = bootstrapped b"
    and "n = length (bootstrappedReaders deps (bootstrapped b) @ encoderReaders deps (encoders b))"
  using nm ok
  by (auto simp: BufferBucket_merge_def Let_def resetEncoders_def resetBootstrapped_def
      split: sum.splits prod.splits)

lemma BufferBucket_merge_single:
  assumes nm: "needsMerge deps b"
    and ok: "BufferBucket_merge deps b = Inr (n, b', ce, cb)"
  shows "hasJustSingleEncoder b'"
  using BufferBucket_merge_success(1)[OF nm ok]
  by (auto simp: hasJustSingleEncoder_def)

lemma BufferBucket_merge_keeps:
  assumes ok: "BufferBucket_merge deps b = Inr (n, b', ce, cb)"
  shows "version b' = version b \<and> writeType b' = writeType b \<and> start b' = start b"
proof (cases "needsMerge deps b")
  case True
  from BufferBucket_merge_success(1)[OF True ok] show ?thesis by auto
next
  case False
  with ok show ?thesis by (simp add: BufferBucket_merge_def)
qed

lemma mergeToStream_merge_fails:
  assumes "\<not> hasJustSingleEncoder b" and "\<not> hasJustSingleBootstrappedBlock deps b"
    and "BufferBucket_merge deps b = Inl err"
  shows "mergeToStream deps b = (Inl err, b\<lparr>encoders := [], bootstrapped := []\<rparr>)"
  using assms by (simp add: mergeToStream_def resetEncoders_def resetBootstrapped_def)

lemma mergeToStream_merge_succeeds:
  assumes "needsMerge deps b"
    and "BufferBucket_merge deps b = Inr (n, b1, ce, cb)"
  shows "mergeToStream deps b = (mergedStream deps b1, b1)"
  using assms by (simp add: mergeToStream_def needsMerge_def)

lemma mergedStream_incomplete:
  "\<not> hasJustSingleEncoder b1 \<Longrightarrow> mergedStream deps b1 = Inl errIncompleteMerge"
  by (simp add: mergedStream_def)

lemma mergedStream_single:
  "hasJustSingleEncoder b1 \<Longrightarrow> mergedStream deps b1 \<noteq> Inl errIncompleteMerge"
  by (simp add: mergedStream_def split: option.splits)

lemma mergeToStream_keeps:
  "mergeToStream deps b = (r, b') \<Longrightarrow>
     version b' = version b \<and> writeType b' = writeType b \<and> start b' = start b"
proof -
  assume m: "mergeToStream deps b = (r, b')"
  show ?thesis
  proof (cases "hasJustSingleEncoder b")
    case True
    with m show ?thesis
      by (auto simp: mergeToStream_def resetBootstrapped_def Let_def split: option.splits)
  next
    case nse: False
    show ?thesis
    proof (cases "hasJustSingleBootstrappedBlock deps b")
      case True
      with nse m show ?thesis
        by (auto simp: mergeToStream_def resetEncoders_def Let_def split: sum.splits)
    next
      case False
      show ?thesis
      proof (cases "BufferBucket_merge deps b")
        case (Inl err)
        with nse False m show ?thesis
          by (auto simp: mergeToStream_def resetEncoders_def resetBootstrapped_def)
      next
        case (Inr x)
        then obtain n b1 ce cb where x: "BufferBucket_merge deps b = Inr (n, b1, ce, cb)"
          by (cases x) auto
        with nse False m have "b' = b1" by (simp add: mergeToStream_def)
        with BufferBucket_merge_keeps[OF x] show ?thesis by simp
      qed
    qed
  qed
qed

text \<open>
  Claim C9, as the code has it. A bucket needs a merge unless it holds just one encoder
  and no bootstrapped block, or just one bootstrapped block and no encoder or one empty
  encoder: so always with more than one encoder; with one encoder and bootstrapped
  blocks, unless there is exactly one block and the encoder is empty; with no encoder,
  unless there is exactly one block. After a merge that succeeds the bucket holds exactly
  one encoder and no bootstrapped block, its former encoders and blocks were closed, and
  \<^verbatim>\<open>mergeToStream\<close> goes on with the check of the merged bucket, which passes. A merged
  bucket that does not hold exactly one encoder makes that check fail with
  \<^verbatim>\<open>errIncompleteMerge\<close>.
\<close>

theorem needsMerge_and_merge_postcondition:
  fixes deps :: "('e, 's, 'b) bufferDeps" and b :: "('e, 'b) BufferBucket"
  shows "(needsMerge deps b \<longleftrightarrow>
           length (encoders b) > 1
           \<or> (encoders b = [] \<and> length (bootstrapped b) \<noteq> 1)
           \<or> (length (encoders b) = 1 \<and> bootstrapped b \<noteq> []
               \<and> \<not> (length (bootstrapped b) = 1
                     \<and> encoderLen deps (encoder (encoders b ! 0)) = 0)))
       \<and> (needsMerge deps b \<and> BufferBucket_merge deps b = Inr (n, b', ce, cb) \<longrightarrow>
             length (encoders b') = 1 \<and> bootstrapped b' = []
             \<and> ce = map encoder (encoders b) \<and> cb = bootstrapped b
             \<and> mergeToStream deps b = (mergedStream deps b', b')
             \<and> mergedStream deps b' \<noteq> Inl errIncompleteMerge)
       \<and> (\<forall>b1 :: ('e, 'b) BufferBucket.
             \<not> hasJustSingleEncoder b1 \<longrightarrow> mergedStream deps b1 = Inl errIncompleteMerge)"
proof (intro conjI impI allI)
  show "needsMerge deps b \<longleftrightarrow>
           length (encoders b) > 1
           \<or> (encoders b = [] \<and> length (bootstrapped b) \<noteq> 1)
           \<or> (length (encoders b) = 1 \<and> bootstrapped b \<noteq> []
               \<and> \<not> (length (bootstrapped b) = 1
                     \<and> encoderLen deps (encoder (encoders b ! 0)) = 0))"
    by (rule needsMerge_cases)
next
  assume h: "needsMerge deps b \<and> BufferBucket_merge deps b = Inr (n, b', ce, cb)"
  then have nm: "needsMerge deps b" and ok: "BufferBucket_merge deps b = Inr (n, b', ce, cb)"
    by simp_all
  from BufferBucket_merge_success(1)[OF nm ok]
  show "length (encoders b') = 1" and "bootstrapped b' = []" by simp_all
  from BufferBucket_merge_success(2)[OF nm ok] show "ce = map encoder (encoders b)" .
  from BufferBucket_merge_success(3)[OF nm ok] show "cb = bootstrapped b" .
  from mergeToStream_merge_succeeds[OF nm ok]
  show "mergeToStream deps b = (mergedStream deps b', b')" .
  from mergedStream_single[OF BufferBucket_merge_single[OF nm ok]]
  show "mergedStream deps b' \<noteq> Inl errIncompleteMerge" .
next
  fix b1 :: "('e, 'b) BufferBucket"
  assume "\<not> hasJustSingleEncoder b1"
  then show "mergedStream deps b1 = Inl errIncompleteMerge"
    by (rule mergedStream_incomplete)
qed

lemma example_merge_two:
  "BufferBucket_merge exampleBufferDeps exampleTwoEncoders =
     Inr (2,
          \<lparr>start = 100,
           encoders = [\<lparr>encoder = [\<lparr>Timestamp = 105, Value = 1\<rparr>, \<lparr>Timestamp = 105, Value = 2\<rparr>],
                        lastWriteAt = 105\<rparr>],
           bootstrapped = [], version = 0, writeType = WarmWrite\<rparr>,
          [[\<lparr>Timestamp = 105, Value = 1\<rparr>], [\<lparr>Timestamp = 105, Value = 2\<rparr>]], [])"
  by (simp add: BufferBucket_merge_def needsMerge_def hasJustSingleEncoder_def
      hasJustSingleBootstrappedBlock_def exampleTwoEncoders_def exampleBufferDeps_def
      bootstrappedReaders_def encoderReaders_def List.map_filter_def mergeStreamsToEncoder_def
      exampleIterate_def timeZero_def resetEncoders_def resetBootstrapped_def Let_def)

theorem needsMerge_and_merge_postcondition_witness:
  "needsMerge exampleBufferDeps exampleTwoEncoders
   \<and> mergeToStream exampleBufferDeps exampleTwoEncoders =
       (Inr (Some (Reader [\<lparr>Timestamp = 105, Value = 1\<rparr>, \<lparr>Timestamp = 105, Value = 2\<rparr>])),
        \<lparr>start = 100,
         encoders = [\<lparr>encoder = [\<lparr>Timestamp = 105, Value = 1\<rparr>, \<lparr>Timestamp = 105, Value = 2\<rparr>],
                      lastWriteAt = 105\<rparr>],
         bootstrapped = [], version = 0, writeType = WarmWrite\<rparr>)"
proof -
  let ?b' = "\<lparr>start = 100,
         encoders = [\<lparr>encoder = [\<lparr>Timestamp = 105, Value = 1\<rparr>, \<lparr>Timestamp = 105, Value = 2\<rparr>],
                      lastWriteAt = 105\<rparr>],
         bootstrapped = [], version = 0, writeType = WarmWrite\<rparr>
         :: (Datapoint list, time \<times> Datapoint list) BufferBucket"
  have nm: "needsMerge exampleBufferDeps exampleTwoEncoders"
    by (simp add: needsMerge_def hasJustSingleEncoder_def hasJustSingleBootstrappedBlock_def
        exampleTwoEncoders_def)
  from needsMerge_and_merge_postcondition[where deps = exampleBufferDeps
      and b = exampleTwoEncoders and n = 2 and b' = ?b'] nm example_merge_two
  have c: "mergeToStream exampleBufferDeps exampleTwoEncoders =
      (mergedStream exampleBufferDeps ?b', ?b')"
    by blast
  have ms: "mergedStream exampleBufferDeps ?b' =
      Inr (Some (Reader [\<lparr>Timestamp = 105, Value = 1\<rparr>, \<lparr>Timestamp = 105, Value = 2\<rparr>]))"
    by (simp add: mergedStream_def hasJustSingleEncoder_def exampleBufferDeps_def)
  from nm c ms show ?thesis by simp
qed

text \<open>
  The claim C9 as stated fails on the bucket that \<^verbatim>\<open>Bootstrap\<close> creates: it holds one
  (empty) encoder and one bootstrapped block, a mix, and does not merge.
\<close>

theorem needsMerge_mix_counterexample:
  "length (encoders exampleBootstrapped) = 1
   \<and> length (bootstrapped exampleBootstrapped) = 1
   \<and> \<not> needsMerge exampleBufferDeps exampleBootstrapped
   \<and> BufferBucket_merge exampleBufferDeps exampleBootstrapped =
       Inr (0, exampleBootstrapped, [], [])"
  by (simp add: BufferBucket_merge_def needsMerge_def hasJustSingleEncoder_def
      hasJustSingleBootstrappedBlock_def exampleBootstrapped_def exampleBufferDeps_def)

lemma writableBucket_cong:
  "map version bs' = map version bs \<Longrightarrow> map writeType bs' = map writeType bs \<Longrightarrow>
   writableBucket bs' wt = writableBucket bs wt"
proof (induction bs arbitrary: bs')
  case Nil
  then show ?case by simp
next
  case (Cons b bs)
  then obtain c cs where bs': "bs' = c # cs" by (cases bs') auto
  with Cons.prems have "version c = version b" "writeType c = writeType b"
    "map version cs = map version bs" "map writeType cs = map writeType bs"
    by simp_all
  with Cons.IH[of cs] bs' show ?case by simp
qed

lemma writableBucket_Some:
  "writableBucket bs wt = Some i \<Longrightarrow>
     i < length bs \<and> version (bs ! i) = writableBucketVersion \<and> writeType (bs ! i) = wt"
proof (induction bs arbitrary: i)
  case Nil
  then show ?case by simp
next
  case (Cons b bs)
  show ?case
  proof (cases "version b = writableBucketVersion \<and> writeType b = wt")
    case True
    with Cons.prems show ?thesis by auto
  next
    case False
    with Cons.prems obtain j where j: "writableBucket bs wt = Some j" "i = Suc j" by auto
    from Cons.IH[OF j(1)] j(2) show ?thesis by simp
  qed
qed

lemma writableBucket_None:
  "writableBucket bs wt = None \<longleftrightarrow>
     (\<forall>b\<in>set bs. \<not> (version b = writableBucketVersion \<and> writeType b = wt))"
  by (induction bs) auto

lemma writableBucket_append_new:
  "writableBucket bs wt = None \<Longrightarrow>
   writableBucket (bs @ [BufferBucket_resetTo deps st wt]) wt = Some (length bs)"
  by (induction bs) (auto simp: BufferBucket_resetTo_def split: if_splits)

lemma writableBucketCreate_writable:
  "writableBucketCreate deps bv wt = (i, bv1) \<Longrightarrow>
     writableBucket (buckets bv1) wt = Some i \<and> bvStart bv1 = bvStart bv"
  by (auto simp: writableBucketCreate_def writableBucket_append_new split: option.splits)

lemma writeToEncoderIndex_keeps:
  "writeToEncoderIndex deps b idx dp = (r, b') \<Longrightarrow>
     version b' = version b \<and> writeType b' = writeType b \<and> start b' = start b
     \<and> bootstrapped b' = bootstrapped b"
  by (auto simp: writeToEncoderIndex_def split: prod.splits option.splits)

lemma BufferBucket_write_keeps:
  assumes "BufferBucket_write deps blockSz b ts v = (r, b')"
  shows "version b' = version b \<and> writeType b' = writeType b \<and> start b' = start b
     \<and> bootstrapped b' = bootstrapped b"
proof (cases "findEncoder deps ts v 0 (encoders b)")
  case NoOp
  with assms show ?thesis by (simp add: BufferBucket_write_def)
next
  case (Fail err)
  with assms show ?thesis by (simp add: BufferBucket_write_def)
next
  case (At idx)
  obtain e b1 where w: "writeToEncoderIndex deps b idx \<lparr>Timestamp = ts, Value = v\<rparr> = (e, b1)"
    by (cases "writeToEncoderIndex deps b idx \<lparr>Timestamp = ts, Value = v\<rparr>")
  with At assms have "b' = b1" by (simp add: BufferBucket_write_def)
  with writeToEncoderIndex_keeps[OF w] show ?thesis by simp
next
  case NoEncoder
  let ?b1 = "b\<lparr>encoders := encoders b @
      [\<lparr>encoder = newEncoder deps (Truncate ts blockSz), lastWriteAt = ts\<rparr>]\<rparr>"
  obtain e b2 where w: "writeToEncoderIndex deps ?b1 (length (encoders ?b1) - 1)
      \<lparr>Timestamp = ts, Value = v\<rparr> = (e, b2)"
    by (cases "writeToEncoderIndex deps ?b1 (length (encoders ?b1) - 1)
      \<lparr>Timestamp = ts, Value = v\<rparr>")
  from writeToEncoderIndex_keeps[OF w] have k: "version b2 = version b"
    "writeType b2 = writeType b" "start b2 = start b" "bootstrapped b2 = bootstrapped b"
    by simp_all
  from NoEncoder assms w have "b' = b2 \<or> b' = b2\<lparr>encoders := take (length (encoders ?b1) - 1) (encoders b2)\<rparr>"
    by (cases e) (auto simp: BufferBucket_write_def Let_def)
  with k show ?thesis by auto
qed

lemma BufferBucketVersions_write_writable:
  assumes "BufferBucketVersions_write deps blockSz bv ts v wt = (r, bv')"
  shows "writableBucket (buckets bv') wt \<noteq> None \<and> bvStart bv' = bvStart bv"
proof -
  obtain i bv1 where c: "writableBucketCreate deps bv wt = (i, bv1)"
    by (cases "writableBucketCreate deps bv wt")
  obtain r1 b' where w: "BufferBucket_write deps blockSz (buckets bv1 ! i) ts v = (r1, b')"
    by (cases "BufferBucket_write deps blockSz (buckets bv1 ! i) ts v")
  from assms c w have bv': "bv' = bv1\<lparr>buckets := (buckets bv1)[i := b']\<rparr>"
    by (simp add: BufferBucketVersions_write_def)
  from writableBucketCreate_writable[OF c]
  have wb: "writableBucket (buckets bv1) wt = Some i" and st: "bvStart bv1 = bvStart bv"
    by simp_all
  from writableBucket_Some[OF wb] have i: "i < length (buckets bv1)" by simp
  from BufferBucket_write_keeps[OF w]
  have k: "version b' = version (buckets bv1 ! i)" "writeType b' = writeType (buckets bv1 ! i)"
    by simp_all
  have "map version ((buckets bv1)[i := b']) = map version (buckets bv1)"
    using i k by (simp add: map_update list_update_same_conv)
  moreover have "map writeType ((buckets bv1)[i := b']) = map writeType (buckets bv1)"
    using i k by (simp add: map_update list_update_same_conv)
  ultimately have "writableBucket ((buckets bv1)[i := b']) wt = writableBucket (buckets bv1) wt"
    by (rule writableBucket_cong)
  with wb bv' st show ?thesis by simp
qed

lemma classifyWrite_type:
  "fst (classifyWrite b now timestamp) =
     (if now - bufferPast b < timestamp \<and> timestamp < now + bufferFuture b
      then WarmWrite else ColdWrite)"
  by (simp add: classifyWrite_def Let_def split: option.splits)

lemma classifyWrite_error:
  "snd (classifyWrite b now timestamp) =
     (if now - bufferPast b < timestamp \<and> timestamp < now + bufferFuture b then None
      else if \<not> coldWritesEnabled b then
        Some (InvalidParamsError
          (if timestamp \<le> now - bufferPast b then ''datapoint too far in past''
           else ''datapoint too far in future''))
      else if timestamp < now - retentionPeriod b then Some ErrTooPast
      else if now + futureRetentionPeriod b + blockSize b \<le> timestamp then Some ErrTooFuture
      else None)"
  by (simp add: classifyWrite_def Let_def not_less)

lemma Write_rejected:
  "snd (classifyWrite b now timestamp) = Some err \<Longrightarrow>
   Write deps b now timestamp v wOpts = ((False, Some err), b)"
  by (cases "classifyWrite b now timestamp") (simp add: Write_def)

lemma heap_putBucketVersionsInCache:
  "heap (putBucketVersionsInCache b p) = heap b"
  "blockSize (putBucketVersionsInCache b p) = blockSize b"
  by (simp_all add: putBucketVersionsInCache_def Let_def)

lemma Write_accepted:
  assumes c: "snd (classifyWrite b now timestamp) = None"
  shows "writableBucket
      (buckets (heap (snd (Write deps b now timestamp v wOpts))
         (fst (bucketVersionsAtCreate b (Truncate timestamp (blockSize b))))))
      (fst (classifyWrite b now timestamp)) \<noteq> None"
proof -
  obtain wt where cw: "classifyWrite b now timestamp = (wt, None)"
    using c by (cases "classifyWrite b now timestamp") simp
  obtain p b1 where a: "bucketVersionsAtCreate b (Truncate timestamp (blockSize b)) = (p, b1)"
    by (cases "bucketVersionsAtCreate b (Truncate timestamp (blockSize b))")
  let ?b2 = "putBucketVersionsInCache b1 p"
  let ?ts = "if TruncateType wOpts = TypeBlock then Truncate timestamp (blockSize b) else timestamp"
  let ?v = "if ForceValueEnabled wOpts then ForceValue wOpts else v"
  obtain r bv' where w: "BufferBucketVersions_write deps (blockSize ?b2) (heap ?b2 p) ?ts ?v wt
      = (r, bv')"
    by (cases "BufferBucketVersions_write deps (blockSize ?b2) (heap ?b2 p) ?ts ?v wt")
  have "Write deps b now timestamp v wOpts = (r, ?b2\<lparr>heap := (heap ?b2)(p := bv')\<rparr>)"
    using cw a w by (simp add: Write_def Let_def)
  then have "heap (snd (Write deps b now timestamp v wOpts)) p = bv'" by simp
  with BufferBucketVersions_write_writable[OF w] cw a show ?thesis by simp
qed

text \<open>
  Claim C1, as the code has it. With \<open>now\<close> the value of the injected clock, a write is
  warm exactly when \<open>now - bufferPast < timestamp < now + bufferFuture\<close> (the past limit
  itself is cold) and cold otherwise. A cold write fails with an invalid params error
  when cold writes are disabled; with cold writes enabled it fails with \<^verbatim>\<open>ErrTooPast\<close>
  when \<open>timestamp < now - retentionPeriod\<close>, and otherwise with \<^verbatim>\<open>ErrTooFuture\<close> when
  \<open>timestamp \<ge> now + futureRetentionPeriod + blockSize\<close>; a rejected write leaves the
  buffer unchanged. A write that is not rejected leaves a writable bucket of its write
  type in the bucket versions of its block start.
\<close>

theorem Write_classification:
  fixes deps :: "('e, 's, 'b) bufferDeps" and b :: "('e, 'b) dbBuffer"
  shows "(fst (classifyWrite b now timestamp) = WarmWrite \<longleftrightarrow>
            now - bufferPast b < timestamp \<and> timestamp < now + bufferFuture b)
       \<and> (fst (classifyWrite b now timestamp) = ColdWrite \<longleftrightarrow>
            \<not> (now - bufferPast b < timestamp \<and> timestamp < now + bufferFuture b))
       \<and> (fst (classifyWrite b now timestamp) = ColdWrite \<and> \<not> coldWritesEnabled b \<longrightarrow>
            Write deps b now timestamp v wOpts =
              ((False, Some (InvalidParamsError
                  (if timestamp \<le> now - bufferPast b then ''datapoint too far in past''
                   else ''datapoint too far in future''))), b))
       \<and> (fst (classifyWrite b now timestamp) = ColdWrite \<and> coldWritesEnabled b
            \<and> timestamp < now - retentionPeriod b \<longrightarrow>
            Write deps b now timestamp v wOpts = ((False, Some ErrTooPast), b))
       \<and> (fst (classifyWrite b now timestamp) = ColdWrite \<and> coldWritesEnabled b
            \<and> \<not> timestamp < now - retentionPeriod b
            \<and> now + futureRetentionPeriod b + blockSize b \<le> timestamp \<longrightarrow>
            Write deps b now timestamp v wOpts = ((False, Some ErrTooFuture), b))
       \<and> (snd (classifyWrite b now timestamp) = None \<longrightarrow>
            writableBucket
              (buckets (heap (snd (Write deps b now timestamp v wOpts))
                 (fst (bucketVersionsAtCreate b (Truncate timestamp (blockSize b))))))
              (fst (classifyWrite b now timestamp)) \<noteq> None)"
proof (intro conjI impI)
  show "fst (classifyWrite b now timestamp) = WarmWrite \<longleftrightarrow>
      now - bufferPast b < timestamp \<and> timestamp < now + bufferFuture b"
    by (simp add: classifyWrite_type)
next
  show "fst (classifyWrite b now timestamp) = ColdWrite \<longleftrightarrow>
      \<not> (now - bufferPast b < timestamp \<and> timestamp < now + bufferFuture b)"
    by (simp add: classifyWrite_type)
next
  assume h: "fst (classifyWrite b now timestamp) = ColdWrite \<and> \<not> coldWritesEnabled b"
  then have "snd (classifyWrite b now timestamp) =
      Some (InvalidParamsError
          (if timestamp \<le> now - bufferPast b then ''datapoint too far in past''
           else ''datapoint too far in future''))"
    by (simp add: classifyWrite_type classifyWrite_error split: if_splits)
  then show "Write deps b now timestamp v wOpts =
      ((False, Some (InvalidParamsError
          (if timestamp \<le> now - bufferPast b then ''datapoint too far in past''
           else ''datapoint too far in future''))), b)"
    by (rule Write_rejected)
next
  assume h: "fst (classifyWrite b now timestamp) = ColdWrite \<and> coldWritesEnabled b
      \<and> timestamp < now - retentionPeriod b"
  then have "snd (classifyWrite b now timestamp) = Some ErrTooPast"
    by (simp add: classifyWrite_type classifyWrite_error split: if_splits)
  then show "Write deps b now timestamp v wOpts = ((False, Some ErrTooPast), b)"
    by (rule Write_rejected)
next
  assume h: "fst (classifyWrite b now timestamp) = ColdWrite \<and> coldWritesEnabled b
      \<and> \<not> timestamp < now - retentionPeriod b
      \<and> now + futureRetentionPeriod b + blockSize b \<le> timestamp"
  then have "snd (classifyWrite b now timestamp) = Some ErrTooFuture"
    by (simp add: classifyWrite_type classifyWrite_error split: if_splits)
  then show "Write deps b now timestamp v wOpts = ((False, Some ErrTooFuture), b)"
    by (rule Write_rejected)
next
  assume "snd (classifyWrite b now timestamp) = None"
  then show "writableBucket
      (buckets (heap (snd (Write deps b now timestamp v wOpts))
         (fst (bucketVersionsAtCreate b (Truncate timestamp (blockSize b))))))
      (fst (classifyWrite b now timestamp)) \<noteq> None"
    by (rule Write_accepted)
qed

lemma exampleBuffer_settings:
  "bufferPast exampleBuffer = 3" "bufferFuture exampleBuffer = 3"
  "\<not> coldWritesEnabled exampleBuffer" "blockSize exampleBuffer = 10"
  "retentionPeriod exampleBuffer = 100" "futureRetentionPeriod exampleBuffer = 50"
  "bufferPast exampleColdBuffer = 3" "bufferFuture exampleColdBuffer = 3"
  "coldWritesEnabled exampleColdBuffer" "blockSize exampleColdBuffer = 10"
  "retentionPeriod exampleColdBuffer = 100" "futureRetentionPeriod exampleColdBuffer = 50"
  by (simp_all add: exampleBuffer_def exampleColdBuffer_def newDatabaseBuffer_def)

theorem Write_classification_witness:
  "fst (classifyWrite exampleColdBuffer 100 101) = WarmWrite
   \<and> fst (classifyWrite exampleColdBuffer 100 103) = ColdWrite
   \<and> Write exampleBufferDeps exampleBuffer 100 103 1 exampleWriteOptions =
       ((False, Some (InvalidParamsError ''datapoint too far in future'')), exampleBuffer)
   \<and> Write exampleBufferDeps exampleColdBuffer 100 (-1) 1 exampleWriteOptions =
       ((False, Some ErrTooPast), exampleColdBuffer)
   \<and> Write exampleBufferDeps exampleColdBuffer 100 160 1 exampleWriteOptions =
       ((False, Some ErrTooFuture), exampleColdBuffer)"
proof -
  from Write_classification[where b = exampleColdBuffer and now = 100 and timestamp = 101
      and deps = exampleBufferDeps and v = 1 and wOpts = exampleWriteOptions]
  have c1: "fst (classifyWrite exampleColdBuffer 100 101) = WarmWrite"
    by (simp add: exampleBuffer_settings)
  from Write_classification[where b = exampleColdBuffer and now = 100 and timestamp = 103
      and deps = exampleBufferDeps and v = 1 and wOpts = exampleWriteOptions]
  have c2: "fst (classifyWrite exampleColdBuffer 100 103) = ColdWrite"
    by (simp add: exampleBuffer_settings)
  from Write_classification[where b = exampleBuffer and now = 100 and timestamp = 103
      and deps = exampleBufferDeps and v = 1 and wOpts = exampleWriteOptions]
  have c3a: "fst (classifyWrite exampleBuffer 100 103) = ColdWrite"
    by (simp add: exampleBuffer_settings)
  from Write_classification[where b = exampleBuffer and now = 100 and timestamp = 103
      and deps = exampleBufferDeps and v = 1 and wOpts = exampleWriteOptions] c3a
  have c3: "Write exampleBufferDeps exampleBuffer 100 103 1 exampleWriteOptions =
       ((False, Some (InvalidParamsError ''datapoint too far in future'')), exampleBuffer)"
    by (simp add: exampleBuffer_settings)
  from Write_classification[where b = exampleColdBuffer and now = 100 and timestamp = "-1"
      and deps = exampleBufferDeps and v = 1 and wOpts = exampleWriteOptions]
  have c4a: "fst (classifyWrite exampleColdBuffer 100 (-1)) = ColdWrite"
    by (simp add: exampleBuffer_settings)
  from Write_classification[where b = exampleColdBuffer and now = 100 and timestamp = "-1"
      and deps = exampleBufferDeps and v = 1 and wOpts = exampleWriteOptions] c4a
  have c4: "Write exampleBufferDeps exampleColdBuffer 100 (-1) 1 exampleWriteOptions =
       ((False, Some ErrTooPast), exampleColdBuffer)"
    by (simp add: exampleBuffer_settings)
  from Write_classification[where b = exampleColdBuffer and now = 100 and timestamp = 160
      and deps = exampleBufferDeps and v = 1 and wOpts = exampleWriteOptions]
  have c5a: "fst (classifyWrite exampleColdBuffer 100 160) = ColdWrite"
    by (simp add: exampleBuffer_settings)
  from Write_classification[where b = exampleColdBuffer and now = 100 and timestamp = 160
      and deps = exampleBufferDeps and v = 1 and wOpts = exampleWriteOptions] c5a
  have c5: "Write exampleBufferDeps exampleColdBuffer 100 160 1 exampleWriteOptions =
       ((False, Some ErrTooFuture), exampleColdBuffer)"
    by (simp add: exampleBuffer_settings)
  from c1 c2 c3 c4 c5 show ?thesis by simp
qed

text \<open>
  The claim C1 as stated fails at the past limit: with the clock at 100 and
  \<open>bufferPast = 3\<close>, the timestamp 97 lies in \<open>[now - bufferPast, now + bufferFuture)\<close>,
  yet the write is cold and, cold writes being disabled, rejected.
\<close>

theorem Write_boundary_counterexample:
  "100 - bufferPast exampleBuffer \<le> 97 \<and> 97 < 100 + bufferFuture exampleBuffer
   \<and> fst (classifyWrite exampleBuffer 100 97) = ColdWrite
   \<and> Write exampleBufferDeps exampleBuffer 100 97 1 exampleWriteOptions =
       ((False, Some (InvalidParamsError ''datapoint too far in past'')), exampleBuffer)"
proof -
  have c: "classifyWrite exampleBuffer 100 97 =
      (ColdWrite, Some (InvalidParamsError ''datapoint too far in past''))"
    by (simp add: classifyWrite_def Let_def exampleBuffer_settings)
  show ?thesis
    by (simp add: c Write_def exampleBuffer_settings)
qed

lemma mergeBucketsToStreams_keeps:
  "mergeBucketsToStreams deps sOpts bs = (r, bs') \<Longrightarrow>
     map version bs' = map version bs \<and> map writeType bs' = map writeType bs
     \<and> map start bs' = map start bs"
proof (induction bs arbitrary: r bs')
  case Nil
  then show ?case by simp
next
  case (Cons b bs)
  obtain r1 bs1 where rec: "mergeBucketsToStreams deps sOpts bs = (r1, bs1)"
    by (cases "mergeBucketsToStreams deps sOpts bs")
  note ih = Cons.IH[OF rec]
  show ?case
  proof (cases "selected sOpts b")
    case False
    with Cons.prems rec have "bs' = b # bs1" by simp
    with ih show ?thesis by simp
  next
    case True
    obtain r0 b0 where m: "mergeToStream deps b = (r0, b0)"
      by (cases "mergeToStream deps b")
    note k = mergeToStream_keeps[OF m]
    show ?thesis
    proof (cases r0)
      case (Inl err)
      with True Cons.prems m have "bs' = b0 # bs" by simp
      with k show ?thesis by simp
    next
      case (Inr so)
      with True Cons.prems m rec have "bs' = b0 # bs1"
        by (cases r1) auto
      with k ih show ?thesis by simp
    qed
  qed
qed

lemma mergeBucketsToStreams_unselected:
  "mergeBucketsToStreams deps sOpts bs = (r, bs') \<Longrightarrow> i < length bs \<Longrightarrow>
     \<not> selected sOpts (bs ! i) \<Longrightarrow> bs' ! i = bs ! i"
proof (induction bs arbitrary: r bs' i)
  case Nil
  then show ?case by simp
next
  case (Cons b bs)
  obtain r1 bs1 where rec: "mergeBucketsToStreams deps sOpts bs = (r1, bs1)"
    by (cases "mergeBucketsToStreams deps sOpts bs")
  obtain r0 b0 where m: "mergeToStream deps b = (r0, b0)"
    by (cases "mergeToStream deps b")
  show ?case
  proof (cases i)
    case 0
    with Cons.prems rec show ?thesis by auto
  next
    case (Suc j)
    with Cons.prems have j: "j < length bs" "\<not> selected sOpts (bs ! j)" by simp_all
    from Cons.IH[OF rec j] have ih: "bs1 ! j = bs ! j" .
    from Cons.prems(1) rec m have "bs' = b # bs1 \<or> bs' = b0 # bs1 \<or> bs' = b0 # bs"
      by (cases "selected sOpts b"; cases r0; cases r1) auto
    with ih Suc show ?thesis by auto
  qed
qed

lemma mergeToStreams_keeps:
  assumes "mergeToStreams deps bv sOpts = (r, bv')"
  shows "map version (buckets bv') = map version (buckets bv)"
    and "map writeType (buckets bv') = map writeType (buckets bv)"
    and "length (buckets bv') = length (buckets bv)"
    and "bvStart bv' = bvStart bv"
    and "lastReadUnixNanos bv' = lastReadUnixNanos bv"
    and "\<And>i. i < length (buckets bv) \<Longrightarrow> \<not> selected sOpts (buckets bv ! i) \<Longrightarrow>
           buckets bv' ! i = buckets bv ! i"
proof -
  obtain r1 bs' where m: "mergeBucketsToStreams deps sOpts (buckets bv) = (r1, bs')"
    by (cases "mergeBucketsToStreams deps sOpts (buckets bv)")
  with assms have bv': "bv' = bv\<lparr>buckets := bs'\<rparr>" by (simp add: mergeToStreams_def)
  from mergeBucketsToStreams_keeps[OF m] bv'
  show "map version (buckets bv') = map version (buckets bv)"
    and "map writeType (buckets bv') = map writeType (buckets bv)"
    by simp_all
  then show "length (buckets bv') = length (buckets bv)"
    using map_eq_imp_length_eq by blast
  from bv' show "bvStart bv' = bvStart bv" and "lastReadUnixNanos bv' = lastReadUnixNanos bv"
    by simp_all
  fix i
  assume "i < length (buckets bv)" "\<not> selected sOpts (buckets bv ! i)"
  with mergeBucketsToStreams_unselected[OF m] bv' show "buckets bv' ! i = buckets bv ! i"
    by simp
qed

lemma WarmFlush_absent:
  "bucketVersionsAt b blockStart = None \<Longrightarrow>
   WarmFlush deps b blockStart persistFn = ((FlushOutcomeBlockDoesNotExist, None, []), b)"
  by (simp add: WarmFlush_def)

lemma WarmFlush_flushed_iff:
  assumes wf: "WarmFlush deps b blockStart persistFn = ((outcome, err, calls), b')"
  shows "outcome = FlushOutcomeFlushedToDisk \<longleftrightarrow>
     (\<exists>seg. calls = [(seg, SegmentChecksum deps seg)]
        \<and> persistFn seg (SegmentChecksum deps seg) = None)"
  using wf
  by (auto simp: WarmFlush_def split: option.splits sum.splits prod.splits if_splits) metis+

lemma WarmFlush_err_iff:
  assumes wf: "WarmFlush deps b blockStart persistFn = ((outcome, err, calls), b')"
  shows "outcome = FlushOutcomeErr \<longleftrightarrow> err \<noteq> None"
  using wf
  by (auto simp: WarmFlush_def split: option.splits sum.splits prod.splits if_splits) metis+

lemma WarmFlush_calls_nonempty:
  assumes wf: "WarmFlush deps b blockStart persistFn = ((outcome, err, calls), b')"
    and c: "(seg, ck) \<in> set calls"
  shows "seg \<noteq> []"
  using wf c
  by (auto simp: WarmFlush_def split: option.splits sum.splits prod.splits if_splits)

lemma WarmFlush_steps:
  assumes wf: "WarmFlush deps b blockStart persistFn = ((outcome, err, calls), b')"
    and at: "bucketVersionsAt b blockStart = Some p"
    and m: "mergeToStreams deps (heap b p) \<lparr>filterWriteType = True, filterType = WarmWrite\<rparr>
              = (r, bv1)"
  shows "(\<forall>e. r = Inl e \<longrightarrow> outcome = FlushOutcomeErr \<and> err = Some e)
     \<and> (\<forall>streams. r = Inr streams \<longrightarrow>
          (\<forall>e. streamToPersist deps blockStart streams = Inl e \<longrightarrow>
                 outcome = FlushOutcomeErr \<and> err = Some e)
          \<and> (streamToPersist deps blockStart streams = Inr None \<longrightarrow>
                 outcome = FlushOutcomeBlockDoesNotExist \<and> err = None)
          \<and> (\<forall>stream. streamToPersist deps blockStart streams = Inr (Some stream) \<longrightarrow>
                (\<forall>e. Segment deps stream = Inl e \<longrightarrow> outcome = FlushOutcomeErr \<and> err = Some e)
                \<and> (\<forall>seg. Segment deps stream = Inr seg \<longrightarrow>
                      (seg = [] \<longrightarrow> outcome = FlushOutcomeBlockDoesNotExist \<and> err = None
                                  \<and> calls = [])
                      \<and> (seg \<noteq> [] \<longrightarrow> calls = [(seg, SegmentChecksum deps seg)]
                           \<and> (\<forall>e. persistFn seg (SegmentChecksum deps seg) = Some e \<longrightarrow>
                                  outcome = FlushOutcomeErr \<and> err = Some e)
                           \<and> (persistFn seg (SegmentChecksum deps seg) = None \<longrightarrow>
                                  outcome = FlushOutcomeFlushedToDisk \<and> err = None)))))"
  using wf at m
  by (auto simp: WarmFlush_def split: option.splits sum.splits prod.splits if_splits)

lemma WarmFlush_shape:
  assumes wf: "WarmFlush deps b blockStart persistFn = ((outcome, err, calls), b')"
    and at: "bucketVersionsAt b blockStart = Some p"
    and m: "mergeToStreams deps (heap b p) \<lparr>filterWriteType = True, filterType = WarmWrite\<rparr>
              = (r, bv1)"
  shows "b' = storeAt b p
           (if outcome = FlushOutcomeFlushedToDisk
            then (case writableBucket (buckets bv1) WarmWrite of
                    None \<Rightarrow> bv1 | Some i \<Rightarrow> setVersion bv1 i 1)
            else bv1)"
  using wf at m
  by (auto simp: WarmFlush_def split: option.splits sum.splits prod.splits if_splits)

lemma WarmFlush_frame:
  assumes wf: "WarmFlush deps b blockStart persistFn = ((outcome, err, calls), b')"
  shows "bucketsMap b' = bucketsMap b \<and> inOrderBlockStarts b' = inOrderBlockStarts b
     \<and> bucketVersionsCache b' = bucketVersionsCache b \<and> nextPtr b' = nextPtr b
     \<and> blockSize b' = blockSize b"
  using wf
  by (auto simp: WarmFlush_def storeAt_def split: option.splits sum.splits prod.splits if_splits)

lemma setVersion_simps:
  "length (buckets (setVersion bv i ver)) = length (buckets bv)"
  "map version (buckets (setVersion bv i ver)) = (map version (buckets bv))[i := ver]"
  "map writeType (buckets (setVersion bv i ver)) = map writeType (buckets bv)"
  "bvStart (setVersion bv i ver) = bvStart bv"
  by (cases "i < length (buckets bv)";
      simp add: setVersion_def map_update list_update_same_conv list_update_beyond)+

lemma setVersion_other:
  "j \<noteq> i \<Longrightarrow> buckets (setVersion bv i ver) ! j = buckets bv ! j"
  by (simp add: setVersion_def)

lemma example_write_reaches:
  "Write exampleBufferDeps exampleBuffer 100 101 1 exampleWriteOptions =
     ((True, None), exampleWarmBuffer)"
  by (simp add: Write_def classifyWrite_def Let_def exampleBuffer_settings Truncate_def
      bucketVersionsAtCreate_def bucketVersionsAt_def exampleBuffer_def newDatabaseBuffer_def
      bucketsCacheSize_def putBucketVersionsInCache_def BufferBucketVersions_write_def
      writableBucketCreate_def BufferBucketVersions_resetTo_def BufferBucket_resetTo_def
      BufferBucket_write_def writeToEncoderIndex_def exampleBufferDeps_def
      exampleWriteOptions_def timeZero_def writableBucketVersion_def inOrderBlockStartsAdd_def
      exampleWarmBuffer_def exampleWarmBucket_def numeral_2_eq_2)

lemma WarmFlush_buckets:
  assumes wf: "WarmFlush deps b blockStart persistFn = ((outcome, err, calls), b')"
    and at: "bucketVersionsAt b blockStart = Some p"
  shows "(\<forall>q. q \<noteq> p \<longrightarrow> heap b' q = heap b q)
     \<and> length (buckets (heap b' p)) = length (buckets (heap b p))
     \<and> (\<forall>i<length (buckets (heap b p)).
           writeType (buckets (heap b p) ! i) \<noteq> WarmWrite \<longrightarrow>
           buckets (heap b' p) ! i = buckets (heap b p) ! i)
     \<and> map version (buckets (heap b' p)) =
         (if outcome = FlushOutcomeFlushedToDisk
          then (case writableBucket (buckets (heap b p)) WarmWrite of
                  None \<Rightarrow> map version (buckets (heap b p))
                | Some i \<Rightarrow> (map version (buckets (heap b p)))[i := 1])
          else map version (buckets (heap b p)))"
proof -
  let ?sW = "\<lparr>filterWriteType = True, filterType = WarmWrite\<rparr>"
  obtain r bv1 where m: "mergeToStreams deps (heap b p) ?sW = (r, bv1)"
    by (cases "mergeToStreams deps (heap b p) ?sW")
  note k = mergeToStreams_keeps[OF m]
  have wb: "writableBucket (buckets bv1) WarmWrite = writableBucket (buckets (heap b p)) WarmWrite"
    using k(1) k(2) by (rule writableBucket_cong)
  let ?bv' = "if outcome = FlushOutcomeFlushedToDisk
            then (case writableBucket (buckets bv1) WarmWrite of
                    None \<Rightarrow> bv1 | Some i \<Rightarrow> setVersion bv1 i 1)
            else bv1"
  from WarmFlush_shape[OF wf at m] have b': "b' = storeAt b p ?bv'" .
  then have hp: "heap b' p = ?bv'" and hq: "\<And>q. q \<noteq> p \<Longrightarrow> heap b' q = heap b q"
    by (simp_all add: storeAt_def)
  have len: "length (buckets ?bv') = length (buckets (heap b p))"
    using k(3) by (simp add: setVersion_simps split: option.splits)
  have vers: "map version (buckets ?bv') =
         (if outcome = FlushOutcomeFlushedToDisk
          then (case writableBucket (buckets (heap b p)) WarmWrite of
                  None \<Rightarrow> map version (buckets (heap b p))
                | Some i \<Rightarrow> (map version (buckets (heap b p)))[i := 1])
          else map version (buckets (heap b p)))"
    using k(1) wb by (simp add: setVersion_simps split: option.splits)
  have unsel: "\<forall>i<length (buckets (heap b p)).
           writeType (buckets (heap b p) ! i) \<noteq> WarmWrite \<longrightarrow>
           buckets ?bv' ! i = buckets (heap b p) ! i"
  proof (intro allI impI)
    fix i
    assume i: "i < length (buckets (heap b p))"
      and nw: "writeType (buckets (heap b p) ! i) \<noteq> WarmWrite"
    then have ns: "\<not> selected ?sW (buckets (heap b p) ! i)" by (simp add: selected_def)
    from k(6)[OF i ns] have same: "buckets bv1 ! i = buckets (heap b p) ! i" .
    show "buckets ?bv' ! i = buckets (heap b p) ! i"
    proof (cases "outcome = FlushOutcomeFlushedToDisk")
      case False
      with same show ?thesis by simp
    next
      case True
      show ?thesis
      proof (cases "writableBucket (buckets bv1) WarmWrite")
        case None
        with True same show ?thesis by simp
      next
        case (Some j)
        from writableBucket_Some[OF Some] have "writeType (buckets bv1 ! j) = WarmWrite" by simp
        with same nw have "i \<noteq> j" by auto
        with True Some same show ?thesis by (simp add: setVersion_other)
      qed
    qed
  qed
  from hq hp len vers unsel show ?thesis by simp
qed

lemma WarmFlush_steps_flat:
  assumes wf: "WarmFlush deps b blockStart persistFn = ((outcome, err, calls), b')"
  shows "(\<forall>p bv1 e. bucketVersionsAt b blockStart = Some p
              \<and> mergeToStreams deps (heap b p) \<lparr>filterWriteType = True, filterType = WarmWrite\<rparr> = (Inl e, bv1) \<longrightarrow>
            outcome = FlushOutcomeErr \<and> err = Some e \<and> calls = [])
       \<and> (\<forall>p bv1 streams e. bucketVersionsAt b blockStart = Some p
              \<and> mergeToStreams deps (heap b p) \<lparr>filterWriteType = True, filterType = WarmWrite\<rparr> = (Inr streams, bv1)
              \<and> streamToPersist deps blockStart streams = Inl e \<longrightarrow>
            outcome = FlushOutcomeErr \<and> err = Some e \<and> calls = [])
       \<and> (\<forall>p bv1 streams. bucketVersionsAt b blockStart = Some p
              \<and> mergeToStreams deps (heap b p) \<lparr>filterWriteType = True, filterType = WarmWrite\<rparr> = (Inr streams, bv1)
              \<and> streamToPersist deps blockStart streams = Inr None \<longrightarrow>
            outcome = FlushOutcomeBlockDoesNotExist \<and> err = None \<and> calls = [])
       \<and> (\<forall>p bv1 streams stream e. bucketVersionsAt b blockStart = Some p
              \<and> mergeToStreams deps (heap b p) \<lparr>filterWriteType = True, filterType = WarmWrite\<rparr> = (Inr streams, bv1)
              \<and> streamToPersist deps blockStart streams = Inr (Some stream)
              \<and> Segment deps stream = Inl e \<longrightarrow>
            outcome = FlushOutcomeErr \<and> err = Some e \<and> calls = [])
       \<and> (\<forall>p bv1 streams stream. bucketVersionsAt b blockStart = Some p
              \<and> mergeToStreams deps (heap b p) \<lparr>filterWriteType = True, filterType = WarmWrite\<rparr> = (Inr streams, bv1)
              \<and> streamToPersist deps blockStart streams = Inr (Some stream)
              \<and> Segment deps stream = Inr [] \<longrightarrow>
            outcome = FlushOutcomeBlockDoesNotExist \<and> err = None \<and> calls = [])
       \<and> (\<forall>p bv1 streams stream seg e. bucketVersionsAt b blockStart = Some p
              \<and> mergeToStreams deps (heap b p) \<lparr>filterWriteType = True, filterType = WarmWrite\<rparr> = (Inr streams, bv1)
              \<and> streamToPersist deps blockStart streams = Inr (Some stream)
              \<and> Segment deps stream = Inr seg \<and> seg \<noteq> []
              \<and> persistFn seg (SegmentChecksum deps seg) = Some e \<longrightarrow>
            outcome = FlushOutcomeErr \<and> err = Some e
            \<and> calls = [(seg, SegmentChecksum deps seg)])
       \<and> (\<forall>p bv1 streams stream seg. bucketVersionsAt b blockStart = Some p
              \<and> mergeToStreams deps (heap b p) \<lparr>filterWriteType = True, filterType = WarmWrite\<rparr> = (Inr streams, bv1)
              \<and> streamToPersist deps blockStart streams = Inr (Some stream)
              \<and> Segment deps stream = Inr seg \<and> seg \<noteq> []
              \<and> persistFn seg (SegmentChecksum deps seg) = None \<longrightarrow>
            outcome = FlushOutcomeFlushedToDisk \<and> err = None
            \<and> calls = [(seg, SegmentChecksum deps seg)])"
  using wf
  by (auto simp: WarmFlush_def split: option.splits sum.splits prod.splits if_splits)

lemma bucketVersionsAt_storeAt:
  assumes "bvStart bv = bvStart (heap b p)"
  shows "bucketVersionsAt (storeAt b p bv) t = bucketVersionsAt b t"
proof -
  have f: "find (\<lambda>c. case c of None \<Rightarrow> False
                 | Some q \<Rightarrow> bvStart (heap (storeAt b p bv) q) = t) (bucketVersionsCache b) =
        find (\<lambda>c. case c of None \<Rightarrow> False
                 | Some q \<Rightarrow> bvStart (heap b q) = t) (bucketVersionsCache b)"
    using assms by (intro find_cong) (auto simp: storeAt_def split: option.splits)
  have c: "bucketVersionsCache (storeAt b p bv) = bucketVersionsCache b"
    and m: "bucketsMap (storeAt b p bv) = bucketsMap b"
    by (simp_all add: storeAt_def)
  show ?thesis unfolding bucketVersionsAt_def c m f by (rule refl)
qed

lemma mergeBucketsToStreams_filter:
  "fst (mergeBucketsToStreams deps sOpts (filter (selected sOpts) bs)) =
   fst (mergeBucketsToStreams deps sOpts bs)"
proof (induction bs)
  case Nil
  then show ?case by simp
next
  case (Cons b bs)
  show ?case
  proof (cases "selected sOpts b")
    case False
    with Cons show ?thesis by (simp split: prod.splits)
  next
    case True
    with Cons show ?thesis
      by (cases "mergeToStream deps b";
          cases "mergeBucketsToStreams deps sOpts bs";
          cases "mergeBucketsToStreams deps sOpts (filter (selected sOpts) bs)")
        (auto split: sum.splits)
  qed
qed

lemma selected_warm:
  "selected \<lparr>filterWriteType = True, filterType = WarmWrite\<rparr> = (\<lambda>bk. writeType bk = WarmWrite)"
  by (simp add: selected_def fun_eq_iff)

lemma WarmFlush_result:
  assumes at: "bucketVersionsAt b blockStart = Some p"
  shows "fst (WarmFlush deps b blockStart persistFn) =
     (case fst (mergeBucketsToStreams deps \<lparr>filterWriteType = True, filterType = WarmWrite\<rparr>
                  (buckets (heap b p))) of
        Inl err \<Rightarrow> (FlushOutcomeErr, Some err, [])
      | Inr streams \<Rightarrow>
          (case streamToPersist deps blockStart streams of
             Inl err \<Rightarrow> (FlushOutcomeErr, Some err, [])
           | Inr None \<Rightarrow> (FlushOutcomeBlockDoesNotExist, None, [])
           | Inr (Some stream) \<Rightarrow>
               (case Segment deps stream of
                  Inl err \<Rightarrow> (FlushOutcomeErr, Some err, [])
                | Inr seg \<Rightarrow>
                    if seg = [] then (FlushOutcomeBlockDoesNotExist, None, [])
                    else (case persistFn seg (SegmentChecksum deps seg) of
                            Some err \<Rightarrow> (FlushOutcomeErr, Some err, [(seg, SegmentChecksum deps seg)])
                          | None \<Rightarrow> (FlushOutcomeFlushedToDisk, None,
                                      [(seg, SegmentChecksum deps seg)])))))"
  using at
  by (cases "mergeBucketsToStreams deps \<lparr>filterWriteType = True, filterType = WarmWrite\<rparr>
                (buckets (heap b p))")
     (auto simp: WarmFlush_def mergeToStreams_def split: sum.splits option.splits)

lemma WarmFlush_warm_only:
  assumes at: "bucketVersionsAt b blockStart = Some p"
  shows "fst (WarmFlush deps
            (storeAt b p ((heap b p)\<lparr>buckets :=
               filter (\<lambda>bk. writeType bk = WarmWrite) (buckets (heap b p))\<rparr>))
            blockStart persistFn) =
         fst (WarmFlush deps b blockStart persistFn)"
proof -
  let ?bv = "(heap b p)\<lparr>buckets := filter (\<lambda>bk. writeType bk = WarmWrite) (buckets (heap b p))\<rparr>"
  have at': "bucketVersionsAt (storeAt b p ?bv) blockStart = Some p"
    using at by (simp add: bucketVersionsAt_storeAt)
  have h: "buckets (heap (storeAt b p ?bv) p) =
      filter (selected \<lparr>filterWriteType = True, filterType = WarmWrite\<rparr>) (buckets (heap b p))"
    by (simp add: storeAt_def selected_warm)
  show ?thesis
    unfolding WarmFlush_result[OF at] WarmFlush_result[OF at'] h mergeBucketsToStreams_filter
    by (rule refl)
qed

lemma mergeBucketsToStreams_streams:
  "mergeBucketsToStreams deps sOpts bs = (Inr streams, bs') \<Longrightarrow>
     streams = concat (map (\<lambda>bk. case fst (mergeToStream deps bk) of
                                    Inr (Some s) \<Rightarrow> [s] | _ \<Rightarrow> [])
                         (filter (selected sOpts) bs))
     \<and> bs' = map (\<lambda>bk. if selected sOpts bk then snd (mergeToStream deps bk) else bk) bs"
proof (induction bs arbitrary: streams bs')
  case Nil
  then show ?case by simp
next
  case (Cons b bs)
  obtain r1 bs1 where rec: "mergeBucketsToStreams deps sOpts bs = (r1, bs1)"
    by (cases "mergeBucketsToStreams deps sOpts bs")
  show ?case
  proof (cases "selected sOpts b")
    case False
    with Cons.prems rec have "r1 = Inr streams" "bs' = b # bs1" by auto
    with Cons.IH[of streams bs1] rec False show ?thesis by simp
  next
    case True
    obtain r0 b' where m: "mergeToStream deps b = (r0, b')"
      by (cases "mergeToStream deps b")
    from Cons.prems True m rec obtain so res where
      r0: "r0 = Inr so" and r1: "r1 = Inr res"
      and st: "streams = (case so of None \<Rightarrow> res | Some s \<Rightarrow> s # res)"
      and bs': "bs' = b' # bs1"
      by (auto split: sum.splits)
    from Cons.IH[of res bs1] rec r1 have
      "res = concat (map (\<lambda>bk. case fst (mergeToStream deps bk) of
                                    Inr (Some s) \<Rightarrow> [s] | _ \<Rightarrow> [])
                         (filter (selected sOpts) bs))"
      "bs1 = map (\<lambda>bk. if selected sOpts bk then snd (mergeToStream deps bk) else bk) bs"
      by simp_all
    with st bs' True m r0 show ?thesis by (simp split: option.splits)
  qed
qed

lemma encodeAll_fold:
  "encodeAll deps e lastAt dps = Inr (e', lastAt') \<Longrightarrow>
     e' = fold (\<lambda>dp enc. snd (Encode deps enc dp)) dps e
     \<and> lastAt' = last (lastAt # map Timestamp dps)"
proof (induction dps arbitrary: e lastAt)
  case Nil
  then show ?case by simp
next
  case (Cons dp dps)
  obtain r e1 where enc: "Encode deps e dp = (r, e1)" by (cases "Encode deps e dp")
  with Cons.prems have r: "r = None"
    and rec: "encodeAll deps e1 (Timestamp dp) dps = Inr (e', lastAt')"
    by (auto split: option.splits)
  from Cons.IH[OF rec] enc show ?case by simp
qed

lemma encodeAll_fails:
  "encodeAll deps e lastAt dps = Inl err \<Longrightarrow>
     \<exists>i<length dps.
        fst (Encode deps (fold (\<lambda>dp enc. snd (Encode deps enc dp)) (take i dps) e) (dps ! i))
          = Some err"
proof (induction dps arbitrary: e lastAt)
  case Nil
  then show ?case by simp
next
  case (Cons dp dps)
  obtain r e1 where enc: "Encode deps e dp = (r, e1)" by (cases "Encode deps e dp")
  show ?case
  proof (cases r)
    case None
    with Cons.prems enc have "encodeAll deps e1 (Timestamp dp) dps = Inl err" by simp
    from Cons.IH[OF this] obtain i where "i < length dps"
      "fst (Encode deps (fold (\<lambda>dp enc. snd (Encode deps enc dp)) (take i dps) e1) (dps ! i))
          = Some err"
      by blast
    with enc have "Suc i < length (dp # dps)"
      "fst (Encode deps (fold (\<lambda>dp enc. snd (Encode deps enc dp)) (take (Suc i) (dp # dps)) e)
          ((dp # dps) ! Suc i)) = Some err"
      by simp_all
    then show ?thesis by blast
  next
    case (Some x)
    with Cons.prems enc have "x = err" by simp
    with Some enc have "0 < length (dp # dps)"
      "fst (Encode deps (fold (\<lambda>dp enc. snd (Encode deps enc dp)) (take 0 (dp # dps)) e)
          ((dp # dps) ! 0)) = Some err"
      by simp_all
    then show ?thesis by blast
  qed
qed

lemma mergeToStream_content:
  "needsMerge deps bk \<Longrightarrow>
     mergeToStream deps bk =
       (case iterate deps (map Reader (bootstrappedReaders deps (bootstrapped bk)
                                       @ encoderReaders deps (encoders bk))) of
          (dps, iterErr) \<Rightarrow>
            (case encodeAll deps (newEncoder deps (start bk)) timeZero dps of
               Inl err \<Rightarrow> (Inl err, bk\<lparr>encoders := [], bootstrapped := []\<rparr>)
             | Inr (enc, lastAt) \<Rightarrow>
                 (case iterErr of
                    Some err \<Rightarrow> (Inl err, bk\<lparr>encoders := [], bootstrapped := []\<rparr>)
                  | None \<Rightarrow>
                      (Inr (map_option Reader (encoderStream deps enc)),
                       bk\<lparr>encoders := [\<lparr>encoder = enc, lastWriteAt = lastAt\<rparr>],
                          bootstrapped := []\<rparr>))))"
  by (cases bk)
     (auto simp: needsMerge_def mergeToStream_def BufferBucket_merge_def mergeStreamsToEncoder_def
        mergedStream_def hasJustSingleEncoder_def resetEncoders_def resetBootstrapped_def Let_def
        split: prod.splits sum.splits option.splits)

lemma mergeToStream_single_encoder:
  "hasJustSingleEncoder bk \<Longrightarrow>
     mergeToStream deps bk =
       (Inr (map_option Reader (encoderStream deps (encoder (encoders bk ! 0)))),
        bk\<lparr>bootstrapped := []\<rparr>)"
  by (auto simp: mergeToStream_def resetBootstrapped_def Let_def split: option.splits)

lemma mergeToStream_single_block:
  "\<not> hasJustSingleEncoder bk \<Longrightarrow> hasJustSingleBootstrappedBlock deps bk \<Longrightarrow>
     mergeToStream deps bk =
       (case blockStream deps (bootstrapped bk ! 0) of
          Inl err \<Rightarrow> (Inl err, bk\<lparr>encoders := []\<rparr>)
        | Inr br \<Rightarrow> (Inr (Some (ReaderOfBlock br)), bk\<lparr>encoders := []\<rparr>))"
  by (auto simp: mergeToStream_def resetEncoders_def Let_def split: sum.splits)

lemma streamToPersist_content:
  "streamToPersist deps blockStart streams =
     (if length streams = 1 then Inr (Some (streams ! 0))
      else (case iterate deps streams of
              (dps, iterErr) \<Rightarrow>
                (case encodeAll deps (newEncoder deps blockStart) timeZero dps of
                   Inl err \<Rightarrow> Inl err
                 | Inr (enc, lastAt) \<Rightarrow>
                     (case iterErr of
                        Some err \<Rightarrow> Inl err
                      | None \<Rightarrow> Inr (map_option Reader (encoderStream deps enc))))))"
  by (auto simp: streamToPersist_def mergeStreamsToEncoder_def
      split: prod.splits sum.splits option.splits)

text \<open>
  Claim C4. \<^verbatim>\<open>WarmFlush(blockStart, persistFn)\<close> returns
  \<^verbatim>\<open>FlushOutcomeBlockDoesNotExist\<close> and changes nothing when there are no bucket versions
  at the block start. Otherwise it merges the warm buckets only: every other bucket of
  the block start, and every other block start, is as before, no bucket is added or
  removed, and the outcome, the error and the segment persisted are those of the flush of
  the buffer with the warm buckets alone. Each warm bucket gives one stream: of its
  encoder when it holds just one, of its block when it holds just one bootstrapped
  block, and otherwise of a new encoder into which every datapoint that the iterator
  yields over the streams of its blocks and encoders has been encoded, in order; that
  encoder then replaces what the bucket held. Several such streams are merged in the same
  way into the stream to persist, and the segment of that stream is what \<open>persistFn\<close>
  receives. The outcome is \<^verbatim>\<open>FlushOutcomeFlushedToDisk\<close> exactly when \<open>persistFn\<close> was
  called and succeeded, and exactly then the version of the writable warm bucket
  becomes 1; with any other outcome every version is as before. The outcome is
  \<^verbatim>\<open>FlushOutcomeErr\<close> exactly when an error is returned: when merging, the stream's
  segment or \<open>persistFn\<close> fails. It is \<^verbatim>\<open>FlushOutcomeBlockDoesNotExist\<close> when there is no
  merged stream or its segment is empty, and \<open>persistFn\<close> is never given an empty
  segment.
\<close>

theorem WarmFlush_outcomes:
  assumes wf: "WarmFlush deps b blockStart persistFn = ((outcome, err, calls), b')"
  shows "((bucketVersionsAt b blockStart = None \<longrightarrow>
            outcome = FlushOutcomeBlockDoesNotExist \<and> err = None \<and> calls = [] \<and> b' = b)
       \<and> (outcome = FlushOutcomeFlushedToDisk \<longleftrightarrow>
            (\<exists>seg. calls = [(seg, SegmentChecksum deps seg)]
               \<and> persistFn seg (SegmentChecksum deps seg) = None))
       \<and> (outcome = FlushOutcomeErr \<longleftrightarrow> err \<noteq> None)
       \<and> (\<forall>seg ck. (seg, ck) \<in> set calls \<longrightarrow> seg \<noteq> [])
       \<and> bucketsMap b' = bucketsMap b \<and> inOrderBlockStarts b' = inOrderBlockStarts b
       \<and> bucketVersionsCache b' = bucketVersionsCache b)
       \<and> (\<forall>p. bucketVersionsAt b blockStart = Some p \<longrightarrow>
            (\<forall>q. q \<noteq> p \<longrightarrow> heap b' q = heap b q)
            \<and> length (buckets (heap b' p)) = length (buckets (heap b p))
            \<and> (\<forall>i<length (buckets (heap b p)).
                  writeType (buckets (heap b p) ! i) \<noteq> WarmWrite \<longrightarrow>
                  buckets (heap b' p) ! i = buckets (heap b p) ! i)
            \<and> map version (buckets (heap b' p)) =
                (if outcome = FlushOutcomeFlushedToDisk
                 then (case writableBucket (buckets (heap b p)) WarmWrite of
                         None \<Rightarrow> map version (buckets (heap b p))
                       | Some i \<Rightarrow> (map version (buckets (heap b p)))[i := 1])
                 else map version (buckets (heap b p))))
       \<and> (\<forall>p. bucketVersionsAt b blockStart = Some p \<longrightarrow>
            fst (WarmFlush deps
                   (storeAt b p ((heap b p)\<lparr>buckets := filter (\<lambda>bk. writeType bk = WarmWrite) (buckets (heap b p))\<rparr>))
                   blockStart persistFn) = (outcome, err, calls))
       \<and> (\<forall>p r bv1. bucketVersionsAt b blockStart = Some p
              \<and> mergeToStreams deps (heap b p) \<lparr>filterWriteType = True, filterType = WarmWrite\<rparr> = (r, bv1) \<longrightarrow>
            b' = storeAt b p
                   (if outcome = FlushOutcomeFlushedToDisk
                    then (case writableBucket (buckets bv1) WarmWrite of
                            None \<Rightarrow> bv1 | Some i \<Rightarrow> setVersion bv1 i 1)
                    else bv1))
       \<and> (\<forall>p streams bv1. bucketVersionsAt b blockStart = Some p
              \<and> mergeToStreams deps (heap b p) \<lparr>filterWriteType = True, filterType = WarmWrite\<rparr> = (Inr streams, bv1) \<longrightarrow>
            streams = concat (map (\<lambda>bk. case fst (mergeToStream deps bk) of
                                           Inr (Some s) \<Rightarrow> [s] | _ \<Rightarrow> [])
                                (filter (\<lambda>bk. writeType bk = WarmWrite) (buckets (heap b p))))
            \<and> buckets bv1 = map (\<lambda>bk. if writeType bk = WarmWrite
                                       then snd (mergeToStream deps bk) else bk)
                               (buckets (heap b p)))
       \<and> (\<forall>bk. needsMerge deps bk \<longrightarrow>
            mergeToStream deps bk =
              (case iterate deps (map Reader (bootstrappedReaders deps (bootstrapped bk)
                                              @ encoderReaders deps (encoders bk))) of
                 (dps, iterErr) \<Rightarrow>
                   (case encodeAll deps (newEncoder deps (start bk)) timeZero dps of
                      Inl e \<Rightarrow> (Inl e, bk\<lparr>encoders := [], bootstrapped := []\<rparr>)
                    | Inr (enc, lastAt) \<Rightarrow>
                        (case iterErr of
                           Some e \<Rightarrow> (Inl e, bk\<lparr>encoders := [], bootstrapped := []\<rparr>)
                         | None \<Rightarrow>
                             (Inr (map_option Reader (encoderStream deps enc)),
                              bk\<lparr>encoders := [\<lparr>encoder = enc, lastWriteAt = lastAt\<rparr>],
                                 bootstrapped := []\<rparr>)))))
       \<and> (\<forall>bk. hasJustSingleEncoder bk \<longrightarrow>
            mergeToStream deps bk =
              (Inr (map_option Reader (encoderStream deps (encoder (encoders bk ! 0)))),
               bk\<lparr>bootstrapped := []\<rparr>))
       \<and> (\<forall>bk. \<not> hasJustSingleEncoder bk \<and> hasJustSingleBootstrappedBlock deps bk \<longrightarrow>
            mergeToStream deps bk =
              (case blockStream deps (bootstrapped bk ! 0) of
                 Inl e \<Rightarrow> (Inl e, bk\<lparr>encoders := []\<rparr>)
               | Inr br \<Rightarrow> (Inr (Some (ReaderOfBlock br)), bk\<lparr>encoders := []\<rparr>)))
       \<and> (\<forall>streams. streamToPersist deps blockStart streams =
            (if length streams = 1 then Inr (Some (streams ! 0))
             else (case iterate deps streams of
                     (dps, iterErr) \<Rightarrow>
                       (case encodeAll deps (newEncoder deps blockStart) timeZero dps of
                          Inl e \<Rightarrow> Inl e
                        | Inr (enc, lastAt) \<Rightarrow>
                            (case iterErr of
                               Some e \<Rightarrow> Inl e
                             | None \<Rightarrow> Inr (map_option Reader (encoderStream deps enc)))))))
       \<and> (\<forall>e lastAt dps e' lastAt'. encodeAll deps e lastAt dps = Inr (e', lastAt') \<longrightarrow>
            e' = fold (\<lambda>dp enc. snd (Encode deps enc dp)) dps e
            \<and> lastAt' = last (lastAt # map Timestamp dps))
       \<and> (\<forall>e lastAt dps x. encodeAll deps e lastAt dps = Inl x \<longrightarrow>
            (\<exists>i<length dps.
               fst (Encode deps (fold (\<lambda>dp enc. snd (Encode deps enc dp)) (take i dps) e)
                      (dps ! i)) = Some x))
       \<and> (\<forall>p bv1 e. bucketVersionsAt b blockStart = Some p
              \<and> mergeToStreams deps (heap b p) \<lparr>filterWriteType = True, filterType = WarmWrite\<rparr> = (Inl e, bv1) \<longrightarrow>
            outcome = FlushOutcomeErr \<and> err = Some e \<and> calls = [])
       \<and> (\<forall>p bv1 streams e. bucketVersionsAt b blockStart = Some p
              \<and> mergeToStreams deps (heap b p) \<lparr>filterWriteType = True, filterType = WarmWrite\<rparr> = (Inr streams, bv1)
              \<and> streamToPersist deps blockStart streams = Inl e \<longrightarrow>
            outcome = FlushOutcomeErr \<and> err = Some e \<and> calls = [])
       \<and> (\<forall>p bv1 streams. bucketVersionsAt b blockStart = Some p
              \<and> mergeToStreams deps (heap b p) \<lparr>filterWriteType = True, filterType = WarmWrite\<rparr> = (Inr streams, bv1)
              \<and> streamToPersist deps blockStart streams = Inr None \<longrightarrow>
            outcome = FlushOutcomeBlockDoesNotExist \<and> err = None \<and> calls = [])
       \<and> (\<forall>p bv1 streams stream e. bucketVersionsAt b blockStart = Some p
              \<and> mergeToStreams deps (heap b p) \<lparr>filterWriteType = True, filterType = WarmWrite\<rparr> = (Inr streams, bv1)
              \<and> streamToPersist deps blockStart streams = Inr (Some stream)
              \<and> Segment deps stream = Inl e \<longrightarrow>
            outcome = FlushOutcomeErr \<and> err = Some e \<and> calls = [])
       \<and> (\<forall>p bv1 streams stream. bucketVersionsAt b blockStart = Some p
              \<and> mergeToStreams deps (heap b p) \<lparr>filterWriteType = True, filterType = WarmWrite\<rparr> = (Inr streams, bv1)
              \<and> streamToPersist deps blockStart streams = Inr (Some stream)
              \<and> Segment deps stream = Inr [] \<longrightarrow>
            outcome = FlushOutcomeBlockDoesNotExist \<and> err = None \<and> calls = [])
       \<and> (\<forall>p bv1 streams stream seg e. bucketVersionsAt b blockStart = Some p
              \<and> mergeToStreams deps (heap b p) \<lparr>filterWriteType = True, filterType = WarmWrite\<rparr> = (Inr streams, bv1)
              \<and> streamToPersist deps blockStart streams = Inr (Some stream)
              \<and> Segment deps stream = Inr seg \<and> seg \<noteq> []
              \<and> persistFn seg (SegmentChecksum deps seg) = Some e \<longrightarrow>
            outcome = FlushOutcomeErr \<and> err = Some e
            \<and> calls = [(seg, SegmentChecksum deps seg)])
       \<and> (\<forall>p bv1 streams stream seg. bucketVersionsAt b blockStart = Some p
              \<and> mergeToStreams deps (heap b p) \<lparr>filterWriteType = True, filterType = WarmWrite\<rparr> = (Inr streams, bv1)
              \<and> streamToPersist deps blockStart streams = Inr (Some stream)
              \<and> Segment deps stream = Inr seg \<and> seg \<noteq> []
              \<and> persistFn seg (SegmentChecksum deps seg) = None \<longrightarrow>
            outcome = FlushOutcomeFlushedToDisk \<and> err = None
            \<and> calls = [(seg, SegmentChecksum deps seg)])"
proof -
  have absent: "bucketVersionsAt b blockStart = None \<longrightarrow>
      outcome = FlushOutcomeBlockDoesNotExist \<and> err = None \<and> calls = [] \<and> b' = b"
    using wf by (auto simp: WarmFlush_absent)
  have calls: "\<forall>seg ck. (seg, ck) \<in> set calls \<longrightarrow> seg \<noteq> []"
    using WarmFlush_calls_nonempty[OF wf] by blast
  have present: "(\<forall>p. bucketVersionsAt b blockStart = Some p \<longrightarrow>
            (\<forall>q. q \<noteq> p \<longrightarrow> heap b' q = heap b q)
            \<and> length (buckets (heap b' p)) = length (buckets (heap b p))
            \<and> (\<forall>i<length (buckets (heap b p)).
                  writeType (buckets (heap b p) ! i) \<noteq> WarmWrite \<longrightarrow>
                  buckets (heap b' p) ! i = buckets (heap b p) ! i)
            \<and> map version (buckets (heap b' p)) =
                (if outcome = FlushOutcomeFlushedToDisk
                 then (case writableBucket (buckets (heap b p)) WarmWrite of
                         None \<Rightarrow> map version (buckets (heap b p))
                       | Some i \<Rightarrow> (map version (buckets (heap b p)))[i := 1])
                 else map version (buckets (heap b p))))"
    using WarmFlush_buckets[OF wf] by blast
  from absent WarmFlush_flushed_iff[OF wf] WarmFlush_err_iff[OF wf] calls
    WarmFlush_frame[OF wf]
  have head: "(bucketVersionsAt b blockStart = None \<longrightarrow>
            outcome = FlushOutcomeBlockDoesNotExist \<and> err = None \<and> calls = [] \<and> b' = b)
       \<and> (outcome = FlushOutcomeFlushedToDisk \<longleftrightarrow>
            (\<exists>seg. calls = [(seg, SegmentChecksum deps seg)]
               \<and> persistFn seg (SegmentChecksum deps seg) = None))
       \<and> (outcome = FlushOutcomeErr \<longleftrightarrow> err \<noteq> None)
       \<and> (\<forall>seg ck. (seg, ck) \<in> set calls \<longrightarrow> seg \<noteq> [])
       \<and> bucketsMap b' = bucketsMap b \<and> inOrderBlockStarts b' = inOrderBlockStarts b
       \<and> bucketVersionsCache b' = bucketVersionsCache b"
    by blast
  have n1: "(\<forall>p. bucketVersionsAt b blockStart = Some p \<longrightarrow>
            fst (WarmFlush deps
                   (storeAt b p ((heap b p)\<lparr>buckets := filter (\<lambda>bk. writeType bk = WarmWrite) (buckets (heap b p))\<rparr>))
                   blockStart persistFn) = (outcome, err, calls))"
    proof (intro allI impI)
    fix p
    assume at: "bucketVersionsAt b blockStart = Some p"
    from WarmFlush_warm_only[OF at, of deps persistFn] wf
    show "fst (WarmFlush deps
                   (storeAt b p ((heap b p)\<lparr>buckets := filter (\<lambda>bk. writeType bk = WarmWrite) (buckets (heap b p))\<rparr>))
                   blockStart persistFn) = (outcome, err, calls)"
      by simp
  qed
  have n2: "(\<forall>p r bv1. bucketVersionsAt b blockStart = Some p
              \<and> mergeToStreams deps (heap b p) \<lparr>filterWriteType = True, filterType = WarmWrite\<rparr> = (r, bv1) \<longrightarrow>
            b' = storeAt b p
                   (if outcome = FlushOutcomeFlushedToDisk
                    then (case writableBucket (buckets bv1) WarmWrite of
                            None \<Rightarrow> bv1 | Some i \<Rightarrow> setVersion bv1 i 1)
                    else bv1))"
    using WarmFlush_shape[OF wf] by blast
  have n3: "(\<forall>p streams bv1. bucketVersionsAt b blockStart = Some p
              \<and> mergeToStreams deps (heap b p) \<lparr>filterWriteType = True, filterType = WarmWrite\<rparr> = (Inr streams, bv1) \<longrightarrow>
            streams = concat (map (\<lambda>bk. case fst (mergeToStream deps bk) of
                                           Inr (Some s) \<Rightarrow> [s] | _ \<Rightarrow> [])
                                (filter (\<lambda>bk. writeType bk = WarmWrite) (buckets (heap b p))))
            \<and> buckets bv1 = map (\<lambda>bk. if writeType bk = WarmWrite
                                       then snd (mergeToStream deps bk) else bk)
                               (buckets (heap b p)))"
    proof (intro allI impI)
    fix p streams bv1
    assume h: "bucketVersionsAt b blockStart = Some p
              \<and> mergeToStreams deps (heap b p) \<lparr>filterWriteType = True, filterType = WarmWrite\<rparr> = (Inr streams, bv1)"
    then obtain bs' where m: "mergeBucketsToStreams deps \<lparr>filterWriteType = True, filterType = WarmWrite\<rparr> (buckets (heap b p)) = (Inr streams, bs')"
      and bv1: "bv1 = (heap b p)\<lparr>buckets := bs'\<rparr>"
      by (auto simp: mergeToStreams_def split: prod.splits)
    from mergeBucketsToStreams_streams[OF m] bv1
    show "streams = concat (map (\<lambda>bk. case fst (mergeToStream deps bk) of
                                           Inr (Some s) \<Rightarrow> [s] | _ \<Rightarrow> [])
                                (filter (\<lambda>bk. writeType bk = WarmWrite) (buckets (heap b p))))
            \<and> buckets bv1 = map (\<lambda>bk. if writeType bk = WarmWrite
                                       then snd (mergeToStream deps bk) else bk)
                               (buckets (heap b p))"
      by (simp add: selected_warm)
  qed
  have n4: "(\<forall>bk. needsMerge deps bk \<longrightarrow>
            mergeToStream deps bk =
              (case iterate deps (map Reader (bootstrappedReaders deps (bootstrapped bk)
                                              @ encoderReaders deps (encoders bk))) of
                 (dps, iterErr) \<Rightarrow>
                   (case encodeAll deps (newEncoder deps (start bk)) timeZero dps of
                      Inl e \<Rightarrow> (Inl e, bk\<lparr>encoders := [], bootstrapped := []\<rparr>)
                    | Inr (enc, lastAt) \<Rightarrow>
                        (case iterErr of
                           Some e \<Rightarrow> (Inl e, bk\<lparr>encoders := [], bootstrapped := []\<rparr>)
                         | None \<Rightarrow>
                             (Inr (map_option Reader (encoderStream deps enc)),
                              bk\<lparr>encoders := [\<lparr>encoder = enc, lastWriteAt = lastAt\<rparr>],
                                 bootstrapped := []\<rparr>)))))"
    using mergeToStream_content by blast
  have n5: "(\<forall>bk. hasJustSingleEncoder bk \<longrightarrow>
            mergeToStream deps bk =
              (Inr (map_option Reader (encoderStream deps (encoder (encoders bk ! 0)))),
               bk\<lparr>bootstrapped := []\<rparr>))"
    using mergeToStream_single_encoder by blast
  have n6: "(\<forall>bk. \<not> hasJustSingleEncoder bk \<and> hasJustSingleBootstrappedBlock deps bk \<longrightarrow>
            mergeToStream deps bk =
              (case blockStream deps (bootstrapped bk ! 0) of
                 Inl e \<Rightarrow> (Inl e, bk\<lparr>encoders := []\<rparr>)
               | Inr br \<Rightarrow> (Inr (Some (ReaderOfBlock br)), bk\<lparr>encoders := []\<rparr>)))"
    using mergeToStream_single_block by blast
  have n7: "(\<forall>streams. streamToPersist deps blockStart streams =
            (if length streams = 1 then Inr (Some (streams ! 0))
             else (case iterate deps streams of
                     (dps, iterErr) \<Rightarrow>
                       (case encodeAll deps (newEncoder deps blockStart) timeZero dps of
                          Inl e \<Rightarrow> Inl e
                        | Inr (enc, lastAt) \<Rightarrow>
                            (case iterErr of
                               Some e \<Rightarrow> Inl e
                             | None \<Rightarrow> Inr (map_option Reader (encoderStream deps enc)))))))"
    using streamToPersist_content by blast
  have n8: "(\<forall>e lastAt dps e' lastAt'. encodeAll deps e lastAt dps = Inr (e', lastAt') \<longrightarrow>
            e' = fold (\<lambda>dp enc. snd (Encode deps enc dp)) dps e
            \<and> lastAt' = last (lastAt # map Timestamp dps))"
    by (intro allI impI) (rule encodeAll_fold)
  have n9: "(\<forall>e lastAt dps x. encodeAll deps e lastAt dps = Inl x \<longrightarrow>
            (\<exists>i<length dps.
               fst (Encode deps (fold (\<lambda>dp enc. snd (Encode deps enc dp)) (take i dps) e)
                      (dps ! i)) = Some x))"
    by (intro allI impI) (rule encodeAll_fails)
  show ?thesis
    by (rule conjI[OF head conjI[OF present conjI[OF n1 conjI[OF n2 conjI[OF n3 conjI[OF n4 conjI[OF n5 conjI[OF n6 conjI[OF n7 conjI[OF n8 conjI[OF n9 WarmFlush_steps_flat[OF wf]]]]]]]]]]]])
qed

lemma exampleWarmBuffer_at:
  "bucketVersionsAt exampleWarmBuffer 100 = Some 0"
  "bucketVersionsAt exampleWarmBuffer 200 = None"
  "buckets (heap exampleWarmBuffer 0) = [exampleWarmBucket]"
  by (simp_all add: bucketVersionsAt_def exampleWarmBuffer_def exampleBuffer_def
      newDatabaseBuffer_def BufferBucketVersions_resetTo_def timeZero_def)

lemma exampleWarmBucket_stream:
  "mergeToStreams exampleBufferDeps (heap exampleWarmBuffer 0)
     \<lparr>filterWriteType = True, filterType = WarmWrite\<rparr> =
   (Inr [Reader [\<lparr>Timestamp = 101, Value = 1\<rparr>]], heap exampleWarmBuffer 0)"
  by (simp add: mergeToStreams_def exampleWarmBuffer_def selected_def exampleWarmBucket_def
      mergeToStream_def hasJustSingleEncoder_def resetBootstrapped_def exampleBufferDeps_def)

lemma exampleBufferDeps_sel:
  "newEncoder exampleBufferDeps st = []"
  "Encode exampleBufferDeps e dp = (None, e @ [dp])"
  "encoderStream exampleBufferDeps e = (if e = [] then None else Some e)"
  "encoderLen exampleBufferDeps e = length e"
  "blockStartTime exampleBufferDeps bl = fst bl"
  "blockLen exampleBufferDeps bl = length (snd bl)"
  "blockStream exampleBufferDeps bl =
     Inr \<lparr>SegmentReader = Some (snd bl), Start = fst bl, BlockSize = 10\<rparr>"
  "IsNotEmpty exampleBufferDeps br = True"
  "iterate exampleBufferDeps = exampleIterate"
  "Segment exampleBufferDeps = exampleSegment"
  "SegmentChecksum exampleBufferDeps seg = of_nat (length seg)"
  by (simp_all add: exampleBufferDeps_def)

lemma exampleWarmBuffer_flush:
  "fst (WarmFlush exampleBufferDeps exampleWarmBuffer 100 persistFn) =
     (case persistFn [101] 1 of
        None \<Rightarrow> (FlushOutcomeFlushedToDisk, None, [([101], 1)])
      | Some e \<Rightarrow> (FlushOutcomeErr, Some e, [([101], 1)]))"
  by (simp add: WarmFlush_def exampleWarmBuffer_at(1) exampleWarmBucket_stream
      streamToPersist_def exampleBufferDeps_sel exampleSegment_def split: option.splits)

lemma exampleFailingDeps_sel:
  "Encode exampleFailingDeps = (\<lambda>e dp. (Some (External ''encode failed''), e))"
  "newEncoder exampleFailingDeps = newEncoder exampleBufferDeps"
  "encoderStream exampleFailingDeps = encoderStream exampleBufferDeps"
  "encoderLen exampleFailingDeps = encoderLen exampleBufferDeps"
  "blockStream exampleFailingDeps = blockStream exampleBufferDeps"
  "blockLen exampleFailingDeps = blockLen exampleBufferDeps"
  "iterate exampleFailingDeps = iterate exampleBufferDeps"
  by (simp_all add: exampleFailingDeps_def)

lemma example_merge_two_fails:
  "needsMerge exampleFailingDeps exampleTwoEncoders"
  "BufferBucket_merge exampleFailingDeps exampleTwoEncoders = Inl (External ''encode failed'')"
  by (simp_all add: BufferBucket_merge_def needsMerge_def hasJustSingleEncoder_def
      hasJustSingleBootstrappedBlock_def exampleTwoEncoders_def exampleFailingDeps_sel
      exampleBufferDeps_def
      bootstrappedReaders_def encoderReaders_def List.map_filter_def mergeStreamsToEncoder_def
      exampleIterate_def timeZero_def Let_def)

lemma exampleTwoEncodersBuffer_at:
  "bucketVersionsAt exampleTwoEncodersBuffer 100 = Some 0"
  "heap exampleTwoEncodersBuffer 0 =
     \<lparr>buckets = [exampleTwoEncoders], bvStart = 100, lastReadUnixNanos = 0\<rparr>"
  "bucketsMap exampleTwoEncodersBuffer = [(100, 0)]"
  by (simp_all add: bucketVersionsAt_def exampleTwoEncodersBuffer_def exampleBuffer_def
      newDatabaseBuffer_def)

lemma example_mergeToStreams_fails:
  "mergeToStreams exampleFailingDeps (heap exampleTwoEncodersBuffer 0)
     \<lparr>filterWriteType = True, filterType = WarmWrite\<rparr> =
   (Inl (External ''encode failed''),
    \<lparr>buckets = [exampleTwoEncoders\<lparr>encoders := [], bootstrapped := []\<rparr>],
     bvStart = 100, lastReadUnixNanos = 0\<rparr>)"
proof -
  have sel: "selected \<lparr>filterWriteType = True, filterType = WarmWrite\<rparr> exampleTwoEncoders"
    by (simp add: selected_def exampleTwoEncoders_def)
  have nse: "\<not> hasJustSingleEncoder exampleTwoEncoders"
    "\<not> hasJustSingleBootstrappedBlock exampleFailingDeps exampleTwoEncoders"
    using example_merge_two_fails(1) by (simp_all add: needsMerge_def)
  from mergeToStream_merge_fails[OF nse example_merge_two_fails(2)] sel
  show ?thesis
    by (simp add: mergeToStreams_def exampleTwoEncodersBuffer_at)
qed

lemma exampleMixedBuffer_at:
  "bucketVersionsAt exampleMixedBuffer 100 = Some 0"
  "heap exampleMixedBuffer 0 =
     \<lparr>buckets = [exampleTwoEncoders, exampleColdBucketAt100],
      bvStart = 100, lastReadUnixNanos = 0\<rparr>"
  by (simp_all add: bucketVersionsAt_def exampleMixedBuffer_def exampleColdBuffer_def
      newDatabaseBuffer_def)

lemma exampleTwoEncoders_stream:
  "mergeToStream exampleBufferDeps exampleTwoEncoders =
     (Inr (Some (Reader [\<lparr>Timestamp = 105, Value = 1\<rparr>, \<lparr>Timestamp = 105, Value = 2\<rparr>])),
      \<lparr>start = 100,
           encoders = [\<lparr>encoder = [\<lparr>Timestamp = 105, Value = 1\<rparr>, \<lparr>Timestamp = 105, Value = 2\<rparr>],
                        lastWriteAt = 105\<rparr>],
           bootstrapped = [], version = 0, writeType = WarmWrite\<rparr>)"
proof -
  have nm: "needsMerge exampleBufferDeps exampleTwoEncoders"
    by (simp add: needsMerge_def hasJustSingleEncoder_def hasJustSingleBootstrappedBlock_def
        exampleTwoEncoders_def)
  show ?thesis
    unfolding mergeToStream_merge_succeeds[OF nm example_merge_two]
    by (simp add: mergedStream_def hasJustSingleEncoder_def exampleBufferDeps_sel)
qed

lemma exampleMixedBuffer_streams:
  "mergeToStreams exampleBufferDeps (heap exampleMixedBuffer 0) \<lparr>filterWriteType = True, filterType = WarmWrite\<rparr> =
     (Inr [Reader [\<lparr>Timestamp = 105, Value = 1\<rparr>, \<lparr>Timestamp = 105, Value = 2\<rparr>]],
      \<lparr>buckets = [\<lparr>start = 100,
           encoders = [\<lparr>encoder = [\<lparr>Timestamp = 105, Value = 1\<rparr>, \<lparr>Timestamp = 105, Value = 2\<rparr>],
                        lastWriteAt = 105\<rparr>],
           bootstrapped = [], version = 0, writeType = WarmWrite\<rparr>, exampleColdBucketAt100],
        bvStart = 100, lastReadUnixNanos = 0\<rparr>)"
proof -
  have sel: "selected \<lparr>filterWriteType = True, filterType = WarmWrite\<rparr> exampleTwoEncoders"
    "\<not> selected \<lparr>filterWriteType = True, filterType = WarmWrite\<rparr> exampleColdBucketAt100"
    by (simp_all add: selected_def exampleTwoEncoders_def exampleColdBucketAt100_def)
  show ?thesis
    by (simp add: mergeToStreams_def exampleMixedBuffer_at(2) sel exampleTwoEncoders_stream)
qed

theorem WarmFlush_outcomes_witness:
  "WarmFlush exampleBufferDeps exampleMixedBuffer 100 examplePersistFn =
     ((FlushOutcomeFlushedToDisk, None, [([105, 105], 2)]),
      storeAt exampleMixedBuffer 0
        \<lparr>buckets = [\<lparr>start = 100,
           encoders = [\<lparr>encoder = [\<lparr>Timestamp = 105, Value = 1\<rparr>, \<lparr>Timestamp = 105, Value = 2\<rparr>],
                        lastWriteAt = 105\<rparr>],
           bootstrapped = [], version = 1, writeType = WarmWrite\<rparr>, exampleColdBucketAt100],
        bvStart = 100, lastReadUnixNanos = 0\<rparr>)
   \<and> fst (WarmFlush exampleBufferDeps
        (storeAt exampleMixedBuffer 0
            ((heap exampleMixedBuffer 0)\<lparr>buckets :=
               filter (\<lambda>bk. writeType bk = WarmWrite) (buckets (heap exampleMixedBuffer 0))\<rparr>))
        100 examplePersistFn) = (FlushOutcomeFlushedToDisk, None, [([105, 105], 2)])
   \<and> map writeType (buckets (heap exampleMixedBuffer 0)) = [WarmWrite, ColdWrite]
   \<and> map version (buckets (heap (snd
        (WarmFlush exampleBufferDeps exampleMixedBuffer 100 examplePersistFn)) 0)) = [1, 0]
   \<and> buckets (heap (snd
        (WarmFlush exampleBufferDeps exampleMixedBuffer 100 examplePersistFn)) 0) ! 1 =
       exampleColdBucketAt100
   \<and> fst (WarmFlush exampleBufferDeps exampleWarmBuffer 100 examplePersistFn) =
     (FlushOutcomeFlushedToDisk, None, [([101], 1)])
   \<and> map version (buckets (heap (snd
        (WarmFlush exampleBufferDeps exampleWarmBuffer 100 examplePersistFn)) 0)) = [1]
   \<and> fst (WarmFlush exampleBufferDeps exampleWarmBuffer 100 exampleFailingPersistFn) =
     (FlushOutcomeErr, Some (External ''disk full''), [([101], 1)])
   \<and> map version (buckets (heap (snd
        (WarmFlush exampleBufferDeps exampleWarmBuffer 100 exampleFailingPersistFn)) 0)) = [0]
   \<and> WarmFlush exampleBufferDeps exampleWarmBuffer 200 examplePersistFn =
       ((FlushOutcomeBlockDoesNotExist, None, []), exampleWarmBuffer)
   \<and> fst (WarmFlush exampleFailingDeps exampleTwoEncodersBuffer 100 examplePersistFn) =
     (FlushOutcomeErr, Some (External ''encode failed''), [])
   \<and> map version (buckets (heap (snd
        (WarmFlush exampleFailingDeps exampleTwoEncodersBuffer 100 examplePersistFn)) 0)) = [0]"
proof -
  let ?stream = "Reader [\<lparr>Timestamp = 105, Value = 1\<rparr>, \<lparr>Timestamp = 105, Value = 2\<rparr>]
      :: Datapoint list segmentReader"
  let ?bv1 = "\<lparr>buckets = [\<lparr>start = 100,
           encoders = [\<lparr>encoder = [\<lparr>Timestamp = 105, Value = 1\<rparr>, \<lparr>Timestamp = 105, Value = 2\<rparr>],
                        lastWriteAt = 105\<rparr>],
           bootstrapped = [], version = 0, writeType = WarmWrite\<rparr>, exampleColdBucketAt100],
        bvStart = 100, lastReadUnixNanos = 0\<rparr>
      :: (Datapoint list, time \<times> Datapoint list) BufferBucketVersions"
  have sp: "streamToPersist exampleBufferDeps 100 [?stream] = Inr (Some ?stream)"
    by (simp add: streamToPersist_def)
  have sg: "Segment exampleBufferDeps ?stream = Inr [105, 105]"
    by (simp add: exampleBufferDeps_sel exampleSegment_def)
  have ck: "SegmentChecksum exampleBufferDeps [105, 105] = 2"
    by (simp add: exampleBufferDeps_sel)
  have pf: "examplePersistFn [105, 105] (SegmentChecksum exampleBufferDeps [105, 105]) = None"
    by (simp add: examplePersistFn_def)
  obtain oM eM cM bM where wfM:
    "WarmFlush exampleBufferDeps exampleMixedBuffer 100 examplePersistFn = ((oM, eM, cM), bM)"
    by (cases "WarmFlush exampleBufferDeps exampleMixedBuffer 100 examplePersistFn") auto
  have hyp: "bucketVersionsAt exampleMixedBuffer 100 = Some 0
      \<and> mergeToStreams exampleBufferDeps (heap exampleMixedBuffer 0) \<lparr>filterWriteType = True, filterType = WarmWrite\<rparr>
          = (Inr [?stream], ?bv1)
      \<and> streamToPersist exampleBufferDeps 100 [?stream] = Inr (Some ?stream)
      \<and> Segment exampleBufferDeps ?stream = Inr [105, 105] \<and> [105, 105] \<noteq> ([] :: Segment)
      \<and> examplePersistFn [105, 105] (SegmentChecksum exampleBufferDeps [105, 105]) = None"
    using exampleMixedBuffer_at(1) exampleMixedBuffer_streams sp sg pf by simp
  from WarmFlush_outcomes[OF wfM, THEN conjunct2, THEN conjunct2, THEN conjunct2, THEN conjunct2, THEN conjunct2, THEN conjunct2, THEN conjunct2, THEN conjunct2, THEN conjunct2, THEN conjunct2, THEN conjunct2, THEN conjunct2, THEN conjunct2, THEN conjunct2, THEN conjunct2, THEN conjunct2, THEN conjunct2, rule_format, OF hyp] ck
  have resM: "oM = FlushOutcomeFlushedToDisk" "eM = None" "cM = [([105, 105], 2)]"
    by simp_all
  have wbM: "writableBucket (buckets ?bv1) WarmWrite = Some 0"
    by (simp add: writableBucketVersion_def)
  from WarmFlush_outcomes[OF wfM, THEN conjunct2, THEN conjunct2, THEN conjunct2, THEN conjunct1, rule_format,
      OF conjI[OF exampleMixedBuffer_at(1) exampleMixedBuffer_streams]] resM(1) wbM
  have bM: "bM = storeAt exampleMixedBuffer 0
        \<lparr>buckets = [\<lparr>start = 100,
           encoders = [\<lparr>encoder = [\<lparr>Timestamp = 105, Value = 1\<rparr>, \<lparr>Timestamp = 105, Value = 2\<rparr>],
                        lastWriteAt = 105\<rparr>],
           bootstrapped = [], version = 1, writeType = WarmWrite\<rparr>, exampleColdBucketAt100],
        bvStart = 100, lastReadUnixNanos = 0\<rparr>"
    by (simp add: setVersion_def)
  from WarmFlush_outcomes[OF wfM, THEN conjunct2, THEN conjunct2, THEN conjunct1, rule_format, OF exampleMixedBuffer_at(1)] resM
  have warmOnly: "fst (WarmFlush exampleBufferDeps
        (storeAt exampleMixedBuffer 0
            ((heap exampleMixedBuffer 0)\<lparr>buckets :=
               filter (\<lambda>bk. writeType bk = WarmWrite) (buckets (heap exampleMixedBuffer 0))\<rparr>))
        100 examplePersistFn) = (FlushOutcomeFlushedToDisk, None, [([105, 105], 2)])"
    by simp
  have wtM: "map writeType (buckets (heap exampleMixedBuffer 0)) = [WarmWrite, ColdWrite]"
    by (simp add: exampleMixedBuffer_at(2) exampleTwoEncoders_def exampleColdBucketAt100_def)
  have wbM0: "writableBucket (buckets (heap exampleMixedBuffer 0)) WarmWrite = Some 0"
    by (simp add: exampleMixedBuffer_at(2) exampleTwoEncoders_def writableBucketVersion_def)
  have vM0: "map version (buckets (heap exampleMixedBuffer 0)) = [0, 0]"
    by (simp add: exampleMixedBuffer_at(2) exampleTwoEncoders_def exampleColdBucketAt100_def)
  note presentM = WarmFlush_outcomes[OF wfM, THEN conjunct2, THEN conjunct1, rule_format, OF exampleMixedBuffer_at(1)]
  from presentM resM(1) wbM0 vM0
  have versM: "map version (buckets (heap bM 0)) = [1, 0]"
    by simp
  have "1 < length (buckets (heap exampleMixedBuffer 0))
      \<and> writeType (buckets (heap exampleMixedBuffer 0) ! 1) \<noteq> WarmWrite"
    by (simp add: exampleMixedBuffer_at(2) exampleColdBucketAt100_def)
  with presentM have "buckets (heap bM 0) ! 1 = buckets (heap exampleMixedBuffer 0) ! 1"
    by blast
  then have coldM: "buckets (heap bM 0) ! 1 = exampleColdBucketAt100"
    by (simp add: exampleMixedBuffer_at(2))
  have wb: "writableBucket (buckets (heap exampleWarmBuffer 0)) WarmWrite = Some 0"
    by (simp add: exampleWarmBuffer_at exampleWarmBucket_def writableBucketVersion_def)
  have v0: "map version (buckets (heap exampleWarmBuffer 0)) = [0]"
    by (simp add: exampleWarmBuffer_at exampleWarmBucket_def)
  have f1: "fst (WarmFlush exampleBufferDeps exampleWarmBuffer 100 examplePersistFn) =
     (FlushOutcomeFlushedToDisk, None, [([101], 1)])"
    by (simp add: exampleWarmBuffer_flush examplePersistFn_def)
  then obtain b1 where wf1: "WarmFlush exampleBufferDeps exampleWarmBuffer 100 examplePersistFn =
     ((FlushOutcomeFlushedToDisk, None, [([101], 1)]), b1)"
    by (cases "WarmFlush exampleBufferDeps exampleWarmBuffer 100 examplePersistFn") auto
  from WarmFlush_outcomes[OF wf1, THEN conjunct2, THEN conjunct1, rule_format, OF exampleWarmBuffer_at(1)]
  have "map version (buckets (heap b1 0)) =
      (case writableBucket (buckets (heap exampleWarmBuffer 0)) WarmWrite of
         None \<Rightarrow> map version (buckets (heap exampleWarmBuffer 0))
       | Some i \<Rightarrow> (map version (buckets (heap exampleWarmBuffer 0)))[i := 1])"
    by simp
  with wb v0 have c1: "map version (buckets (heap b1 0)) = [1]" by simp
  have f2: "fst (WarmFlush exampleBufferDeps exampleWarmBuffer 100 exampleFailingPersistFn) =
     (FlushOutcomeErr, Some (External ''disk full''), [([101], 1)])"
    by (simp add: exampleWarmBuffer_flush exampleFailingPersistFn_def)
  then obtain b2 where wf2:
    "WarmFlush exampleBufferDeps exampleWarmBuffer 100 exampleFailingPersistFn =
     ((FlushOutcomeErr, Some (External ''disk full''), [([101], 1)]), b2)"
    by (cases "WarmFlush exampleBufferDeps exampleWarmBuffer 100 exampleFailingPersistFn") auto
  from WarmFlush_outcomes[OF wf2, THEN conjunct2, THEN conjunct1, rule_format, OF exampleWarmBuffer_at(1)]
  have "map version (buckets (heap b2 0)) = map version (buckets (heap exampleWarmBuffer 0))"
    by simp
  with v0 have c2: "map version (buckets (heap b2 0)) = [0]" by simp
  obtain o3 e3 c3 b3 where wf3:
    "WarmFlush exampleBufferDeps exampleWarmBuffer 200 examplePersistFn = ((o3, e3, c3), b3)"
    by (cases "WarmFlush exampleBufferDeps exampleWarmBuffer 200 examplePersistFn") auto
  from WarmFlush_outcomes[OF wf3, THEN conjunct1] exampleWarmBuffer_at(2)
  have "o3 = FlushOutcomeBlockDoesNotExist \<and> e3 = None \<and> c3 = [] \<and> b3 = exampleWarmBuffer"
    by blast
  with wf3 have c3: "WarmFlush exampleBufferDeps exampleWarmBuffer 200 examplePersistFn =
       ((FlushOutcomeBlockDoesNotExist, None, []), exampleWarmBuffer)"
    by simp
  obtain oF eF cF bF where wfF:
    "WarmFlush exampleFailingDeps exampleTwoEncodersBuffer 100 examplePersistFn =
       ((oF, eF, cF), bF)"
    by (cases "WarmFlush exampleFailingDeps exampleTwoEncodersBuffer 100 examplePersistFn") auto
  from WarmFlush_outcomes[OF wfF, THEN conjunct2, THEN conjunct2, THEN conjunct2, THEN conjunct2, THEN conjunct2, THEN conjunct2, THEN conjunct2, THEN conjunct2, THEN conjunct2, THEN conjunct2, THEN conjunct2, THEN conjunct1, rule_format,
      OF conjI[OF exampleTwoEncodersBuffer_at(1) example_mergeToStreams_fails]]
  have resF: "oF = FlushOutcomeErr" "eF = Some (External ''encode failed'')" "cF = []"
    by simp_all
  have vF0: "map version (buckets (heap exampleTwoEncodersBuffer 0)) = [0]"
    by (simp add: exampleTwoEncodersBuffer_at(2) exampleTwoEncoders_def)
  from WarmFlush_outcomes[OF wfF, THEN conjunct2, THEN conjunct1, rule_format, OF exampleTwoEncodersBuffer_at(1)] resF(1) vF0
  have versF: "map version (buckets (heap bF 0)) = [0]"
    by simp
  from wfM resM bM warmOnly wtM versM coldM f1 c1 wf1 f2 c2 wf2 c3 wfF resF versF
  show ?thesis by simp
qed

subsection \<open>Fetching the blocks of a cold flush\<close>

lemma example_cold_write_reaches:
  "Write exampleBufferDeps exampleColdBuffer 100 55 1 exampleWriteOptions =
     ((True, None), exampleColdWrittenBuffer)"
  by (simp add: Write_def classifyWrite_def Let_def exampleBuffer_settings Truncate_def
      bucketVersionsAtCreate_def bucketVersionsAt_def exampleColdBuffer_def newDatabaseBuffer_def
      bucketsCacheSize_def putBucketVersionsInCache_def BufferBucketVersions_write_def
      writableBucketCreate_def BufferBucketVersions_resetTo_def BufferBucket_resetTo_def
      BufferBucket_write_def writeToEncoderIndex_def exampleBufferDeps_def
      exampleWriteOptions_def timeZero_def writableBucketVersion_def inOrderBlockStartsAdd_def
      exampleColdWrittenBuffer_def exampleColdBucket_def numeral_2_eq_2)

lemma fetchBlocks_single:
  "fetchBlocks deps b [st] sOpts =
     (case bucketVersionsAt b st of
        None \<Rightarrow> []
      | Some p \<Rightarrow>
          (if BufferBucketVersions_streams deps (blockSize b) (heap b p) sOpts = [] then []
           else [(st, BufferBucketVersions_streams deps (blockSize b) (heap b p) sOpts)]))"
  by (simp add: fetchBlocks_def List.map_filter_def Let_def split: option.splits)

lemma streams_no_selected:
  "(\<forall>bk\<in>set (buckets bv). \<not> selected sOpts bk) \<Longrightarrow>
   BufferBucketVersions_streams deps blockSz bv sOpts = []"
  by (simp add: BufferBucketVersions_streams_def filter_empty_conv[THEN iffD2])

text \<open>
  Claim C5, as the code has it. \<^verbatim>\<open>FetchBlocksForColdFlush(start, version)\<close> returns
  the streams of the cold buckets of the block start \<open>start\<close>, as
  \<^verbatim>\<open>BufferBucketVersions.streams\<close> gives them (one per encoder and bootstrapped block,
  not merged). When the block start has no bucket versions, or its cold buckets give no
  stream (in particular when it has no cold bucket at all), the result is no stream and
  no error, and the buffer is unchanged. When there are cold streams and a writable cold
  bucket, that bucket, and only it, is set to \<open>version\<close>. The error
  \<^verbatim>\<open>errWritableBucketDoesNotExist\<close> is returned only when there are cold streams and no
  writable cold bucket.
\<close>

theorem FetchBlocksForColdFlush_cases:
  fixes deps :: "('e, 's, 'b) bufferDeps" and b :: "('e, 'b) dbBuffer"
  shows "(bucketVersionsAt b st = None \<longrightarrow>
            FetchBlocksForColdFlush deps b st ver = (Inr [], b))
       \<and> (\<forall>p. bucketVersionsAt b st = Some p
              \<and> BufferBucketVersions_streams deps (blockSize b) (heap b p)
                   \<lparr>filterWriteType = True, filterType = ColdWrite\<rparr> = [] \<longrightarrow>
            FetchBlocksForColdFlush deps b st ver = (Inr [], b))
       \<and> (\<forall>p. bucketVersionsAt b st = Some p
              \<and> (\<forall>bk\<in>set (buckets (heap b p)). writeType bk \<noteq> ColdWrite) \<longrightarrow>
            FetchBlocksForColdFlush deps b st ver = (Inr [], b))
       \<and> (\<forall>p i. bucketVersionsAt b st = Some p
              \<and> BufferBucketVersions_streams deps (blockSize b) (heap b p)
                   \<lparr>filterWriteType = True, filterType = ColdWrite\<rparr> \<noteq> []
              \<and> writableBucket (buckets (heap b p)) ColdWrite = Some i \<longrightarrow>
            FetchBlocksForColdFlush deps b st ver =
              (Inr (BufferBucketVersions_streams deps (blockSize b) (heap b p)
                      \<lparr>filterWriteType = True, filterType = ColdWrite\<rparr>),
               storeAt b p (setVersion (heap b p) i ver))
            \<and> i < length (buckets (heap b p))
            \<and> version (buckets (heap b p) ! i) = writableBucketVersion
            \<and> writeType (buckets (heap b p) ! i) = ColdWrite
            \<and> map version (buckets (setVersion (heap b p) i ver)) =
                (map version (buckets (heap b p)))[i := ver])
       \<and> (\<forall>p. bucketVersionsAt b st = Some p
              \<and> BufferBucketVersions_streams deps (blockSize b) (heap b p)
                   \<lparr>filterWriteType = True, filterType = ColdWrite\<rparr> \<noteq> []
              \<and> writableBucket (buckets (heap b p)) ColdWrite = None \<longrightarrow>
            FetchBlocksForColdFlush deps b st ver =
              (Inl (errWritableBucketDoesNotExist st), b))"
proof (intro conjI allI impI)
  assume "bucketVersionsAt b st = None"
  then show "FetchBlocksForColdFlush deps b st ver = (Inr [], b)"
    by (simp add: FetchBlocksForColdFlush_def fetchBlocks_single)
next
  fix p
  assume "bucketVersionsAt b st = Some p
      \<and> BufferBucketVersions_streams deps (blockSize b) (heap b p)
           \<lparr>filterWriteType = True, filterType = ColdWrite\<rparr> = []"
  then show "FetchBlocksForColdFlush deps b st ver = (Inr [], b)"
    by (simp add: FetchBlocksForColdFlush_def fetchBlocks_single)
next
  fix p
  assume h: "bucketVersionsAt b st = Some p
      \<and> (\<forall>bk\<in>set (buckets (heap b p)). writeType bk \<noteq> ColdWrite)"
  then have "\<forall>bk\<in>set (buckets (heap b p)).
      \<not> selected \<lparr>filterWriteType = True, filterType = ColdWrite\<rparr> bk"
    by (simp add: selected_def)
  then have "BufferBucketVersions_streams deps (blockSize b) (heap b p)
           \<lparr>filterWriteType = True, filterType = ColdWrite\<rparr> = []"
    by (rule streams_no_selected)
  with h show "FetchBlocksForColdFlush deps b st ver = (Inr [], b)"
    by (simp add: FetchBlocksForColdFlush_def fetchBlocks_single)
next
  fix p i
  assume h: "bucketVersionsAt b st = Some p
      \<and> BufferBucketVersions_streams deps (blockSize b) (heap b p)
           \<lparr>filterWriteType = True, filterType = ColdWrite\<rparr> \<noteq> []
      \<and> writableBucket (buckets (heap b p)) ColdWrite = Some i"
  then show "FetchBlocksForColdFlush deps b st ver =
      (Inr (BufferBucketVersions_streams deps (blockSize b) (heap b p)
              \<lparr>filterWriteType = True, filterType = ColdWrite\<rparr>),
       storeAt b p (setVersion (heap b p) i ver))"
    by (simp add: FetchBlocksForColdFlush_def fetchBlocks_single)
  from h have wb: "writableBucket (buckets (heap b p)) ColdWrite = Some i" by simp
  from writableBucket_Some[OF wb]
  show "i < length (buckets (heap b p))"
    and "version (buckets (heap b p) ! i) = writableBucketVersion"
    and "writeType (buckets (heap b p) ! i) = ColdWrite"
    by simp_all
  show "map version (buckets (setVersion (heap b p) i ver)) =
      (map version (buckets (heap b p)))[i := ver]"
    by (rule setVersion_simps)
next
  fix p
  assume "bucketVersionsAt b st = Some p
      \<and> BufferBucketVersions_streams deps (blockSize b) (heap b p)
           \<lparr>filterWriteType = True, filterType = ColdWrite\<rparr> \<noteq> []
      \<and> writableBucket (buckets (heap b p)) ColdWrite = None"
  then show "FetchBlocksForColdFlush deps b st ver =
      (Inl (errWritableBucketDoesNotExist st), b)"
    by (simp add: FetchBlocksForColdFlush_def fetchBlocks_single)
qed

lemma exampleColdWrittenBuffer_at:
  "bucketVersionsAt exampleColdWrittenBuffer 50 = Some 0"
  "buckets (heap exampleColdWrittenBuffer 0) = [exampleColdBucket]"
  "blockSize exampleColdWrittenBuffer = 10"
  by (simp_all add: bucketVersionsAt_def exampleColdWrittenBuffer_def exampleColdBuffer_def
      newDatabaseBuffer_def BufferBucketVersions_resetTo_def timeZero_def)

lemma exampleColdWrittenBuffer_streams:
  "BufferBucketVersions_streams exampleBufferDeps 10 (heap exampleColdWrittenBuffer 0)
     \<lparr>filterWriteType = True, filterType = ColdWrite\<rparr> =
   [\<lparr>SegmentReader = Some [\<lparr>Timestamp = 55, Value = 1\<rparr>], Start = 50, BlockSize = 10\<rparr>]"
  by (simp add: BufferBucketVersions_streams_def exampleColdWrittenBuffer_at selected_def
      exampleColdBucket_def BufferBucket_streams_def List.map_filter_def exampleBufferDeps_sel)

theorem FetchBlocksForColdFlush_cases_witness:
  "FetchBlocksForColdFlush exampleBufferDeps exampleColdWrittenBuffer 50 7 =
     (Inr [\<lparr>SegmentReader = Some [\<lparr>Timestamp = 55, Value = 1\<rparr>], Start = 50, BlockSize = 10\<rparr>],
      storeAt exampleColdWrittenBuffer 0 (setVersion (heap exampleColdWrittenBuffer 0) 0 7))
   \<and> map version (buckets (setVersion (heap exampleColdWrittenBuffer 0) 0 7)) = [7]
   \<and> FetchBlocksForColdFlush exampleBufferDeps exampleColdWrittenBuffer 60 7 =
     (Inr [], exampleColdWrittenBuffer)"
proof -
  have wb: "writableBucket (buckets (heap exampleColdWrittenBuffer 0)) ColdWrite = Some 0"
    by (simp add: exampleColdWrittenBuffer_at exampleColdBucket_def writableBucketVersion_def)
  have ne: "BufferBucketVersions_streams exampleBufferDeps (blockSize exampleColdWrittenBuffer)
      (heap exampleColdWrittenBuffer 0) \<lparr>filterWriteType = True, filterType = ColdWrite\<rparr> \<noteq> []"
    by (simp add: exampleColdWrittenBuffer_at(3) exampleColdWrittenBuffer_streams)
  have none: "bucketVersionsAt exampleColdWrittenBuffer 60 = None"
    by (simp add: bucketVersionsAt_def exampleColdWrittenBuffer_def exampleColdBuffer_def
        newDatabaseBuffer_def)
  have v0: "map version (buckets (heap exampleColdWrittenBuffer 0)) = [0]"
    by (simp add: exampleColdWrittenBuffer_at exampleColdBucket_def)
  from FetchBlocksForColdFlush_cases[where deps = exampleBufferDeps
      and b = exampleColdWrittenBuffer and st = 50 and ver = 7]
    exampleColdWrittenBuffer_at(1) ne wb
  have c1: "FetchBlocksForColdFlush exampleBufferDeps exampleColdWrittenBuffer 50 7 =
      (Inr (BufferBucketVersions_streams exampleBufferDeps (blockSize exampleColdWrittenBuffer)
              (heap exampleColdWrittenBuffer 0)
              \<lparr>filterWriteType = True, filterType = ColdWrite\<rparr>),
       storeAt exampleColdWrittenBuffer 0 (setVersion (heap exampleColdWrittenBuffer 0) 0 7))
     \<and> map version (buckets (setVersion (heap exampleColdWrittenBuffer 0) 0 7)) =
         (map version (buckets (heap exampleColdWrittenBuffer 0)))[0 := 7]"
    by blast
  from FetchBlocksForColdFlush_cases[where deps = exampleBufferDeps
      and b = exampleColdWrittenBuffer and st = 60 and ver = 7] none
  have c2: "FetchBlocksForColdFlush exampleBufferDeps exampleColdWrittenBuffer 60 7 =
     (Inr [], exampleColdWrittenBuffer)"
    by blast
  from c1 c2 v0 show ?thesis
    by (simp add: exampleColdWrittenBuffer_at(3) exampleColdWrittenBuffer_streams)
qed

theorem FetchBlocksForColdFlush_no_cold_bucket_counterexample:
  "bucketVersionsAt exampleWarmBuffer 100 = Some 0
   \<and> map writeType (buckets (heap exampleWarmBuffer 0)) = [WarmWrite]
   \<and> FetchBlocksForColdFlush exampleBufferDeps exampleWarmBuffer 100 1 =
       (Inr [], exampleWarmBuffer)"
  by (simp add: exampleWarmBuffer_at exampleWarmBucket_def FetchBlocksForColdFlush_def
      fetchBlocks_single BufferBucketVersions_streams_def selected_def)

subsection \<open>Failing merges\<close>

lemma mergeBucketsToStreams_error:
  "mergeBucketsToStreams deps sOpts bs = (Inl err, bs') \<Longrightarrow>
     length bs' = length bs
     \<and> (\<exists>i<length bs. selected sOpts (bs ! i)
            \<and> mergeToStream deps (bs ! i) = (Inl err, bs' ! i)
            \<and> drop (Suc i) bs' = drop (Suc i) bs)"
proof (induction bs arbitrary: bs')
  case Nil
  then show ?case by simp
next
  case (Cons b bs)
  obtain r1 bs1 where rec: "mergeBucketsToStreams deps sOpts bs = (r1, bs1)"
    by (cases "mergeBucketsToStreams deps sOpts bs")
  show ?case
  proof (cases "selected sOpts b")
    case False
    with Cons.prems rec have r1: "r1 = Inl err" and bs': "bs' = b # bs1" by auto
    from Cons.IH[OF rec[unfolded r1]] obtain i where
      "length bs1 = length bs" "i < length bs" "selected sOpts (bs ! i)"
      "mergeToStream deps (bs ! i) = (Inl err, bs1 ! i)" "drop (Suc i) bs1 = drop (Suc i) bs"
      by blast
    with bs' have "length bs' = length (b # bs)" "Suc i < length (b # bs)"
      "selected sOpts ((b # bs) ! Suc i)"
      "mergeToStream deps ((b # bs) ! Suc i) = (Inl err, bs' ! Suc i)"
      "drop (Suc (Suc i)) bs' = drop (Suc (Suc i)) (b # bs)"
      by simp_all
    then show ?thesis by blast
  next
    case sel: True
    obtain r0 b' where m: "mergeToStream deps b = (r0, b')"
      by (cases "mergeToStream deps b")
    show ?thesis
    proof (cases r0)
      case (Inl e)
      with Cons.prems sel m have "e = err" "bs' = b' # bs" by auto
      with m Inl sel have "length bs' = length (b # bs)" "0 < length (b # bs)"
        "selected sOpts ((b # bs) ! 0)"
        "mergeToStream deps ((b # bs) ! 0) = (Inl err, bs' ! 0)"
        "drop (Suc 0) bs' = drop (Suc 0) (b # bs)"
        by simp_all
      then show ?thesis by blast
    next
      case (Inr so)
      with Cons.prems sel m rec have r1: "r1 = Inl err" and bs': "bs' = b' # bs1"
        by (auto split: sum.splits)
      from Cons.IH[OF rec[unfolded r1]] obtain i where
        "length bs1 = length bs" "i < length bs" "selected sOpts (bs ! i)"
        "mergeToStream deps (bs ! i) = (Inl err, bs1 ! i)" "drop (Suc i) bs1 = drop (Suc i) bs"
        by blast
      with bs' have "length bs' = length (b # bs)" "Suc i < length (b # bs)"
        "selected sOpts ((b # bs) ! Suc i)"
        "mergeToStream deps ((b # bs) ! Suc i) = (Inl err, bs' ! Suc i)"
        "drop (Suc (Suc i)) bs' = drop (Suc (Suc i)) (b # bs)"
        by simp_all
      then show ?thesis by blast
    qed
  qed
qed

lemma mergeBuckets_keeps:
  "mergeBuckets deps wt bs = (r, bs') \<Longrightarrow>
     length bs' = length bs \<and> map version bs' = map version bs
     \<and> map writeType bs' = map writeType bs"
proof (induction bs arbitrary: r bs')
  case Nil
  then show ?case by simp
next
  case (Cons b bs)
  obtain r1 bs1 where rec: "mergeBuckets deps wt bs = (r1, bs1)"
    by (cases "mergeBuckets deps wt bs")
  note ih = Cons.IH[OF rec]
  show ?case
  proof (cases "version b = writableBucketVersion \<and> wt = writeType b")
    case False
    with Cons.prems rec have "bs' = b # bs1" by auto
    with ih show ?thesis by simp
  next
    case w: True
    show ?thesis
    proof (cases "BufferBucket_merge deps b")
      case (Inl e)
      with Cons.prems w have "bs' = b # bs" by auto
      then show ?thesis by simp
    next
      case (Inr t)
      then obtain n b' ce cb where ok: "BufferBucket_merge deps b = Inr (n, b', ce, cb)"
        by (cases t) auto
      with Cons.prems w rec have "bs' = b' # bs1" by (auto split: sum.splits)
      with ih BufferBucket_merge_keeps[OF ok] show ?thesis by simp
    qed
  qed
qed

lemma mergeBuckets_error:
  "mergeBuckets deps wt bs = (Inl err, bs') \<Longrightarrow>
     (\<exists>i<length bs. version (bs ! i) = writableBucketVersion \<and> writeType (bs ! i) = wt
         \<and> BufferBucket_merge deps (bs ! i) = Inl err
         \<and> drop i bs' = drop i bs)"
proof (induction bs arbitrary: bs')
  case Nil
  then show ?case by simp
next
  case (Cons b bs)
  obtain r1 bs1 where rec: "mergeBuckets deps wt bs = (r1, bs1)"
    by (cases "mergeBuckets deps wt bs")
  show ?case
  proof (cases "version b = writableBucketVersion \<and> wt = writeType b")
    case False
    with Cons.prems rec have r1: "r1 = Inl err" and bs': "bs' = b # bs1" by auto
    from Cons.IH[OF rec[unfolded r1]] obtain i where
      "i < length bs" "version (bs ! i) = writableBucketVersion" "writeType (bs ! i) = wt"
      "BufferBucket_merge deps (bs ! i) = Inl err" "drop i bs1 = drop i bs"
      by blast
    with bs' have "Suc i < length (b # bs)"
      "version ((b # bs) ! Suc i) = writableBucketVersion" "writeType ((b # bs) ! Suc i) = wt"
      "BufferBucket_merge deps ((b # bs) ! Suc i) = Inl err"
      "drop (Suc i) bs' = drop (Suc i) (b # bs)"
      by simp_all
    then show ?thesis by blast
  next
    case w: True
    show ?thesis
    proof (cases "BufferBucket_merge deps b")
      case (Inl e)
      with Cons.prems w have "e = err" "bs' = b # bs" by auto
      with Inl w have "0 < length (b # bs)"
        "version ((b # bs) ! 0) = writableBucketVersion" "writeType ((b # bs) ! 0) = wt"
        "BufferBucket_merge deps ((b # bs) ! 0) = Inl err"
        "drop 0 bs' = drop 0 (b # bs)"
        by simp_all
      then show ?thesis by blast
    next
      case (Inr t)
      then obtain n b' ce cb where ok: "BufferBucket_merge deps b = Inr (n, b', ce, cb)"
        by (cases t) auto
      with Cons.prems w rec have r1: "r1 = Inl err" and bs': "bs' = b' # bs1"
        by (auto split: sum.splits)
      from Cons.IH[OF rec[unfolded r1]] obtain i where
        "i < length bs" "version (bs ! i) = writableBucketVersion" "writeType (bs ! i) = wt"
        "BufferBucket_merge deps (bs ! i) = Inl err" "drop i bs1 = drop i bs"
        by blast
      with bs' have "Suc i < length (b # bs)"
        "version ((b # bs) ! Suc i) = writableBucketVersion" "writeType ((b # bs) ! Suc i) = wt"
        "BufferBucket_merge deps ((b # bs) ! Suc i) = Inl err"
        "drop (Suc i) bs' = drop (Suc i) (b # bs)"
        by simp_all
      then show ?thesis by blast
    qed
  qed
qed

lemma WarmFlush_merge_error:
  assumes "bucketVersionsAt b blockStart = Some p"
    and "mergeToStreams deps (heap b p) \<lparr>filterWriteType = True, filterType = WarmWrite\<rparr> =
           (Inl err, bv1)"
  shows "WarmFlush deps b blockStart persistFn =
           ((FlushOutcomeErr, Some err, []), storeAt b p bv1)"
  using assms by (simp add: WarmFlush_def)

lemma Snapshot_merge_error:
  assumes "bucketVersionsAt b blockStart = Some p"
    and "mergeToStreams deps (heap b p) \<lparr>filterWriteType = False, filterType = WarmWrite\<rparr> =
           (Inl err, bv1)"
  shows "Snapshot deps b blockStart persistFn = ((Some err, []), storeAt b p bv1)"
  using assms by (simp add: Snapshot_def)

lemma WarmFlush_error_versions:
  assumes wf: "WarmFlush deps b blockStart persistFn = ((outcome, Some err, calls), b')"
  shows "outcome = FlushOutcomeErr
     \<and> map version (buckets (heap b' q)) = map version (buckets (heap b q))"
proof -
  from WarmFlush_err_iff[OF wf] have o: "outcome = FlushOutcomeErr" by simp
  show ?thesis
  proof (cases "bucketVersionsAt b blockStart")
    case None
    with wf show ?thesis by (simp add: WarmFlush_def)
  next
    case (Some p)
    from WarmFlush_buckets[OF wf Some] o
    have other: "\<forall>q. q \<noteq> p \<longrightarrow> heap b' q = heap b q"
      and same: "map version (buckets (heap b' p)) = map version (buckets (heap b p))"
      by simp_all
    show ?thesis
    proof (cases "q = p")
      case True
      with same o show ?thesis by simp
    next
      case False
      with other o show ?thesis by simp
    qed
  qed
qed

lemma Snapshot_store:
  assumes "Snapshot deps b blockStart persistFn = (r, b')"
  shows "b' = b
     \<or> (\<exists>p r1 bv1. mergeToStreams deps (heap b p)
             \<lparr>filterWriteType = False, filterType = WarmWrite\<rparr> = (r1, bv1)
           \<and> b' = storeAt b p bv1)"
  using assms
  by (auto simp: Snapshot_def split: option.splits sum.splits prod.splits if_splits)

lemma Snapshot_versions:
  assumes sn: "Snapshot deps b blockStart persistFn = (r, b')"
  shows "map version (buckets (heap b' q)) = map version (buckets (heap b q))"
proof -
  from Snapshot_store[OF sn] show ?thesis
  proof
    assume "b' = b"
    then show ?thesis by simp
  next
    assume "\<exists>p r1 bv1. mergeToStreams deps (heap b p)
             \<lparr>filterWriteType = False, filterType = WarmWrite\<rparr> = (r1, bv1)
           \<and> b' = storeAt b p bv1"
    then obtain p r1 bv1 where m: "mergeToStreams deps (heap b p)
             \<lparr>filterWriteType = False, filterType = WarmWrite\<rparr> = (r1, bv1)"
      and b': "b' = storeAt b p bv1" by blast
    from mergeToStreams_keeps(1)[OF m] b' show ?thesis by (simp add: storeAt_def)
  qed
qed

lemma tickEvict_not_eligible:
  "\<not> (WarmRetrievable st \<or> ColdVersion st > 0) \<Longrightarrow> tickEvict bv st = bv"
  by (simp add: tickEvict_def)

lemma storeAt_storeAt: "storeAt (storeAt b p bv1) p bv2 = storeAt b p bv2"
  by (simp add: storeAt_def)

lemma tickLoop_append:
  "tickLoop deps blockStates (pre @ es) b res =
     (case tickLoop deps blockStates pre b res of
        (res', b') \<Rightarrow> tickLoop deps blockStates es b' res')"
proof (induction pre arbitrary: b res)
  case Nil
  then show ?case by simp
next
  case (Cons a pre)
  obtain t p where a: "a = (t, p)" by (cases a)
  obtain m e l where res: "res = (m, e, l)" by (cases res)
  show ?case
    unfolding a res
    by (simp add: Let_def Cons.IH split: prod.splits sum.splits)
qed

lemma tickLoop_logged:
  "tickLoop deps blockStates es b (m, e, l) = ((m', e', l'), b') \<Longrightarrow> \<exists>l2. l' = l @ l2"
proof (induction es arbitrary: b m e l)
  case Nil
  then show ?case by simp
next
  case (Cons a es)
  obtain t p where a: "a = (t, p)" by (cases a)
  from Cons.prems[unfolded a] Cons.IH show ?case
    by (fastforce simp: Let_def split: prod.splits sum.splits if_splits)
qed

lemma tickLoop_merge_error:
  assumes ne: "\<not> ((WarmRetrievable (blockStateAt blockStates t)
                    \<or> ColdVersion (blockStateAt blockStates t) > 0)
               \<and> BufferBucketVersions_streamsLen deps
                    (tickEvict (heap b p) (blockStateAt blockStates t)) = 0)"
    and m: "BufferBucketVersions_merge deps (tickEvict (heap b p) (blockStateAt blockStates t))
              WarmWrite = (Inl err, bv2)"
  shows "tickLoop deps blockStates ((t, p) # rest) b (merged, evicted, logged) =
           tickLoop deps blockStates rest (storeAt b p bv2) (merged, evicted, logged @ [err])"
proof (cases "WarmRetrievable (blockStateAt blockStates t)
                    \<or> ColdVersion (blockStateAt blockStates t) > 0")
  case True
  with ne m show ?thesis by (simp add: Let_def storeAt_storeAt)
next
  case False
  from tickEvict_not_eligible[OF False] have te:
    "tickEvict (heap b p) (blockStateAt blockStates t) = heap b p" .
  from False m[unfolded te] show ?thesis by (simp add: Let_def storeAt_storeAt)
qed

text \<open>
  Claim C3, as the code has it. When the merge of a bucket fails inside
  \<^verbatim>\<open>mergeToStream\<close>, on behalf of \<^verbatim>\<open>WarmFlush\<close> or \<^verbatim>\<open>Snapshot\<close>, the encoders and the
  bootstrapped blocks of that bucket are reset, its version and write type stay, and
  the error is returned by \<^verbatim>\<open>mergeToStreams\<close> and then by \<^verbatim>\<open>WarmFlush\<close> (with the outcome
  \<^verbatim>\<open>FlushOutcomeErr\<close>) and \<^verbatim>\<open>Snapshot\<close>, before any call to the persist function; the
  buckets after the failing one are untouched. A \<^verbatim>\<open>WarmFlush\<close> that returns an error,
  whatever its origin, changes no version, and \<^verbatim>\<open>Snapshot\<close> never changes one. In
  \<^verbatim>\<open>Tick\<close> the merge is \<^verbatim>\<open>BufferBucketVersions.merge\<close>: it stops at the first bucket whose
  merge fails, leaves that bucket and the following ones as they were, changes no
  version, and \<^verbatim>\<open>Tick\<close> logs the error (the last component of the result of the model)
  and goes on with the next block start; it returns no error.
\<close>

theorem merge_failure_semantics:
  fixes deps :: "('e, 's, 'b) bufferDeps" and b :: "('e, 'b) dbBuffer"
  shows "(\<forall>bk err. needsMerge deps bk \<and> BufferBucket_merge deps bk = Inl err \<longrightarrow>
            mergeToStream deps bk = (Inl err, bk\<lparr>encoders := [], bootstrapped := []\<rparr>))
       \<and> (\<forall>sOpts bs err bs'. mergeBucketsToStreams deps sOpts bs = (Inl err, bs') \<longrightarrow>
            length bs' = length bs \<and> map version bs' = map version bs
            \<and> (\<exists>i<length bs. selected sOpts (bs ! i)
                  \<and> mergeToStream deps (bs ! i) = (Inl err, bs' ! i)
                  \<and> drop (Suc i) bs' = drop (Suc i) bs))
       \<and> (\<forall>p err bv1. bucketVersionsAt b blockStart = Some p
              \<and> mergeToStreams deps (heap b p)
                   \<lparr>filterWriteType = True, filterType = WarmWrite\<rparr> = (Inl err, bv1) \<longrightarrow>
            WarmFlush deps b blockStart persistFn =
              ((FlushOutcomeErr, Some err, []), storeAt b p bv1))
       \<and> (\<forall>p err bv1. bucketVersionsAt b blockStart = Some p
              \<and> mergeToStreams deps (heap b p)
                   \<lparr>filterWriteType = False, filterType = WarmWrite\<rparr> = (Inl err, bv1) \<longrightarrow>
            Snapshot deps b blockStart persistFn = ((Some err, []), storeAt b p bv1))
       \<and> (\<forall>outcome err calls b' q.
            WarmFlush deps b blockStart persistFn = ((outcome, Some err, calls), b') \<longrightarrow>
            outcome = FlushOutcomeErr
            \<and> map version (buckets (heap b' q)) = map version (buckets (heap b q)))
       \<and> (\<forall>r b' q. Snapshot deps b blockStart persistFn = (r, b') \<longrightarrow>
            map version (buckets (heap b' q)) = map version (buckets (heap b q)))
       \<and> (\<forall>wt bs err bs'. mergeBuckets deps wt bs = (Inl err, bs') \<longrightarrow>
            length bs' = length bs \<and> map version bs' = map version bs
            \<and> (\<exists>i<length bs. BufferBucket_merge deps (bs ! i) = Inl err
                  \<and> drop i bs' = drop i bs))
       \<and> (\<forall>pre t p rest merged evicted logged b1 err bv2.
            bucketsMap b = pre @ (t, p) # rest
            \<and> tickLoop deps blockStates pre b (0, [], []) = ((merged, evicted, logged), b1)
            \<and> \<not> ((WarmRetrievable (blockStateAt blockStates t)
                    \<or> ColdVersion (blockStateAt blockStates t) > 0)
                  \<and> BufferBucketVersions_streamsLen deps
                       (tickEvict (heap b1 p) (blockStateAt blockStates t)) = 0)
            \<and> BufferBucketVersions_merge deps
                 (tickEvict (heap b1 p) (blockStateAt blockStates t)) WarmWrite = (Inl err, bv2) \<longrightarrow>
            Tick deps b blockStates =
              tickLoop deps blockStates rest (storeAt b1 p bv2) (merged, evicted, logged @ [err])
            \<and> err \<in> set (snd (snd (fst (Tick deps b blockStates))))
            \<and> map version (buckets bv2) =
                map version (buckets (tickEvict (heap b1 p) (blockStateAt blockStates t))))"
proof (intro conjI allI impI)
  fix bk err
  assume h: "needsMerge deps bk \<and> BufferBucket_merge deps bk = Inl err"
  then have "\<not> hasJustSingleEncoder bk" "\<not> hasJustSingleBootstrappedBlock deps bk"
    by (simp_all add: needsMerge_def)
  with h show "mergeToStream deps bk = (Inl err, bk\<lparr>encoders := [], bootstrapped := []\<rparr>)"
    by (simp add: mergeToStream_merge_fails)
next
  fix sOpts bs err bs'
  assume h: "mergeBucketsToStreams deps sOpts bs = (Inl err, bs')"
  from mergeBucketsToStreams_error[OF h]
  show "length bs' = length bs"
    and "\<exists>i<length bs. selected sOpts (bs ! i)
           \<and> mergeToStream deps (bs ! i) = (Inl err, bs' ! i)
           \<and> drop (Suc i) bs' = drop (Suc i) bs"
    by simp_all
  from mergeBucketsToStreams_keeps[OF h] show "map version bs' = map version bs" by simp
next
  fix p err bv1
  assume "bucketVersionsAt b blockStart = Some p
      \<and> mergeToStreams deps (heap b p)
           \<lparr>filterWriteType = True, filterType = WarmWrite\<rparr> = (Inl err, bv1)"
  then show "WarmFlush deps b blockStart persistFn =
      ((FlushOutcomeErr, Some err, []), storeAt b p bv1)"
    by (simp add: WarmFlush_merge_error)
next
  fix p err bv1
  assume "bucketVersionsAt b blockStart = Some p
      \<and> mergeToStreams deps (heap b p)
           \<lparr>filterWriteType = False, filterType = WarmWrite\<rparr> = (Inl err, bv1)"
  then show "Snapshot deps b blockStart persistFn = ((Some err, []), storeAt b p bv1)"
    by (simp add: Snapshot_merge_error)
next
  fix outcome err calls b' q
  assume h: "WarmFlush deps b blockStart persistFn = ((outcome, Some err, calls), b')"
  from WarmFlush_error_versions[OF h]
  show "outcome = FlushOutcomeErr"
    and "map version (buckets (heap b' q)) = map version (buckets (heap b q))"
    by simp_all
next
  fix r b' q
  assume "Snapshot deps b blockStart persistFn = (r, b')"
  then show "map version (buckets (heap b' q)) = map version (buckets (heap b q))"
    by (rule Snapshot_versions)
next
  fix wt bs err bs'
  assume h: "mergeBuckets deps wt bs = (Inl err, bs')"
  from mergeBuckets_keeps[OF h]
  show "length bs' = length bs" and "map version bs' = map version bs" by simp_all
  from mergeBuckets_error[OF h]
  show "\<exists>i<length bs. BufferBucket_merge deps (bs ! i) = Inl err \<and> drop i bs' = drop i bs"
    by blast
next
  fix pre t p rest merged evicted logged b1 err bv2
  assume h: "bucketsMap b = pre @ (t, p) # rest
      \<and> tickLoop deps blockStates pre b (0, [], []) = ((merged, evicted, logged), b1)
      \<and> \<not> ((WarmRetrievable (blockStateAt blockStates t)
              \<or> ColdVersion (blockStateAt blockStates t) > 0)
            \<and> BufferBucketVersions_streamsLen deps
                 (tickEvict (heap b1 p) (blockStateAt blockStates t)) = 0)
      \<and> BufferBucketVersions_merge deps
           (tickEvict (heap b1 p) (blockStateAt blockStates t)) WarmWrite = (Inl err, bv2)"
  then have bm: "bucketsMap b = pre @ (t, p) # rest"
    and pre: "tickLoop deps blockStates pre b (0, [], []) = ((merged, evicted, logged), b1)"
    and ne: "\<not> ((WarmRetrievable (blockStateAt blockStates t)
              \<or> ColdVersion (blockStateAt blockStates t) > 0)
            \<and> BufferBucketVersions_streamsLen deps
                 (tickEvict (heap b1 p) (blockStateAt blockStates t)) = 0)"
    and m: "BufferBucketVersions_merge deps
           (tickEvict (heap b1 p) (blockStateAt blockStates t)) WarmWrite = (Inl err, bv2)"
    by simp_all
  have "Tick deps b blockStates =
      tickLoop deps blockStates ((t, p) # rest) b1 (merged, evicted, logged)"
    by (simp add: Tick_def bm tickLoop_append pre)
  also have "\<dots> =
      tickLoop deps blockStates rest (storeAt b1 p bv2) (merged, evicted, logged @ [err])"
    by (rule tickLoop_merge_error[OF ne m])
  finally show tk: "Tick deps b blockStates =
      tickLoop deps blockStates rest (storeAt b1 p bv2) (merged, evicted, logged @ [err])" .
  obtain m' e' l' b' where res: "tickLoop deps blockStates rest (storeAt b1 p bv2)
      (merged, evicted, logged @ [err]) = ((m', e', l'), b')"
    by (metis prod.exhaust)
  from tickLoop_logged[OF res] obtain l2 where "l' = (logged @ [err]) @ l2" by blast
  with tk res show "err \<in> set (snd (snd (fst (Tick deps b blockStates))))" by simp
  obtain bs' where mb: "mergeBuckets deps WarmWrite
      (buckets (tickEvict (heap b1 p) (blockStateAt blockStates t))) = (Inl err, bs')"
    and bv2: "bv2 = (tickEvict (heap b1 p) (blockStateAt blockStates t))\<lparr>buckets := bs'\<rparr>"
    using m by (auto simp: BufferBucketVersions_merge_def split: prod.splits)
  from mergeBuckets_keeps[OF mb] bv2
  show "map version (buckets bv2) =
      map version (buckets (tickEvict (heap b1 p) (blockStateAt blockStates t)))"
    by simp
qed

lemma example_tick_merge_fails:
  "BufferBucketVersions_merge exampleFailingDeps
     (tickEvict (heap exampleTwoEncodersBuffer 0) (blockStateAt Map.empty 100)) WarmWrite =
   (Inl (External ''encode failed''), heap exampleTwoEncodersBuffer 0)"
  "\<not> (WarmRetrievable (blockStateAt Map.empty 100) \<or> ColdVersion (blockStateAt Map.empty 100) > 0)"
proof -
  have w: "version exampleTwoEncoders = writableBucketVersion"
    "writeType exampleTwoEncoders = WarmWrite"
    by (simp_all add: exampleTwoEncoders_def writableBucketVersion_def)
  show ne: "\<not> (WarmRetrievable (blockStateAt Map.empty 100)
      \<or> ColdVersion (blockStateAt Map.empty 100) > 0)"
    by (simp add: blockStateAt_def)
  have te: "tickEvict (heap exampleTwoEncodersBuffer 0) (blockStateAt Map.empty 100) =
      heap exampleTwoEncodersBuffer 0"
    by (rule tickEvict_not_eligible[OF ne])
  from w example_merge_two_fails(2)
  show "BufferBucketVersions_merge exampleFailingDeps
     (tickEvict (heap exampleTwoEncodersBuffer 0) (blockStateAt Map.empty 100)) WarmWrite =
   (Inl (External ''encode failed''), heap exampleTwoEncodersBuffer 0)"
    unfolding te by (simp add: BufferBucketVersions_merge_def exampleTwoEncodersBuffer_at)
qed

theorem merge_failure_semantics_witness:
  "mergeToStream exampleFailingDeps exampleTwoEncoders =
     (Inl (External ''encode failed''),
      exampleTwoEncoders\<lparr>encoders := [], bootstrapped := []\<rparr>)
   \<and> WarmFlush exampleFailingDeps exampleTwoEncodersBuffer 100 examplePersistFn =
       ((FlushOutcomeErr, Some (External ''encode failed''), []),
        storeAt exampleTwoEncodersBuffer 0
          \<lparr>buckets = [exampleTwoEncoders\<lparr>encoders := [], bootstrapped := []\<rparr>],
           bvStart = 100, lastReadUnixNanos = 0\<rparr>)
   \<and> Tick exampleFailingDeps exampleTwoEncodersBuffer Map.empty =
       ((0, [], [External ''encode failed'']),
        storeAt exampleTwoEncodersBuffer 0 (heap exampleTwoEncodersBuffer 0))
   \<and> External ''encode failed''
       \<in> set (snd (snd (fst (Tick exampleFailingDeps exampleTwoEncodersBuffer Map.empty))))"
proof -
  note inst = merge_failure_semantics[where deps = exampleFailingDeps
      and b = exampleTwoEncodersBuffer and blockStart = 100 and persistFn = examplePersistFn
      and blockStates = Map.empty]
  from inst[THEN conjunct1] example_merge_two_fails
  have c1: "mergeToStream exampleFailingDeps exampleTwoEncoders =
     (Inl (External ''encode failed''),
      exampleTwoEncoders\<lparr>encoders := [], bootstrapped := []\<rparr>)"
    by blast
  from inst[THEN conjunct2, THEN conjunct2, THEN conjunct1]
    exampleTwoEncodersBuffer_at(1) example_mergeToStreams_fails
  have c3: "WarmFlush exampleFailingDeps exampleTwoEncodersBuffer 100 examplePersistFn =
       ((FlushOutcomeErr, Some (External ''encode failed''), []),
        storeAt exampleTwoEncodersBuffer 0
          \<lparr>buckets = [exampleTwoEncoders\<lparr>encoders := [], bootstrapped := []\<rparr>],
           bvStart = 100, lastReadUnixNanos = 0\<rparr>)"
    by blast
  have bm: "bucketsMap exampleTwoEncodersBuffer = [] @ (100, 0) # []"
    by (simp add: exampleTwoEncodersBuffer_at)
  have pre: "tickLoop exampleFailingDeps Map.empty [] exampleTwoEncodersBuffer (0, [], []) =
      ((0, [], []), exampleTwoEncodersBuffer)"
    by simp
  note tick = inst[THEN conjunct2, THEN conjunct2, THEN conjunct2, THEN conjunct2,
      THEN conjunct2, THEN conjunct2, THEN conjunct2, rule_format,
      of "[]" 100 0 "[]" 0 "[]" "[]" exampleTwoEncodersBuffer
        "External ''encode failed''" "heap exampleTwoEncodersBuffer 0"]
  from tick bm pre example_tick_merge_fails
  have c8: "Tick exampleFailingDeps exampleTwoEncodersBuffer Map.empty =
      tickLoop exampleFailingDeps Map.empty []
        (storeAt exampleTwoEncodersBuffer 0 (heap exampleTwoEncodersBuffer 0))
        (0, [], [] @ [External ''encode failed''])
     \<and> External ''encode failed''
       \<in> set (snd (snd (fst (Tick exampleFailingDeps exampleTwoEncodersBuffer Map.empty))))"
    by blast
  from c1 c3 c8 show ?thesis by simp
qed

text \<open>
  The claim C3 as stated fails on the bucket with two encoders when the encoder refuses
  the merged datapoints: the flush returns the error, and the bucket has lost its
  encoders.
\<close>

theorem WarmFlush_failed_merge_counterexample:
  "fst (WarmFlush exampleFailingDeps exampleTwoEncodersBuffer 100 examplePersistFn) =
     (FlushOutcomeErr, Some (External ''encode failed''), [])
   \<and> map encoders (buckets (heap exampleTwoEncodersBuffer 0)) =
       [[\<lparr>encoder = [\<lparr>Timestamp = 105, Value = 1\<rparr>], lastWriteAt = 105\<rparr>,
         \<lparr>encoder = [\<lparr>Timestamp = 105, Value = 2\<rparr>], lastWriteAt = 105\<rparr>]]
   \<and> map encoders (buckets (heap
         (snd (WarmFlush exampleFailingDeps exampleTwoEncodersBuffer 100 examplePersistFn)) 0)) =
       [[]]"
proof -
  have "WarmFlush exampleFailingDeps exampleTwoEncodersBuffer 100 examplePersistFn =
       ((FlushOutcomeErr, Some (External ''encode failed''), []),
        storeAt exampleTwoEncodersBuffer 0
          \<lparr>buckets = [exampleTwoEncoders\<lparr>encoders := [], bootstrapped := []\<rparr>],
           bvStart = 100, lastReadUnixNanos = 0\<rparr>)"
    by (rule WarmFlush_merge_error[OF exampleTwoEncodersBuffer_at(1) example_mergeToStreams_fails])
  then show ?thesis
    by (simp add: storeAt_def exampleTwoEncodersBuffer_at(2)) (simp add: exampleTwoEncoders_def)
qed

subsection \<open>Coherence of the map, the sorted list and the cache\<close>

lemma update_missing: "k \<notin> fst ` set m \<Longrightarrow> AList.update k v m = m @ [(k, v)]"
  by (induction m) auto

lemma inOrderBlockStartsAdd_set:
  "set (inOrderBlockStartsAdd xs t) = insert t (set xs)"
proof -
  have "set xs = set (takeWhile (\<lambda>x. \<not> x > t) xs @ dropWhile (\<lambda>x. \<not> x > t) xs)"
    by simp
  then show ?thesis
    unfolding inOrderBlockStartsAdd_def by (simp only: set_append set_simps) blast
qed

lemma inOrderBlockStartsAdd_sorted:
  "sorted xs \<Longrightarrow> sorted (inOrderBlockStartsAdd xs t)"
proof (induction xs)
  case Nil
  then show ?case by (simp add: inOrderBlockStartsAdd_def)
next
  case (Cons a xs)
  show ?case
  proof (cases "a > t")
    case True
    with Cons.prems show ?thesis by (auto simp: inOrderBlockStartsAdd_def)
  next
    case False
    from Cons have s: "sorted (inOrderBlockStartsAdd xs t)" by simp
    from False have eq: "inOrderBlockStartsAdd (a # xs) t = a # inOrderBlockStartsAdd xs t"
      by (simp add: inOrderBlockStartsAdd_def)
    from Cons.prems False have "\<forall>y\<in>set (inOrderBlockStartsAdd xs t). a \<le> y"
      by (auto simp: inOrderBlockStartsAdd_set)
    with s eq show ?thesis by simp
  qed
qed

lemma inOrderBlockStartsAdd_distinct:
  "distinct xs \<Longrightarrow> t \<notin> set xs \<Longrightarrow> distinct (inOrderBlockStartsAdd xs t)"
proof -
  assume d: "distinct xs" and n: "t \<notin> set xs"
  have "distinct (takeWhile (\<lambda>x. \<not> x > t) xs @ dropWhile (\<lambda>x. \<not> x > t) xs)"
    using d by simp
  moreover have "t \<notin> set (takeWhile (\<lambda>x. \<not> x > t) xs)" "t \<notin> set (dropWhile (\<lambda>x. \<not> x > t) xs)"
    using n by (auto dest: set_takeWhileD set_dropWhileD)
  ultimately show ?thesis
    unfolding inOrderBlockStartsAdd_def by (simp only: distinct_append distinct.simps set_simps) blast
qed

lemma lastIndexFrom_absent:
  "x \<notin> set ys \<Longrightarrow> lastIndexFrom x ys i acc = acc"
  by (induction ys arbitrary: i acc) auto

lemma lastIndexFrom_Some:
  "lastIndexFrom x ys i acc = Some j \<Longrightarrow>
     (acc = Some j \<and> x \<notin> set ys) \<or> (i \<le> j \<and> j - i < length ys \<and> ys ! (j - i) = x)"
proof (induction ys arbitrary: i acc)
  case Nil
  then show ?case by simp
next
  case (Cons y ys)
  from Cons.prems have "lastIndexFrom x ys (Suc i) (if y = x then Some i else acc) = Some j"
    by simp
  from Cons.IH[OF this] show ?case
  proof
    assume a: "(if y = x then Some i else acc) = Some j \<and> x \<notin> set ys"
    show ?thesis
    proof (cases "y = x")
      case True
      with a show ?thesis by simp
    next
      case False
      with a show ?thesis by simp
    qed
  next
    assume a: "Suc i \<le> j \<and> j - Suc i < length ys \<and> ys ! (j - Suc i) = x"
    then have "j - i = Suc (j - Suc i)" by arith
    with a show ?thesis by simp
  qed
qed

lemma lastIndexFrom_None:
  "lastIndexFrom x ys i acc = None \<Longrightarrow> x \<notin> set ys \<and> acc = None"
proof (induction ys arbitrary: i acc)
  case Nil
  then show ?case by simp
next
  case (Cons y ys)
  from Cons.prems have "lastIndexFrom x ys (Suc i) (if y = x then Some i else acc) = None"
    by simp
  from Cons.IH[OF this] show ?case by (cases "y = x") simp_all
qed

lemma remove_nth_distinct:
  assumes d: "distinct (filter (\<lambda>c. c \<noteq> None) c)" and j: "j < length c"
    and cj: "c ! j = Some p"
  shows "Some p \<notin> set (take j c @ drop (Suc j) c)"
    and "distinct (filter (\<lambda>c. c \<noteq> None) (take j c @ drop (Suc j) c))"
    and "set (take j c @ drop (Suc j) c) \<subseteq> set c"
proof -
  from j have c: "c = take j c @ c ! j # drop (Suc j) c" by (rule id_take_nth_drop)
  have "distinct (filter (\<lambda>c. c \<noteq> None) (take j c @ c ! j # drop (Suc j) c))"
    using d c by simp
  with cj have dd: "distinct (filter (\<lambda>c. c \<noteq> None) (take j c)
      @ Some p # filter (\<lambda>c. c \<noteq> None) (drop (Suc j) c))"
    by simp
  from dd show "Some p \<notin> set (take j c @ drop (Suc j) c)" by auto
  from dd show "distinct (filter (\<lambda>c. c \<noteq> None) (take j c @ drop (Suc j) c))" by auto
  show "set (take j c @ drop (Suc j) c) \<subseteq> set c"
    by (auto dest: in_set_takeD in_set_dropD)
qed

lemma putBucketVersionsInCache_cache:
  assumes len: "length (bucketVersionsCache b) = bucketsCacheSize"
    and d: "distinct (filter (\<lambda>c. c \<noteq> None) (bucketVersionsCache b))"
  shows "length (bucketVersionsCache (putBucketVersionsInCache b p)) = bucketsCacheSize"
    and "distinct (filter (\<lambda>c. c \<noteq> None) (bucketVersionsCache (putBucketVersionsInCache b p)))"
    and "set (bucketVersionsCache (putBucketVersionsInCache b p))
           \<subseteq> insert (Some p) (set (bucketVersionsCache b))"
proof -
  let ?c = "bucketVersionsCache b"
  let ?r = "case lastIndexFrom (Some p) ?c 0 None of None \<Rightarrow> bucketsCacheSize - 1 | Some i \<Rightarrow> i"
  have c': "bucketVersionsCache (putBucketVersionsInCache b p) =
      Some p # take ?r ?c @ drop (Suc ?r) ?c"
    by (simp add: putBucketVersionsInCache_def Let_def)
  have r: "?r < length ?c \<and> Some p \<notin> set (take ?r ?c @ drop (Suc ?r) ?c)
      \<and> distinct (filter (\<lambda>c. c \<noteq> None) (take ?r ?c @ drop (Suc ?r) ?c))"
  proof (cases "lastIndexFrom (Some p) ?c 0 None")
    case None
    from lastIndexFrom_None[OF None] have np: "Some p \<notin> set ?c" by simp
    from None len have r: "?r = bucketsCacheSize - 1" "?r < length ?c"
      by (simp_all add: bucketsCacheSize_def)
    have sub: "set (take ?r ?c @ drop (Suc ?r) ?c) \<subseteq> set ?c"
      by (auto dest: in_set_takeD in_set_dropD)
    have "filter (\<lambda>c. c \<noteq> None) ?c =
        filter (\<lambda>c. c \<noteq> None) (take ?r ?c @ ?c ! ?r # drop (Suc ?r) ?c)"
      using id_take_nth_drop[OF r(2)] by simp
    with d have "distinct (filter (\<lambda>c. c \<noteq> None) (take ?r ?c @ ?c ! ?r # drop (Suc ?r) ?c))"
      by simp
    then have "distinct (filter (\<lambda>c. c \<noteq> None) (take ?r ?c @ drop (Suc ?r) ?c))"
      by (auto split: if_splits)
    with r np sub show ?thesis by blast
  next
    case (Some j)
    from lastIndexFrom_Some[OF Some] have j: "j < length ?c" "?c ! j = Some p" by auto
    from remove_nth_distinct[OF d j] Some j show ?thesis by simp
  qed
  from r len show "length (bucketVersionsCache (putBucketVersionsInCache b p)) = bucketsCacheSize"
    unfolding c' by simp
  from r show "distinct (filter (\<lambda>c. c \<noteq> None)
      (bucketVersionsCache (putBucketVersionsInCache b p)))"
    unfolding c' by simp
  show "set (bucketVersionsCache (putBucketVersionsInCache b p))
           \<subseteq> insert (Some p) (set (bucketVersionsCache b))"
    unfolding c' by (auto dest: in_set_takeD in_set_dropD)
qed

lemma putBucketVersionsInCache_frame:
  "heap (putBucketVersionsInCache b p) = heap b"
  "nextPtr (putBucketVersionsInCache b p) = nextPtr b"
  "bucketsMap (putBucketVersionsInCache b p) = bucketsMap b"
  "inOrderBlockStarts (putBucketVersionsInCache b p) = inOrderBlockStarts b"
  "blockSize (putBucketVersionsInCache b p) = blockSize b"
  by (simp_all add: putBucketVersionsInCache_def Let_def)

lemma removeBucketVersionsInCache_cache:
  assumes len: "length (bucketVersionsCache b) = bucketsCacheSize"
    and d: "distinct (filter (\<lambda>c. c \<noteq> None) (bucketVersionsCache b))"
  shows "length (bucketVersionsCache (removeBucketVersionsInCache b p)) = bucketsCacheSize
     \<and> distinct (filter (\<lambda>c. c \<noteq> None) (bucketVersionsCache (removeBucketVersionsInCache b p)))
     \<and> set (bucketVersionsCache (removeBucketVersionsInCache b p))
           \<subseteq> insert None (set (bucketVersionsCache b) - {Some p})"
proof (cases "lastIndexFrom (Some p) (bucketVersionsCache b) 0 None")
  case None
  from lastIndexFrom_None[OF None] have np: "Some p \<notin> set (bucketVersionsCache b)" by simp
  from None have same: "removeBucketVersionsInCache b p = b"
    by (simp add: removeBucketVersionsInCache_def Let_def)
  from np len d show ?thesis unfolding same by auto
next
  case (Some j)
  let ?c = "bucketVersionsCache b"
  from lastIndexFrom_Some[OF Some] have j: "j < length ?c" "?c ! j = Some p" by auto
  from Some have c': "bucketVersionsCache (removeBucketVersionsInCache b p) =
      take j ?c @ drop (Suc j) ?c @ [None]"
    by (simp add: removeBucketVersionsInCache_def Let_def)
  note r = remove_nth_distinct[OF d j]
  from j len have l: "length (take j ?c @ drop (Suc j) ?c @ [None]) = bucketsCacheSize"
    by simp
  from r(2) have dd: "distinct (filter (\<lambda>c. c \<noteq> None) (take j ?c @ drop (Suc j) ?c @ [None]))"
    by simp
  from r(1) r(3) have ss: "set (take j ?c @ drop (Suc j) ?c @ [None])
         \<subseteq> insert None (set ?c - {Some p})"
    by auto
  from l dd ss show ?thesis unfolding c' by blast
qed

lemma removeBucketVersionsInCache_frame:
  "heap (removeBucketVersionsInCache b p) = heap b"
  "nextPtr (removeBucketVersionsInCache b p) = nextPtr b"
  "bucketsMap (removeBucketVersionsInCache b p) = bucketsMap b"
  "inOrderBlockStarts (removeBucketVersionsInCache b p) = inOrderBlockStarts b"
  "blockSize (removeBucketVersionsInCache b p) = blockSize b"
  by (simp_all add: removeBucketVersionsInCache_def Let_def split: option.splits)

lemma coherentD:
  assumes "coherent b"
  shows "distinct (map fst (bucketsMap b))"
    and "distinct (map snd (bucketsMap b))"
    and "\<And>t p. (t, p) \<in> set (bucketsMap b) \<Longrightarrow> p < nextPtr b \<and> bvStart (heap b p) = t"
    and "sorted (inOrderBlockStarts b)"
    and "distinct (inOrderBlockStarts b)"
    and "set (inOrderBlockStarts b) = fst ` set (bucketsMap b)"
    and "length (bucketVersionsCache b) = bucketsCacheSize"
    and "distinct (filter (\<lambda>c. c \<noteq> None) (bucketVersionsCache b))"
    and "set (bucketVersionsCache b) \<subseteq> insert None (Some ` snd ` set (bucketsMap b))"
  using assms unfolding coherent_def by blast+

lemma coherentI:
  assumes "distinct (map fst (bucketsMap b))"
    and "distinct (map snd (bucketsMap b))"
    and "\<And>t p. (t, p) \<in> set (bucketsMap b) \<Longrightarrow> p < nextPtr b \<and> bvStart (heap b p) = t"
    and "sorted (inOrderBlockStarts b)"
    and "distinct (inOrderBlockStarts b)"
    and "set (inOrderBlockStarts b) = fst ` set (bucketsMap b)"
    and "length (bucketVersionsCache b) = bucketsCacheSize"
    and "distinct (filter (\<lambda>c. c \<noteq> None) (bucketVersionsCache b))"
    and "set (bucketVersionsCache b) \<subseteq> insert None (Some ` snd ` set (bucketsMap b))"
  shows "coherent b"
  using assms unfolding coherent_def by blast

lemma coherent_bucketVersionsAt:
  assumes c: "coherent b"
  shows "bucketVersionsAt b t = map_of (bucketsMap b) t"
proof (cases "find (\<lambda>c. case c of None \<Rightarrow> False | Some p \<Rightarrow> bvStart (heap b p) = t)
               (bucketVersionsCache b)")
  case None
  then show ?thesis by (simp add: bucketVersionsAt_def)
next
  case (Some e)
  then have mem: "e \<in> set (bucketVersionsCache b)"
    and pr: "(case e of None \<Rightarrow> False | Some p \<Rightarrow> bvStart (heap b p) = t)"
    by (auto simp: find_Some_iff)
  from pr obtain p where e: "e = Some p" and st: "bvStart (heap b p) = t"
    by (cases e) auto
  from mem e coherentD(9)[OF c] have "p \<in> snd ` set (bucketsMap b)" by auto
  then obtain t' where in_map: "(t', p) \<in> set (bucketsMap b)" by force
  from coherentD(3)[OF c in_map] st have "t' = t" by simp
  with in_map coherentD(1)[OF c] have "map_of (bucketsMap b) t = Some p" by simp
  with Some e show ?thesis by (simp add: bucketVersionsAt_def)
qed

lemma coherent_heap_cong:
  assumes c: "coherent b"
    and "nextPtr b' = nextPtr b" "bucketsMap b' = bucketsMap b"
    and "inOrderBlockStarts b' = inOrderBlockStarts b"
    and "bucketVersionsCache b' = bucketVersionsCache b"
    and h: "\<And>t p. (t, p) \<in> set (bucketsMap b) \<Longrightarrow> bvStart (heap b' p) = bvStart (heap b p)"
  shows "coherent b'"
proof (rule coherentI)
  fix t p
  assume "(t, p) \<in> set (bucketsMap b')"
  with assms(3) have m: "(t, p) \<in> set (bucketsMap b)" by simp
  from coherentD(3)[OF c m] h[OF m] assms(2)
  show "p < nextPtr b' \<and> bvStart (heap b' p) = t" by simp
qed (use assms coherentD[OF c] in simp_all)

lemma coherent_storeAt:
  assumes c: "coherent b" and s: "bvStart bv = bvStart (heap b p)"
  shows "coherent (storeAt b p bv)"
  by (rule coherent_heap_cong[OF c]) (use s in \<open>simp_all add: storeAt_def\<close>)

lemma storeAt_frame:
  "nextPtr (storeAt b p bv) = nextPtr b"
  "bucketsMap (storeAt b p bv) = bucketsMap b"
  "inOrderBlockStarts (storeAt b p bv) = inOrderBlockStarts b"
  "bucketVersionsCache (storeAt b p bv) = bucketVersionsCache b"
  "blockSize (storeAt b p bv) = blockSize b"
  "heap (storeAt b p bv) p = bv"
  "q \<noteq> p \<Longrightarrow> heap (storeAt b p bv) q = heap b q"
  by (simp_all add: storeAt_def)

lemma coherent_new: "coherent (newDatabaseBuffer blockSz past future cold retention futureRetention)"
  by (auto simp: coherent_def newDatabaseBuffer_def)

lemma coherent_Reset:
  "coherent b \<Longrightarrow> coherent (Reset b blockSz past future cold retention futureRetention)"
  by (simp add: coherent_def Reset_def)

lemma bucketVersionsAtCreate_coherent:
  assumes c: "coherent b" and cr: "bucketVersionsAtCreate b t = (p, b1)"
  shows "coherent b1" and "(t, p) \<in> set (bucketsMap b1)" and "blockSize b1 = blockSize b"
proof -
  show "coherent b1 " "(t, p) \<in> set (bucketsMap b1)" "blockSize b1 = blockSize b"
  proof (atomize (full), cases "bucketVersionsAt b t")
    case (Some q)
    with cr have "p = q" "b1 = b" by (simp_all add: bucketVersionsAtCreate_def)
    moreover from Some coherent_bucketVersionsAt[OF c] have "map_of (bucketsMap b) t = Some q"
      by simp
    then have "(t, q) \<in> set (bucketsMap b)" by (rule map_of_SomeD)
    ultimately show "coherent b1 \<and> (t, p) \<in> set (bucketsMap b1) \<and> blockSize b1 = blockSize b"
      using c by simp
  next
    case None
    with coherent_bucketVersionsAt[OF c] have "map_of (bucketsMap b) t = None" by simp
    then have nk: "t \<notin> fst ` set (bucketsMap b)" by (simp add: map_of_eq_None_iff)
    from None cr have p: "p = nextPtr b"
      and b1: "b1 = b\<lparr>heap := (heap b)(nextPtr b := BufferBucketVersions_resetTo t),
             nextPtr := Suc (nextPtr b),
             bucketsMap := bucketsMap b @ [(t, nextPtr b)],
             inOrderBlockStarts := inOrderBlockStartsAdd (inOrderBlockStarts b) t\<rparr>"
      by (auto simp: bucketVersionsAtCreate_def update_missing[OF nk])
    note d = coherentD[OF c]
    have fresh: "nextPtr b \<notin> snd ` set (bucketsMap b)"
    proof
      assume "nextPtr b \<in> snd ` set (bucketsMap b)"
      then obtain t' where "(t', nextPtr b) \<in> set (bucketsMap b)" by force
      from d(3)[OF this] show False by simp
    qed
    have "coherent b1"
    proof (rule coherentI)
      show "distinct (map fst (bucketsMap b1))" using d(1) nk by (simp add: b1)
      show "distinct (map snd (bucketsMap b1))" using d(2) fresh by (simp add: b1)
      show "sorted (inOrderBlockStarts b1)"
        using d(4) by (simp add: b1 inOrderBlockStartsAdd_sorted)
      show "distinct (inOrderBlockStarts b1)"
        using d(5) d(6) nk by (simp add: b1 inOrderBlockStartsAdd_distinct)
      show "set (inOrderBlockStarts b1) = fst ` set (bucketsMap b1)"
        using d(6) by (simp add: b1 inOrderBlockStartsAdd_set)
      show "length (bucketVersionsCache b1) = bucketsCacheSize" using d(7) by (simp add: b1)
      show "distinct (filter (\<lambda>c. c \<noteq> None) (bucketVersionsCache b1))"
        using d(8) by (simp add: b1)
      show "set (bucketVersionsCache b1) \<subseteq> insert None (Some ` snd ` set (bucketsMap b1))"
        using d(9) by (auto simp: b1)
    next
      fix t' q
      assume "(t', q) \<in> set (bucketsMap b1)"
      then have "(t', q) \<in> set (bucketsMap b) \<or> (t' = t \<and> q = nextPtr b)"
        by (auto simp: b1)
      then show "q < nextPtr b1 \<and> bvStart (heap b1 q) = t'"
      proof
        assume m: "(t', q) \<in> set (bucketsMap b)"
        from d(3)[OF m] show ?thesis by (auto simp: b1)
      next
        assume "t' = t \<and> q = nextPtr b"
        then show ?thesis by (simp add: b1 BufferBucketVersions_resetTo_def)
      qed
    qed
    then show "coherent b1 \<and> (t, p) \<in> set (bucketsMap b1) \<and> blockSize b1 = blockSize b"
      by (simp add: b1 p)
  qed
qed

lemma putBucketVersionsInCache_coherent:
  assumes c: "coherent b" and p: "p \<in> snd ` set (bucketsMap b)"
  shows "coherent (putBucketVersionsInCache b p)"
proof (rule coherentI)
  note d = coherentD[OF c]
  note f = putBucketVersionsInCache_frame[of b p]
  note k = putBucketVersionsInCache_cache[OF d(7) d(8), of p]
  show "distinct (map fst (bucketsMap (putBucketVersionsInCache b p)))" using d(1) by (simp add: f)
  show "distinct (map snd (bucketsMap (putBucketVersionsInCache b p)))" using d(2) by (simp add: f)
  show "sorted (inOrderBlockStarts (putBucketVersionsInCache b p))" using d(4) by (simp add: f)
  show "distinct (inOrderBlockStarts (putBucketVersionsInCache b p))" using d(5) by (simp add: f)
  show "set (inOrderBlockStarts (putBucketVersionsInCache b p)) =
      fst ` set (bucketsMap (putBucketVersionsInCache b p))" using d(6) by (simp add: f)
  show "length (bucketVersionsCache (putBucketVersionsInCache b p)) = bucketsCacheSize"
    by (rule k(1))
  show "distinct (filter (\<lambda>c. c \<noteq> None) (bucketVersionsCache (putBucketVersionsInCache b p)))"
    by (rule k(2))
  show "set (bucketVersionsCache (putBucketVersionsInCache b p))
      \<subseteq> insert None (Some ` snd ` set (bucketsMap (putBucketVersionsInCache b p)))"
    using k(3) d(9) p by (auto simp: f)
  fix t q
  assume "(t, q) \<in> set (bucketsMap (putBucketVersionsInCache b p))"
  then have "(t, q) \<in> set (bucketsMap b)" by (simp add: f)
  from d(3)[OF this] show "q < nextPtr (putBucketVersionsInCache b p)
      \<and> bvStart (heap (putBucketVersionsInCache b p) q) = t"
    by (simp add: f)
qed

lemma distinct_snd_key:
  assumes "distinct (map snd m)" and "(t, p) \<in> set m" and "(t', p) \<in> set m"
  shows "t' = t"
proof -
  from assms(1) have "inj_on snd (set m)" by (simp add: distinct_map)
  from inj_onD[OF this, of "(t, p)" "(t', p)"] assms(2,3) show ?thesis by simp
qed

lemma removeBucketVersionsAt_coherent:
  assumes c: "coherent b"
  shows "coherent (removeBucketVersionsAt b t)"
    and "set (bucketsMap (removeBucketVersionsAt b t)) = {x \<in> set (bucketsMap b). fst x \<noteq> t}"
    and "blockSize (removeBucketVersionsAt b t) = blockSize b"
proof -
  note d = coherentD[OF c]
  show "coherent (removeBucketVersionsAt b t)"
    "set (bucketsMap (removeBucketVersionsAt b t)) = {x \<in> set (bucketsMap b). fst x \<noteq> t}"
    "blockSize (removeBucketVersionsAt b t) = blockSize b"
  proof (atomize (full), cases "bucketVersionsAt b t")
    case None
    with coherent_bucketVersionsAt[OF c] have "map_of (bucketsMap b) t = None" by simp
    then have "t \<notin> fst ` set (bucketsMap b)" by (simp add: map_of_eq_None_iff)
    then have "{x \<in> set (bucketsMap b). fst x \<noteq> t} = set (bucketsMap b)" by force
    with None c show "coherent (removeBucketVersionsAt b t)
      \<and> set (bucketsMap (removeBucketVersionsAt b t)) = {x \<in> set (bucketsMap b). fst x \<noteq> t}
      \<and> blockSize (removeBucketVersionsAt b t) = blockSize b"
      by (simp add: removeBucketVersionsAt_def)
  next
    case (Some p)
    with coherent_bucketVersionsAt[OF c] have "map_of (bucketsMap b) t = Some p" by simp
    then have tp: "(t, p) \<in> set (bucketsMap b)" by (rule map_of_SomeD)
    let ?m = "AList.delete t (bucketsMap b)"
    let ?b1 = "b\<lparr>bucketsMap := ?m\<rparr>"
    let ?b2 = "removeBucketVersionsInCache ?b1 p"
    let ?r = "removeBucketVersionsAt b t"
    have len1: "length (bucketVersionsCache ?b1) = bucketsCacheSize"
      and dis1: "distinct (filter (\<lambda>c. c \<noteq> None) (bucketVersionsCache ?b1))"
      using d(7) d(8) by simp_all
    note k = removeBucketVersionsInCache_cache[OF len1 dis1, of p]
    note f = removeBucketVersionsInCache_frame[of ?b1 p]
    have r_map: "bucketsMap ?r = ?m"
      and r_cache: "bucketVersionsCache ?r = bucketVersionsCache ?b2"
      and r_starts: "inOrderBlockStarts ?r = remove1 t (inOrderBlockStarts b)"
      and r_next: "nextPtr ?r = nextPtr b"
      and r_heap: "heap ?r = (heap b)(p := BufferBucketVersions_resetTo timeZero)"
      and r_size: "blockSize ?r = blockSize b"
      using Some
      by (simp_all add: removeBucketVersionsAt_def Let_def f inOrderBlockStartsRemove_def)
    have m_set: "set ?m = {x \<in> set (bucketsMap b). fst x \<noteq> t}"
      by (auto simp: AList.delete_eq)
    have p_gone: "p \<notin> snd ` set ?m"
    proof
      assume "p \<in> snd ` set ?m"
      then obtain t' where "(t', p) \<in> set ?m" by force
      with m_set have "(t', p) \<in> set (bucketsMap b)" "t' \<noteq> t" by auto
      with distinct_snd_key[OF d(2) tp] show False by blast
    qed
    have "coherent ?r"
    proof (rule coherentI)
      show "distinct (map fst (bucketsMap ?r))"
        unfolding r_map using d(1) by (rule distinct_delete)
      show "distinct (map snd (bucketsMap ?r))"
        unfolding r_map using d(2) by (simp add: AList.delete_eq distinct_map_filter)
      show "sorted (inOrderBlockStarts ?r)"
        unfolding r_starts using d(4) by (rule sorted_remove1)
      show "distinct (inOrderBlockStarts ?r)"
        unfolding r_starts using d(5) by simp
      show "set (inOrderBlockStarts ?r) = fst ` set (bucketsMap ?r)"
        unfolding r_starts r_map using d(5) d(6) m_set by (auto simp: image_iff)
      show "length (bucketVersionsCache ?r) = bucketsCacheSize"
        unfolding r_cache using k by simp
      show "distinct (filter (\<lambda>c. c \<noteq> None) (bucketVersionsCache ?r))"
        unfolding r_cache using k by simp
      show "set (bucketVersionsCache ?r) \<subseteq> insert None (Some ` snd ` set (bucketsMap ?r))"
      proof
        fix e
        assume "e \<in> set (bucketVersionsCache ?r)"
        with k have e: "e = None \<or> (e \<in> set (bucketVersionsCache b) \<and> e \<noteq> Some p)"
          unfolding r_cache by auto
        show "e \<in> insert None (Some ` snd ` set (bucketsMap ?r))"
        proof (cases e)
          case None
          then show ?thesis by simp
        next
          case (Some q)
          with e have "Some q \<in> set (bucketVersionsCache b)" "q \<noteq> p" by auto
          with d(9) have "q \<in> snd ` set (bucketsMap b)" by auto
          then obtain t' where tq: "(t', q) \<in> set (bucketsMap b)" by force
          have "t' \<noteq> t"
          proof
            assume "t' = t"
            with tq tp d(1) have "q = p" by (metis map_of_is_SomeI option.inject)
            with \<open>q \<noteq> p\<close> show False by simp
          qed
          with tq m_set have "(t', q) \<in> set ?m" by simp
          then have "q \<in> snd ` set ?m" by force
          with Some show ?thesis by (simp add: r_map)
        qed
      qed
    next
      fix t' q
      assume "(t', q) \<in> set (bucketsMap ?r)"
      then have in_m: "(t', q) \<in> set ?m" by (simp add: r_map)
      with m_set have tq: "(t', q) \<in> set (bucketsMap b)" by simp
      from in_m p_gone have "q \<noteq> p" by force
      with d(3)[OF tq] show "q < nextPtr ?r \<and> bvStart (heap ?r q) = t'"
        by (simp add: r_next r_heap)
    qed
    with m_set r_map r_size
    show "coherent ?r \<and> set (bucketsMap ?r) = {x \<in> set (bucketsMap b). fst x \<noteq> t}
      \<and> blockSize ?r = blockSize b"
      by simp
  qed
qed

lemma writableBucketCreate_bvStart:
  "writableBucketCreate deps bv wt = (i, bv1) \<Longrightarrow> bvStart bv1 = bvStart bv"
  by (auto simp: writableBucketCreate_def split: option.splits)

lemma BufferBucketVersions_write_bvStart:
  "BufferBucketVersions_write deps blockSz bv ts v wt = (r, bv') \<Longrightarrow> bvStart bv' = bvStart bv"
  by (auto simp: BufferBucketVersions_write_def dest: writableBucketCreate_bvStart
      split: prod.splits)

lemma BufferBucketVersions_bootstrap_bvStart:
  "bvStart (BufferBucketVersions_bootstrap deps bv bl) = bvStart bv"
  by (auto simp: BufferBucketVersions_bootstrap_def dest: writableBucketCreate_bvStart
      split: prod.splits)

lemma tickEvict_bvStart: "bvStart (tickEvict bv st) = bvStart bv"
  by (simp add: tickEvict_def removeBucketsUpToVersion_def Let_def)

lemma BufferBucketVersions_merge_bvStart:
  "BufferBucketVersions_merge deps bv wt = (r, bv') \<Longrightarrow> bvStart bv' = bvStart bv"
  by (auto simp: BufferBucketVersions_merge_def split: prod.splits)

lemma setLastRead_bvStart: "bvStart (setLastRead bv t) = bvStart bv"
  by (simp add: setLastRead_def)

lemma in_map_pointer:
  "(t, p) \<in> set m \<Longrightarrow> p \<in> snd ` set m"
  by force

lemma Write_coherent:
  assumes c: "coherent b"
  shows "coherent (snd (Write deps b now timestamp v wOpts))"
proof (cases "classifyWrite b now timestamp")
  case (Pair wt eo)
  show ?thesis
  proof (cases eo)
    case (Some err)
    with Pair c show ?thesis by (simp add: Write_def)
  next
    case None
    obtain p b1 where cr: "bucketVersionsAtCreate b (Truncate timestamp (blockSize b)) = (p, b1)"
      by (cases "bucketVersionsAtCreate b (Truncate timestamp (blockSize b))")
    note k = bucketVersionsAtCreate_coherent[OF c cr]
    let ?b2 = "putBucketVersionsInCache b1 p"
    have c2: "coherent ?b2"
      by (rule putBucketVersionsInCache_coherent[OF k(1) in_map_pointer[OF k(2)]])
    obtain r bv' where w: "BufferBucketVersions_write deps (blockSize ?b2) (heap ?b2 p)
        (if TruncateType wOpts = TypeBlock then Truncate timestamp (blockSize b) else timestamp)
        (if ForceValueEnabled wOpts then ForceValue wOpts else v) wt = (r, bv')"
      by (cases "BufferBucketVersions_write deps (blockSize ?b2) (heap ?b2 p)
        (if TruncateType wOpts = TypeBlock then Truncate timestamp (blockSize b) else timestamp)
        (if ForceValueEnabled wOpts then ForceValue wOpts else v) wt")
    from Pair None cr w have "snd (Write deps b now timestamp v wOpts) = storeAt ?b2 p bv'"
      by (simp add: Write_def Let_def storeAt_def)
    with coherent_storeAt[OF c2 BufferBucketVersions_write_bvStart[OF w]]
    show ?thesis by simp
  qed
qed

lemma Bootstrap_coherent:
  assumes c: "coherent b"
  shows "coherent (Bootstrap deps b bl)"
proof -
  obtain p b1 where cr: "bucketVersionsAtCreate b (blockStartTime deps bl) = (p, b1)"
    by (cases "bucketVersionsAtCreate b (blockStartTime deps bl)")
  note k = bucketVersionsAtCreate_coherent[OF c cr]
  from cr have "Bootstrap deps b bl =
      storeAt b1 p (BufferBucketVersions_bootstrap deps (heap b1 p) bl)"
    by (simp add: Bootstrap_def storeAt_def)
  with coherent_storeAt[OF k(1) BufferBucketVersions_bootstrap_bvStart]
  show ?thesis by simp
qed

lemma WarmFlush_coherent:
  assumes c: "coherent b"
  shows "coherent (snd (WarmFlush deps b blockStart persistFn))"
proof -
  obtain outcome err calls b' where wf:
    "WarmFlush deps b blockStart persistFn = ((outcome, err, calls), b')"
    by (cases "WarmFlush deps b blockStart persistFn") auto
  show ?thesis
  proof (cases "bucketVersionsAt b blockStart")
    case None
    with wf c show ?thesis by (simp add: WarmFlush_def)
  next
    case (Some p)
    obtain r bv1 where m: "mergeToStreams deps (heap b p)
        \<lparr>filterWriteType = True, filterType = WarmWrite\<rparr> = (r, bv1)"
      by (cases "mergeToStreams deps (heap b p) \<lparr>filterWriteType = True, filterType = WarmWrite\<rparr>")
    note sh = WarmFlush_shape[OF wf Some m]
    have "bvStart (if outcome = FlushOutcomeFlushedToDisk
            then (case writableBucket (buckets bv1) WarmWrite of
                    None \<Rightarrow> bv1 | Some i \<Rightarrow> setVersion bv1 i 1)
            else bv1) = bvStart (heap b p)"
      using mergeToStreams_keeps(4)[OF m] by (simp add: setVersion_simps split: option.splits)
    from coherent_storeAt[OF c this] sh wf show ?thesis by simp
  qed
qed

lemma Snapshot_coherent:
  assumes c: "coherent b"
  shows "coherent (snd (Snapshot deps b blockStart persistFn))"
proof -
  obtain r b' where sn: "Snapshot deps b blockStart persistFn = (r, b')"
    by (cases "Snapshot deps b blockStart persistFn")
  from Snapshot_store[OF sn] have "coherent b'"
  proof
    assume "b' = b"
    with c show ?thesis by simp
  next
    assume "\<exists>p r1 bv1. mergeToStreams deps (heap b p)
             \<lparr>filterWriteType = False, filterType = WarmWrite\<rparr> = (r1, bv1)
           \<and> b' = storeAt b p bv1"
    then obtain p r1 bv1 where m: "mergeToStreams deps (heap b p)
             \<lparr>filterWriteType = False, filterType = WarmWrite\<rparr> = (r1, bv1)"
      and b': "b' = storeAt b p bv1" by blast
    from coherent_storeAt[OF c mergeToStreams_keeps(4)[OF m]] b' show ?thesis by simp
  qed
  with sn show ?thesis by simp
qed

lemma FetchBlocksForColdFlush_coherent:
  assumes c: "coherent b"
  shows "coherent (snd (FetchBlocksForColdFlush deps b st ver))"
proof -
  have "snd (FetchBlocksForColdFlush deps b st ver) = b
      \<or> (\<exists>p i. snd (FetchBlocksForColdFlush deps b st ver) =
            storeAt b p (setVersion (heap b p) i ver))"
    by (auto simp: FetchBlocksForColdFlush_def Let_def split: option.splits)
  then show ?thesis
  proof
    assume "snd (FetchBlocksForColdFlush deps b st ver) = b"
    with c show ?thesis by simp
  next
    assume "\<exists>p i. snd (FetchBlocksForColdFlush deps b st ver) =
            storeAt b p (setVersion (heap b p) i ver)"
    then obtain p i where e: "snd (FetchBlocksForColdFlush deps b st ver) =
            storeAt b p (setVersion (heap b p) i ver)" by blast
    from coherent_storeAt[OF c setVersion_simps(4)] show ?thesis unfolding e .
  qed
qed

lemma readEncodedLoop_coherent:
  "coherent b \<Longrightarrow> coherent (snd (readEncodedLoop deps now st en starts b res))"
proof (induction starts arbitrary: b res)
  case Nil
  then show ?case by simp
next
  case (Cons t starts)
  show ?case
  proof (cases "\<not> t < en \<or> \<not> st < t + blockSize b")
    case True
    with Cons show ?thesis by simp
  next
    case False
    show ?thesis
    proof (cases "bucketVersionsAt b t")
      case None
      with False Cons.prems show ?thesis by simp
    next
      case (Some p)
      have "coherent (storeAt b p (setLastRead (heap b p) now))"
        by (rule coherent_storeAt[OF Cons.prems setLastRead_bvStart])
      from Cons.IH[OF this] False Some show ?thesis by (simp add: Let_def)
    qed
  qed
qed

lemma ReadEncoded_coherent:
  "coherent b \<Longrightarrow> coherent (snd (ReadEncoded deps b now st en))"
  by (simp add: ReadEncoded_def readEncodedLoop_coherent)

lemma tickLoop_Cons:
  "tickLoop deps blockStates ((t, p) # rest) b (merged, evicted, logged) =
     (if (WarmRetrievable (blockStateAt blockStates t) \<or> ColdVersion (blockStateAt blockStates t) > 0)
         \<and> BufferBucketVersions_streamsLen deps
              (tickEvict (heap b p) (blockStateAt blockStates t)) = 0
      then tickLoop deps blockStates rest
             (removeBucketVersionsAt
                (storeAt b p (tickEvict (heap b p) (blockStateAt blockStates t))) t)
             (merged, evicted @ [t], logged)
      else (case BufferBucketVersions_merge deps
                   (tickEvict (heap b p) (blockStateAt blockStates t)) WarmWrite of
              (Inl err, bv2) \<Rightarrow>
                tickLoop deps blockStates rest (storeAt b p bv2) (merged, evicted, logged @ [err])
            | (Inr merges, bv2) \<Rightarrow>
                tickLoop deps blockStates rest (storeAt b p bv2)
                  (if merges > 0 then merged + 1 else merged, evicted, logged)))"
proof (cases "WarmRetrievable (blockStateAt blockStates t)
    \<or> ColdVersion (blockStateAt blockStates t) > 0")
  case True
  then show ?thesis by (simp add: Let_def storeAt_storeAt split: prod.splits sum.splits)
next
  case False
  from tickEvict_not_eligible[OF False]
  have te: "tickEvict (heap b p) (blockStateAt blockStates t) = heap b p" .
  from False show ?thesis unfolding te
    by (simp add: Let_def storeAt_storeAt split: prod.splits sum.splits)
qed

lemma tickLoop_coherent:
  "coherent b \<Longrightarrow> set es \<subseteq> set (bucketsMap b) \<Longrightarrow> distinct (map fst es) \<Longrightarrow>
     coherent (snd (tickLoop deps blockStates es b res))"
proof (induction es arbitrary: b res)
  case Nil
  then show ?case by simp
next
  case (Cons a es)
  obtain t p where a: "a = (t, p)" by (cases a)
  obtain merged evicted logged where res: "res = (merged, evicted, logged)" by (cases res)
  let ?st = "blockStateAt blockStates t"
  let ?el = "WarmRetrievable ?st \<or> ColdVersion ?st > 0"
  let ?bv1 = "tickEvict (heap b p) ?st"
  let ?b1 = "storeAt b p ?bv1"
  have s1: "bvStart ?bv1 = bvStart (heap b p)" by (simp add: tickEvict_bvStart)
  have c1: "coherent ?b1" by (rule coherent_storeAt[OF Cons.prems(1) s1])
  have es_sub: "set es \<subseteq> set (bucketsMap b)" using Cons.prems(2) by simp
  have es_d: "distinct (map fst es)" using Cons.prems(3) by simp
  have t_fresh: "t \<notin> fst ` set es" using Cons.prems(3) a by simp
  show ?case
  proof (cases "?el \<and> BufferBucketVersions_streamsLen deps ?bv1 = 0")
    case True
    let ?b2 = "removeBucketVersionsAt ?b1 t"
    note k = removeBucketVersionsAt_coherent[OF c1, of t]
    have "set es \<subseteq> set (bucketsMap ?b2)"
    proof
      fix x
      assume x: "x \<in> set es"
      with es_sub have "x \<in> set (bucketsMap b)" by blast
      moreover from x t_fresh have "fst x \<noteq> t" by force
      ultimately show "x \<in> set (bucketsMap ?b2)"
        unfolding k(2) by (simp add: storeAt_frame)
    qed
    from Cons.IH[OF k(1) this es_d, of "(merged, evicted @ [t], logged)"]
    show ?thesis unfolding a res tickLoop_Cons if_P[OF True] .
  next
    case False
    obtain r bv2 where m: "BufferBucketVersions_merge deps ?bv1 WarmWrite = (r, bv2)"
      by (cases "BufferBucketVersions_merge deps ?bv1 WarmWrite")
    have "bvStart bv2 = bvStart (heap b p)"
      using BufferBucketVersions_merge_bvStart[OF m] s1 by simp
    from coherent_storeAt[OF Cons.prems(1) this] have c2: "coherent (storeAt b p bv2)" .
    have sub2: "set es \<subseteq> set (bucketsMap (storeAt b p bv2))"
      using es_sub by (simp add: storeAt_frame)
    show ?thesis
    proof (cases r)
      case (Inl e)
      from Cons.IH[OF c2 sub2 es_d, of "(merged, evicted, logged @ [e])"] m Inl
      show ?thesis unfolding a res tickLoop_Cons if_not_P[OF False] by simp
    next
      case (Inr n)
      from Cons.IH[OF c2 sub2 es_d,
          of "(if n > 0 then merged + 1 else merged, evicted, logged)"] m Inr
      show ?thesis unfolding a res tickLoop_Cons if_not_P[OF False] by simp
    qed
  qed
qed

lemma Tick_coherent:
  "coherent b \<Longrightarrow> coherent (snd (Tick deps b blockStates))"
  unfolding Tick_def
  by (rule tickLoop_coherent) (simp_all add: coherentD(1))

lemma applyOperation_coherent:
  "coherent b \<Longrightarrow> coherent (applyOperation deps b op)"
  by (cases op)
     (simp_all add: Write_coherent Bootstrap_coherent Tick_coherent Snapshot_coherent
        WarmFlush_coherent ReadEncoded_coherent FetchBlocksForColdFlush_coherent coherent_Reset)

lemma applyOperations_coherent:
  "coherent b \<Longrightarrow> coherent (foldl (applyOperation deps) b ops)"
  by (induction ops arbitrary: b) (simp_all add: applyOperation_coherent)

lemma readEncodedLoop_step:
  "bucketVersionsAt (storeAt b p (setLastRead (heap b p) now)) t = bucketVersionsAt b t"
  "blockSize (storeAt b p (setLastRead (heap b p) now)) = blockSize b"
  by (simp_all add: bucketVersionsAt_storeAt setLastRead_bvStart storeAt_frame)

lemma readEncodedLoop_error_is:
  "fst (readEncodedLoop deps now st en starts b res) = Inl e \<Longrightarrow>
     \<exists>t\<in>set starts. e = errBucketMapCacheNotInSync t \<and> t < en \<and> st < t + blockSize b
        \<and> bucketVersionsAt b t = None"
proof (induction starts arbitrary: b res)
  case Nil
  then show ?case by simp
next
  case (Cons t starts)
  show ?case
  proof (cases "\<not> t < en \<or> \<not> st < t + blockSize b")
    case True
    with Cons.prems have "fst (readEncodedLoop deps now st en starts b res) = Inl e" by simp
    from Cons.IH[OF this] show ?thesis by auto
  next
    case False
    show ?thesis
    proof (cases "bucketVersionsAt b t")
      case None
      with False Cons.prems show ?thesis by auto
    next
      case (Some p)
      let ?b' = "storeAt b p (setLastRead (heap b p) now)"
      from False Some Cons.prems obtain res' where
        "fst (readEncodedLoop deps now st en starts ?b' res') = Inl e"
        by (auto simp: Let_def split: if_splits)
      from Cons.IH[OF this] show ?thesis by (auto simp: readEncodedLoop_step)
    qed
  qed
qed

lemma readEncodedLoop_error:
  "(\<exists>e. fst (readEncodedLoop deps now st en starts b res) = Inl e) \<longleftrightarrow>
     (\<exists>t\<in>set starts. t < en \<and> st < t + blockSize b \<and> bucketVersionsAt b t = None)"
proof (induction starts arbitrary: b res)
  case Nil
  then show ?case by simp
next
  case (Cons t starts)
  show ?case
  proof (cases "\<not> t < en \<or> \<not> st < t + blockSize b")
    case True
    then have "readEncodedLoop deps now st en (t # starts) b res =
        readEncodedLoop deps now st en starts b res" by simp
    with Cons.IH[of b res] True show ?thesis by auto
  next
    case False
    show ?thesis
    proof (cases "bucketVersionsAt b t")
      case None
      with False show ?thesis by auto
    next
      case (Some p)
      let ?b' = "storeAt b p (setLastRead (heap b p) now)"
      let ?res' = "if length (BufferBucketVersions_streams deps (blockSize b) (heap b p)
                              \<lparr>filterWriteType = False, filterType = WarmWrite\<rparr>) > 0
                   then res @ [BufferBucketVersions_streams deps (blockSize b) (heap b p)
                              \<lparr>filterWriteType = False, filterType = WarmWrite\<rparr>]
                   else res"
      from False Some have eq: "readEncodedLoop deps now st en (t # starts) b res =
          readEncodedLoop deps now st en starts ?b' ?res'"
        by (simp add: Let_def)
      from Cons.IH[of ?b' ?res'] Some show ?thesis
        unfolding eq by (auto simp: readEncodedLoop_step)
    qed
  qed
qed

lemma bucketVersionsAt_None_iff:
  "bucketVersionsAt b t = None \<longleftrightarrow>
     map_of (bucketsMap b) t = None
     \<and> (\<forall>c\<in>set (bucketVersionsCache b). case c of None \<Rightarrow> True | Some p \<Rightarrow> bvStart (heap b p) \<noteq> t)"
proof (cases "find (\<lambda>c. case c of None \<Rightarrow> False | Some p \<Rightarrow> bvStart (heap b p) = t)
               (bucketVersionsCache b)")
  case None
  then have "\<forall>c\<in>set (bucketVersionsCache b).
      \<not> (case c of None \<Rightarrow> False | Some p \<Rightarrow> bvStart (heap b p) = t)"
    by (simp add: find_None_iff)
  then have "\<forall>c\<in>set (bucketVersionsCache b).
      case c of None \<Rightarrow> True | Some p \<Rightarrow> bvStart (heap b p) \<noteq> t"
    by (auto split: option.splits)
  with None show ?thesis by (simp add: bucketVersionsAt_def)
next
  case (Some e)
  then have mem: "e \<in> set (bucketVersionsCache b)"
    and pr: "(case e of None \<Rightarrow> False | Some p \<Rightarrow> bvStart (heap b p) = t)"
    by (auto simp: find_Some_iff)
  from pr obtain p where e: "e = Some p" and st: "bvStart (heap b p) = t"
    by (cases e) auto
  from Some e have "bucketVersionsAt b t = Some p" by (simp add: bucketVersionsAt_def)
  moreover from mem e st have "\<not> (\<forall>c\<in>set (bucketVersionsCache b).
      case c of None \<Rightarrow> True | Some p \<Rightarrow> bvStart (heap b p) \<noteq> t)"
    by force
  ultimately show ?thesis by simp
qed

lemma coherent_ReadEncoded:
  assumes c: "coherent b"
  shows "\<exists>res. fst (ReadEncoded deps b now st en) = Inr res"
proof (cases "fst (ReadEncoded deps b now st en)")
  case (Inl e)
  then have "\<exists>e. fst (readEncodedLoop deps now st en (inOrderBlockStarts b) b []) = Inl e"
    by (auto simp: ReadEncoded_def)
  then obtain t where t: "t \<in> set (inOrderBlockStarts b)" and n: "bucketVersionsAt b t = None"
    unfolding readEncodedLoop_error by blast
  from t coherentD(6)[OF c] have "t \<in> fst ` set (bucketsMap b)" by simp
  then have "map_of (bucketsMap b) t \<noteq> None" by (simp add: map_of_eq_None_iff)
  with n coherent_bucketVersionsAt[OF c] show ?thesis by simp
next
  case (Inr res)
  then show ?thesis by blast
qed

text \<open>
  Claim C6, as the code has it. A new buffer is coherent, and every operation that
  writes to the buffer keeps it coherent; so is the buffer after any sequence of
  operations. In a coherent buffer the keys of \<open>bucketsMap\<close> are the entries of the sorted
  list \<open>inOrderBlockStarts\<close>; the cache holds only objects of the map, at most
  \<open>bucketsCacheSize\<close> of them (not all of them: \<^verbatim>\<open>Bootstrap\<close> does not put its object in
  the cache, and the cache has two slots); \<^verbatim>\<open>bucketVersionsAt\<close> agrees with the map, and
  \<^verbatim>\<open>ReadEncoded\<close> returns no error. In any buffer, \<^verbatim>\<open>ReadEncoded(start, end)\<close> returns an
  error exactly when some block start of the sorted list that overlaps \<open>[start, end)\<close> is
  found neither in the cache nor in the map; the error is
  \<^verbatim>\<open>errBucketMapCacheNotInSync\<close> for such a block start.
\<close>

theorem buffer_coherence:
  fixes deps :: "('e, 's, 'b) bufferDeps" and b :: "('e, 'b) dbBuffer"
  shows "coherent (newDatabaseBuffer blockSz past future cold retention futureRetention
                     :: ('e, 'b) dbBuffer)
       \<and> (coherent b \<longrightarrow> coherent (applyOperation deps b op))
       \<and> coherent (foldl (applyOperation deps)
            (newDatabaseBuffer blockSz past future cold retention futureRetention) ops)
       \<and> (coherent b \<longrightarrow>
            fst ` set (bucketsMap b) = set (inOrderBlockStarts b)
            \<and> sorted (inOrderBlockStarts b) \<and> distinct (inOrderBlockStarts b)
            \<and> length (bucketVersionsCache b) = bucketsCacheSize
            \<and> set (bucketVersionsCache b) \<subseteq> insert None (Some ` snd ` set (bucketsMap b))
            \<and> (\<forall>t. bucketVersionsAt b t = map_of (bucketsMap b) t)
            \<and> (\<exists>res. fst (ReadEncoded deps b now st en) = Inr res))
       \<and> ((\<exists>e. fst (ReadEncoded deps b now st en) = Inl e) \<longleftrightarrow>
            (\<exists>t\<in>set (inOrderBlockStarts b). t < en \<and> st < t + blockSize b
                \<and> bucketVersionsAt b t = None))
       \<and> (\<forall>e. fst (ReadEncoded deps b now st en) = Inl e \<longrightarrow>
            (\<exists>t\<in>set (inOrderBlockStarts b). e = errBucketMapCacheNotInSync t
                \<and> t < en \<and> st < t + blockSize b \<and> bucketVersionsAt b t = None))
       \<and> (\<forall>t. bucketVersionsAt b t = None \<longleftrightarrow>
            map_of (bucketsMap b) t = None
            \<and> (\<forall>c\<in>set (bucketVersionsCache b).
                  case c of None \<Rightarrow> True | Some p \<Rightarrow> bvStart (heap b p) \<noteq> t))"
proof -
  have c1: "coherent (newDatabaseBuffer blockSz past future cold retention futureRetention
                     :: ('e, 'b) dbBuffer)"
    by (rule coherent_new)
  have c2: "coherent b \<longrightarrow> coherent (applyOperation deps b op)"
    by (simp add: applyOperation_coherent)
  have c3: "coherent (foldl (applyOperation deps)
            (newDatabaseBuffer blockSz past future cold retention futureRetention) ops)"
    by (rule applyOperations_coherent[OF coherent_new])
  have c4: "coherent b \<longrightarrow>
            fst ` set (bucketsMap b) = set (inOrderBlockStarts b)
            \<and> sorted (inOrderBlockStarts b) \<and> distinct (inOrderBlockStarts b)
            \<and> length (bucketVersionsCache b) = bucketsCacheSize
            \<and> set (bucketVersionsCache b) \<subseteq> insert None (Some ` snd ` set (bucketsMap b))
            \<and> (\<forall>t. bucketVersionsAt b t = map_of (bucketsMap b) t)
            \<and> (\<exists>res. fst (ReadEncoded deps b now st en) = Inr res)"
  proof
    assume c: "coherent b"
    note d = coherentD[OF c]
    from d(6) d(4) d(5) d(7) d(9) coherent_bucketVersionsAt[OF c] coherent_ReadEncoded[OF c]
    show "fst ` set (bucketsMap b) = set (inOrderBlockStarts b)
            \<and> sorted (inOrderBlockStarts b) \<and> distinct (inOrderBlockStarts b)
            \<and> length (bucketVersionsCache b) = bucketsCacheSize
            \<and> set (bucketVersionsCache b) \<subseteq> insert None (Some ` snd ` set (bucketsMap b))
            \<and> (\<forall>t. bucketVersionsAt b t = map_of (bucketsMap b) t)
            \<and> (\<exists>res. fst (ReadEncoded deps b now st en) = Inr res)"
      by simp
  qed
  have c5: "(\<exists>e. fst (ReadEncoded deps b now st en) = Inl e) \<longleftrightarrow>
            (\<exists>t\<in>set (inOrderBlockStarts b). t < en \<and> st < t + blockSize b
                \<and> bucketVersionsAt b t = None)"
    unfolding ReadEncoded_def by (rule readEncodedLoop_error)
  have c6: "\<forall>e. fst (ReadEncoded deps b now st en) = Inl e \<longrightarrow>
            (\<exists>t\<in>set (inOrderBlockStarts b). e = errBucketMapCacheNotInSync t
                \<and> t < en \<and> st < t + blockSize b \<and> bucketVersionsAt b t = None)"
    unfolding ReadEncoded_def using readEncodedLoop_error_is by blast
  have c7: "\<forall>t. bucketVersionsAt b t = None \<longleftrightarrow>
            map_of (bucketsMap b) t = None
            \<and> (\<forall>c\<in>set (bucketVersionsCache b).
                  case c of None \<Rightarrow> True | Some p \<Rightarrow> bvStart (heap b p) \<noteq> t)"
    using bucketVersionsAt_None_iff by blast
  show ?thesis
    by (rule conjI[OF c1 conjI[OF c2 conjI[OF c3 conjI[OF c4 conjI[OF c5 conjI[OF c6 c7]]]]]])
qed

lemma exampleWarmBuffer_coherent: "coherent exampleWarmBuffer"
  by (auto simp: coherent_def exampleWarmBuffer_def exampleBuffer_def newDatabaseBuffer_def
      bucketsCacheSize_def)

lemma exampleWarmBuffer_read:
  "fst (ReadEncoded exampleBufferDeps exampleWarmBuffer 100 100 110) =
     Inr [[\<lparr>SegmentReader = Some [\<lparr>Timestamp = 101, Value = 1\<rparr>], Start = 100, BlockSize = 10\<rparr>]]"
proof -
  have s: "inOrderBlockStarts exampleWarmBuffer = [100]" "blockSize exampleWarmBuffer = 10"
    by (simp_all add: exampleWarmBuffer_def exampleBuffer_def newDatabaseBuffer_def)
  have streams: "BufferBucketVersions_streams exampleBufferDeps 10 (heap exampleWarmBuffer 0)
      \<lparr>filterWriteType = False, filterType = WarmWrite\<rparr> =
      [\<lparr>SegmentReader = Some [\<lparr>Timestamp = 101, Value = 1\<rparr>], Start = 100, BlockSize = 10\<rparr>]"
    by (simp add: BufferBucketVersions_streams_def exampleWarmBuffer_at(3) selected_def
        BufferBucket_streams_def List.map_filter_def exampleBufferDeps_sel exampleWarmBucket_def)
  show ?thesis
    by (simp add: ReadEncoded_def s exampleWarmBuffer_at(1) Let_def streams storeAt_frame)
qed

lemma exampleStaleBuffer_at:
  "inOrderBlockStarts exampleStaleBuffer = [100]"
  "bucketsMap exampleStaleBuffer = []"
  "bucketVersionsCache exampleStaleBuffer = [None, None]"
  "blockSize exampleStaleBuffer = 10"
  "bucketVersionsAt exampleStaleBuffer 100 = None"
  by (simp_all add: exampleStaleBuffer_def exampleBuffer_def newDatabaseBuffer_def
      bucketsCacheSize_def bucketVersionsAt_def numeral_2_eq_2)

theorem buffer_coherence_witness:
  "coherent exampleWarmBuffer
   \<and> coherent (applyOperation exampleBufferDeps exampleWarmBuffer
        (OpBootstrap (200, [\<lparr>Timestamp = 201, Value = 1\<rparr>])))
   \<and> coherent (foldl (applyOperation exampleBufferDeps) exampleBuffer
        [OpWrite 100 101 1 exampleWriteOptions,
         OpBootstrap (110, [\<lparr>Timestamp = 111, Value = 2\<rparr>]),
         OpTick (\<lambda>t. Some \<lparr>WarmRetrievable = True, ColdVersion = 0\<rparr>),
         OpReadEncoded 100 100 120])
   \<and> fst ` set (bucketsMap exampleWarmBuffer) = set (inOrderBlockStarts exampleWarmBuffer)
   \<and> fst (ReadEncoded exampleBufferDeps exampleWarmBuffer 100 100 110) =
       Inr [[\<lparr>SegmentReader = Some [\<lparr>Timestamp = 101, Value = 1\<rparr>], Start = 100,
              BlockSize = 10\<rparr>]]
   \<and> fst (ReadEncoded exampleBufferDeps exampleStaleBuffer 0 100 110) =
       Inl (errBucketMapCacheNotInSync 100)"
proof -
  note inst = buffer_coherence[where deps = exampleBufferDeps and b = exampleWarmBuffer
      and op = "OpBootstrap (200, [\<lparr>Timestamp = 201, Value = 1\<rparr>])"
      and blockSz = 10 and past = 3 and future = 3 and cold = False and retention = 100
      and futureRetention = 50
      and ops = "[OpWrite 100 101 1 exampleWriteOptions,
         OpBootstrap (110, [\<lparr>Timestamp = 111, Value = 2\<rparr>]),
         OpTick (\<lambda>t. Some \<lparr>WarmRetrievable = True, ColdVersion = 0\<rparr>),
         OpReadEncoded 100 100 120]"
      and now = 100 and st = 100 and en = 110]
  note stale = buffer_coherence[where deps = exampleBufferDeps and b = exampleStaleBuffer
      and op = "OpReadEncoded 0 100 110"
      and blockSz = 10 and past = 3 and future = 3 and cold = False and retention = 100
      and futureRetention = 50 and ops = "[]"
      and now = 0 and st = 100 and en = 110]
  from inst[THEN conjunct2, THEN conjunct1] exampleWarmBuffer_coherent
  have w1: "coherent (applyOperation exampleBufferDeps exampleWarmBuffer
        (OpBootstrap (200, [\<lparr>Timestamp = 201, Value = 1\<rparr>])))"
    by blast
  from inst[THEN conjunct2, THEN conjunct2, THEN conjunct1]
  have w2: "coherent (foldl (applyOperation exampleBufferDeps) exampleBuffer
        [OpWrite 100 101 1 exampleWriteOptions,
         OpBootstrap (110, [\<lparr>Timestamp = 111, Value = 2\<rparr>]),
         OpTick (\<lambda>t. Some \<lparr>WarmRetrievable = True, ColdVersion = 0\<rparr>),
         OpReadEncoded 100 100 120])"
    by (simp only: exampleBuffer_def)
  from inst[THEN conjunct2, THEN conjunct2, THEN conjunct2, THEN conjunct1]
    exampleWarmBuffer_coherent
  have w3: "fst ` set (bucketsMap exampleWarmBuffer) = set (inOrderBlockStarts exampleWarmBuffer)"
    by blast
  have ex: "\<exists>t\<in>set (inOrderBlockStarts exampleStaleBuffer).
      t < 110 \<and> 100 < t + blockSize exampleStaleBuffer
      \<and> bucketVersionsAt exampleStaleBuffer t = None"
    by (simp add: exampleStaleBuffer_at)
  from stale[THEN conjunct2, THEN conjunct2, THEN conjunct2, THEN conjunct2, THEN conjunct1] ex
  obtain e where e: "fst (ReadEncoded exampleBufferDeps exampleStaleBuffer 0 100 110) = Inl e"
    by blast
  from stale[THEN conjunct2, THEN conjunct2, THEN conjunct2, THEN conjunct2, THEN conjunct2,
      THEN conjunct1, rule_format, OF e]
  have "e = errBucketMapCacheNotInSync 100" by (simp add: exampleStaleBuffer_at)
  with e have w5: "fst (ReadEncoded exampleBufferDeps exampleStaleBuffer 0 100 110) =
       Inl (errBucketMapCacheNotInSync 100)" by simp
  from exampleWarmBuffer_coherent w1 w2 w3 exampleWarmBuffer_read w5 show ?thesis
    by (intro conjI)
qed

text \<open>
  The claim C6 as stated fails after a \<^verbatim>\<open>Bootstrap\<close> on the new buffer: the map and the
  sorted list hold the block start 100 and the cache holds nothing. It also fails on the
  buffer whose sorted list holds a block start that the map does not: a read of a range
  that does not overlap that block returns no error.
\<close>

theorem buffer_cache_subset_counterexample:
  "map fst (bucketsMap (Bootstrap exampleBufferDeps exampleBuffer
       (100, [\<lparr>Timestamp = 101, Value = 1\<rparr>]))) = [100]
   \<and> inOrderBlockStarts (Bootstrap exampleBufferDeps exampleBuffer
       (100, [\<lparr>Timestamp = 101, Value = 1\<rparr>])) = [100]
   \<and> bucketVersionsCache (Bootstrap exampleBufferDeps exampleBuffer
       (100, [\<lparr>Timestamp = 101, Value = 1\<rparr>])) = [None, None]
   \<and> inOrderBlockStarts exampleStaleBuffer = [100]
   \<and> bucketsMap exampleStaleBuffer = []
   \<and> ReadEncoded exampleBufferDeps exampleStaleBuffer 0 0 50 = (Inr [], exampleStaleBuffer)"
proof -
  have cr: "bucketVersionsAtCreate exampleBuffer 100 =
      (0, exampleBuffer\<lparr>heap := (heap exampleBuffer)(0 := BufferBucketVersions_resetTo 100),
             nextPtr := 1, bucketsMap := [(100, 0)], inOrderBlockStarts := [100]\<rparr>)"
    by (simp add: bucketVersionsAtCreate_def bucketVersionsAt_def exampleBuffer_def
        newDatabaseBuffer_def bucketsCacheSize_def numeral_2_eq_2 inOrderBlockStartsAdd_def)
  have boot: "map fst (bucketsMap (Bootstrap exampleBufferDeps exampleBuffer
       (100, [\<lparr>Timestamp = 101, Value = 1\<rparr>]))) = [100]
   \<and> inOrderBlockStarts (Bootstrap exampleBufferDeps exampleBuffer
       (100, [\<lparr>Timestamp = 101, Value = 1\<rparr>])) = [100]
   \<and> bucketVersionsCache (Bootstrap exampleBufferDeps exampleBuffer
       (100, [\<lparr>Timestamp = 101, Value = 1\<rparr>])) = [None, None]"
    by (simp add: Bootstrap_def exampleBufferDeps_sel cr)
      (simp add: exampleBuffer_def newDatabaseBuffer_def bucketsCacheSize_def numeral_2_eq_2)
  have rd: "ReadEncoded exampleBufferDeps exampleStaleBuffer 0 0 50 = (Inr [], exampleStaleBuffer)"
    by (simp add: ReadEncoded_def exampleStaleBuffer_at)
  from boot exampleStaleBuffer_at(1,2) rd show ?thesis by simp
qed

section \<open>Properties of the seeker manager\<close>

lemma length_seekersByTime:
  "sh < length (seekersByShardIdx (seekersByTime m sh))"
  by (simp add: seekersByTime_def)

lemma lookupSeekers_seekersByTime:
  "lookupSeekers (seekersByTime m sh) sh' t = lookupSeekers m sh' t"
proof (cases "sh < length (seekersByShardIdx m)")
  case True
  then show ?thesis by (simp add: seekersByTime_def)
next
  case False
  show ?thesis
  proof (cases "sh' < length (seekersByShardIdx m)")
    case True
    with False show ?thesis
      by (simp add: seekersByTime_def lookupSeekers_def nth_append)
  next
    case ge: False
    with False show ?thesis
      by (auto simp: seekersByTime_def lookupSeekers_def nth_append)
  qed
qed

lemma seekersByTime_other_fields:
  "closedSeekers (seekersByTime m sh) = closedSeekers m"
  "waitGroups (seekersByTime m sh) = waitGroups m"
  "status (seekersByTime m sh) = status m"
  "nextWaitGroup (seekersByTime m sh) = nextWaitGroup m"
  "isUpdatingLease (seekersByTime m sh) = isUpdatingLease m"
  "fetchConcurrency (seekersByTime m sh) = fetchConcurrency m"
  "namespace (seekersByTime m sh) = namespace m"
  by (simp_all add: seekersByTime_def)

lemma lookupSeekers_storeSeekers:
  "sh < length (seekersByShardIdx m) \<Longrightarrow>
   lookupSeekers (storeSeekers m sh t rs) sh' t' =
     (if sh' = sh \<and> t' = t then Some rs else lookupSeekers m sh' t')"
  by (auto simp: lookupSeekers_def storeSeekers_def update_conv' nth_list_update)



lemma findSeeker_None:
  "findSeeker sk xs = None \<longleftrightarrow> sk \<notin> seeker ` set xs"
  by (induction xs) auto

lemma clearBorrowed_length:
  "length (clearBorrowed xs i) = length xs"
  by (simp add: clearBorrowed_def)







lemma cloneLoop_success:
  "cloneLoop deps m sk k i acc = (Inr bs, m1) \<Longrightarrow> m1 = m"
proof (induction k arbitrary: i acc)
  case 0
  then show ?case by simp
next
  case (Suc k)
  show ?case
  proof (cases "ConcurrentClone deps sk i")
    case (Inl e)
    with Suc.prems show ?thesis by (simp add: closeAll_def)
  next
    case (Inr c)
    with Suc.prems have "cloneLoop deps m sk k (Suc i)
        (acc @ [\<lparr>seeker = c, isBorrowed = False\<rparr>]) = (Inr bs, m1)"
      by simp
    then show ?thesis by (rule Suc.IH)
  qed
qed

lemma seekersAndBloomFromSeeker_success:
  assumes "seekersAndBloomFromSeeker deps m sk v = (Inr new, m1)"
  shows "m1 = m"
proof -
  obtain r m2 where c: "cloneLoop deps m sk (nat (fetchConcurrency m - 1)) 0
      [\<lparr>seeker = sk, isBorrowed = False\<rparr>] = (r, m2)"
    by (cases "cloneLoop deps m sk (nat (fetchConcurrency m - 1)) 0
      [\<lparr>seeker = sk, isBorrowed = False\<rparr>]")
  show ?thesis
  proof (cases r)
    case (Inl e)
    with c assms show ?thesis by (simp add: seekersAndBloomFromSeeker_def)
  next
    case (Inr bs)
    with c assms have "m2 = m1" by (simp add: seekersAndBloomFromSeeker_def)
    with c Inr cloneLoop_success show ?thesis by blast
  qed
qed

lemma newSeekersAndBloom_success:
  assumes "newSeekersAndBloom deps m sh t v = (Inr new, m1)"
  shows "m1 = m"
proof (cases "newOpenSeekerFn deps sh t v")
  case (Inl e)
  with assms show ?thesis by (simp add: newSeekersAndBloom_def)
next
  case (Inr sk)
  with assms have "seekersAndBloomFromSeeker deps m sk v = (Inr new, m1)"
    by (simp add: newSeekersAndBloom_def)
  then show ?thesis by (rule seekersAndBloomFromSeeker_success)
qed

lemma lookupSeekers_cong:
  "seekersByShardIdx m1 = seekersByShardIdx m0 \<Longrightarrow> lookupSeekers m1 sh t = lookupSeekers m0 sh t"
  by (simp add: lookupSeekers_def)


lemma storeSeekers_other_fields:
  "closedSeekers (storeSeekers m sh t rs) = closedSeekers m"
  "waitGroups (storeSeekers m sh t rs) = waitGroups m"
  "status (storeSeekers m sh t rs) = status m"
  "nextWaitGroup (storeSeekers m sh t rs) = nextWaitGroup m"
  "isUpdatingLease (storeSeekers m sh t rs) = isUpdatingLease m"
  by (simp_all add: storeSeekers_def)

lemma hotSwap_out_of_order:
  assumes opened: "newSeekersAndBloom deps m (Shard d) (BlockStart d) (Volume st) = (Inr new, m1)"
    and entry: "lookupSeekers m (Shard d) (BlockStart d) = Some rs"
    and nowg: "wg (active rs) = None"
    and lt: "Volume st < volume (active rs)"
  shows "updateOpenLeaseHotSwapSeekers deps m d st =
     (Returns (Inl errOutOfOrderUpdateOpenLease),
      (seekersByTime m (Shard d))\<lparr>closedSeekers := closedSeekers m @ map seeker (seekers new)\<rparr>)"
proof -
  from newSeekersAndBloom_success[OF opened] have m1: "m1 = m" .
  have l0: "lookupSeekers (seekersByTime m (Shard d)) (Shard d) (BlockStart d) = Some rs"
    using entry by (simp add: lookupSeekers_seekersByTime)
  show ?thesis
    using opened m1 l0 nowg lt
    by (simp add: updateOpenLeaseHotSwapSeekers_def acquireByTimeLockWaitGroupAware_def
        closeAll_def seekersByTime_other_fields)
qed

lemma hotSwap_rotate:
  assumes opened: "newSeekersAndBloom deps m (Shard d) (BlockStart d) (Volume st) = (Inr new, m1)"
    and entry: "lookupSeekers m (Shard d) (BlockStart d) = Some rs"
    and nowg: "wg (active rs) = None"
    and ge: "volume (active rs) \<le> Volume st"
  shows "updateOpenLeaseHotSwapSeekers deps m d st =
     (if anyBorrowed (seekers (active rs)) then
        (Returns (Inr (Some (nextWaitGroup m), UpdateOpenLease)),
         storeSeekers
           ((seekersByTime m (Shard d))
              \<lparr>waitGroups := (waitGroups m)(nextWaitGroup m := 1),
               nextWaitGroup := Suc (nextWaitGroup m)\<rparr>)
           (Shard d) (BlockStart d)
           \<lparr>active = new, inactive = (active rs)\<lparr>wg := Some (nextWaitGroup m)\<rparr>\<rparr>)
      else
        (Returns (Inr (None, UpdateOpenLease)),
         storeSeekers (seekersByTime m (Shard d)) (Shard d) (BlockStart d)
           \<lparr>active = new, inactive = active rs\<rparr>))"
proof -
  from newSeekersAndBloom_success[OF opened] have m1: "m1 = m" .
  have l0: "lookupSeekers (seekersByTime m (Shard d)) (Shard d) (BlockStart d) = Some rs"
    using entry by (simp add: lookupSeekers_seekersByTime)
  show ?thesis
    using opened m1 l0 nowg ge
    by (cases rs)
      (simp add: updateOpenLeaseHotSwapSeekers_def acquireByTimeLockWaitGroupAware_def
        Let_def seekersByTime_other_fields)
qed

lemma closedSeekers_releaseEntry:
  "closedSeekers (releaseEntry deps rs m) = closedSeekers m @ entrySeekers rs"
  by (simp add: releaseEntry_def closeAll_def entrySeekers_def)

lemma closedSeekers_fold_releaseEntry:
  "closedSeekers (fold (\<lambda>e. releaseEntry deps (snd e)) es m) =
     closedSeekers m @ concat (map (\<lambda>e. entrySeekers (snd e)) es)"
  by (induction es arbitrary: m) (simp_all add: closedSeekers_releaseEntry)

lemma closedSeekers_fold_releaseByTime:
  "closedSeekers (fold (releaseByTime deps) bts m) =
     closedSeekers m @
       concat (map (\<lambda>byTime. concat (map (\<lambda>e. entrySeekers (snd e)) (seekersAt byTime))) bts)"
  by (induction bts arbitrary: m)
    (simp_all add: releaseByTime_def closedSeekers_fold_releaseEntry)

lemma status_releaseEntry:
  "status (releaseEntry deps rs m) = status m"
  by (simp add: releaseEntry_def closeAll_def)

lemma status_fold_releaseEntry:
  "status (fold (\<lambda>e. releaseEntry deps (snd e)) es m) = status m"
  by (induction es arbitrary: m) (simp_all add: status_releaseEntry)

lemma status_fold_releaseByTime:
  "status (fold (releaseByTime deps) bts m) = status m"
  by (induction bts arbitrary: m) (simp_all add: releaseByTime_def status_fold_releaseEntry)

lemma openCloseLoopRelease_closes:
  "closedSeekers (openCloseLoopRelease deps m) = closedSeekers m @ heldSeekers m"
  by (simp add: openCloseLoopRelease_def closedSeekers_fold_releaseByTime heldSeekers_def)

lemma openCloseLoopRelease_empties:
  "seekersByShardIdx (openCloseLoopRelease deps m) = []"
  "status (openCloseLoopRelease deps m) = status m"
  by (simp_all add: openCloseLoopRelease_def status_fold_releaseByTime)

lemma anyBorrowed_filter:
  "anyBorrowed xs \<longleftrightarrow> map seeker (filter isBorrowed xs) \<noteq> []"
  by (induction xs) (simp_all add: anyBorrowed_def)

lemma entryBorrowed_iff:
  "entryBorrowed rs \<longleftrightarrow> entryBorrowedSeekers rs \<noteq> []"
  by (simp add: entryBorrowed_def entryBorrowedSeekers_def anyBorrowed_filter)

lemma managerBorrowed_iff:
  "managerBorrowed m \<longleftrightarrow> borrowedSeekers m \<noteq> []"
  by (auto simp: managerBorrowed_def borrowedSeekers_def list_ex_iff entryBorrowed_iff)

lemma entryBorrowedSeekers_subset:
  "set (entryBorrowedSeekers rs) \<subseteq> set (entrySeekers rs)"
  by (auto simp: entryBorrowedSeekers_def entrySeekers_def)

lemma borrowedSeekers_subset:
  "set (borrowedSeekers m) \<subseteq> set (heldSeekers m)"
  using entryBorrowedSeekers_subset
  by (fastforce simp: borrowedSeekers_def heldSeekers_def)


lemma cloneLoop_success_any:
  "cloneLoop deps m sk k i acc = (Inr bs, m1) \<Longrightarrow> cloneLoop deps m' sk k i acc = (Inr bs, m')"
proof (induction k arbitrary: i acc)
  case 0
  then show ?case by simp
next
  case (Suc k)
  show ?case
  proof (cases "ConcurrentClone deps sk i")
    case (Inl e)
    with Suc.prems show ?thesis by (simp add: closeAll_def)
  next
    case (Inr c)
    with Suc.prems have "cloneLoop deps m sk k (Suc i)
        (acc @ [\<lparr>seeker = c, isBorrowed = False\<rparr>]) = (Inr bs, m1)"
      by simp
    from Suc.IH[OF this] Inr show ?thesis by simp
  qed
qed

lemma newSeekersAndBloom_success_any:
  assumes ok: "newSeekersAndBloom deps m sh t v = (Inr new, m1)"
    and fc: "fetchConcurrency m' = fetchConcurrency m"
  shows "newSeekersAndBloom deps m' sh t v = (Inr new, m')"
proof (cases "newOpenSeekerFn deps sh t v")
  case (Inl e)
  with ok show ?thesis by (simp add: newSeekersAndBloom_def)
next
  case (Inr sk)
  let ?n = "nat (fetchConcurrency m - 1)"
  let ?acc = "[\<lparr>seeker = sk, isBorrowed = False\<rparr>]"
  obtain r m2 where c: "cloneLoop deps m sk ?n 0 ?acc = (r, m2)"
    by (cases "cloneLoop deps m sk ?n 0 ?acc")
  show ?thesis
  proof (cases r)
    case (Inl e)
    with c ok Inr show ?thesis
      by (simp add: newSeekersAndBloom_def seekersAndBloomFromSeeker_def)
  next
    case bs: (Inr bs)
    from c bs have "cloneLoop deps m' sk ?n 0 ?acc = (Inr bs, m')"
      by (simp add: cloneLoop_success_any)
    with c bs ok Inr fc show ?thesis
      by (simp add: newSeekersAndBloom_def seekersAndBloomFromSeeker_def)
  qed
qed

lemma lookupSeekers_updating:
  "lookupSeekers (m\<lparr>isUpdatingLease := b\<rparr>) sh t = lookupSeekers m sh t"
  by (simp add: lookupSeekers_def)

lemma lookupSeekers_closed:
  "lookupSeekers (m\<lparr>closedSeekers := cs\<rparr>) sh t = lookupSeekers m sh t"
  by (simp add: lookupSeekers_def)

lemma lookupSeekers_waitGroups:
  "lookupSeekers (m\<lparr>waitGroups := ws, nextWaitGroup := n\<rparr>) sh t = lookupSeekers m sh t"
  by (simp add: lookupSeekers_def)

lemma length_updating:
  "length (seekersByShardIdx (m\<lparr>waitGroups := ws, nextWaitGroup := n\<rparr>)) = length (seekersByShardIdx m)"
  by simp

text \<open>
  Claim C2, as the code has it. With an existing entry (no opener at work on it) whose
  \<open>active.volume\<close> is strictly greater than \<open>state.Volume\<close>,
  \<^verbatim>\<open>UpdateOpenLease\<close> closes the seekers it has just opened, returns
  \<^verbatim>\<open>errOutOfOrderUpdateOpenLease\<close> and leaves every entry unchanged. With
  \<open>active.volume \<le> state.Volume\<close>, equality included, it rotates: the new seekers
  become active, the former active ones inactive, nothing is closed, and the call returns
  \<^verbatim>\<open>UpdateOpenLease\<close>, or waits on a new wait group when a former active seeker is still
  borrowed.
\<close>

theorem UpdateOpenLease_out_of_order:
  assumes st: "status m = seekerManagerOpen"
    and nu: "\<not> isUpdatingLease m"
    and ns: "namespace m = Namespace d"
    and opened: "newSeekersAndBloom deps m (Shard d) (BlockStart d) (Volume state) = (Inr new, m1)"
    and entry: "lookupSeekers m (Shard d) (BlockStart d) = Some rs"
    and nowg: "wg (active rs) = None"
  shows "(Volume state < volume (active rs) \<longrightarrow>
           fst (UpdateOpenLease_call deps m d state) = Returns (Inl errOutOfOrderUpdateOpenLease)
           \<and> closedSeekers (snd (UpdateOpenLease_call deps m d state)) =
               closedSeekers m @ map seeker (seekers new)
           \<and> (\<forall>sh t. lookupSeekers (snd (UpdateOpenLease_call deps m d state)) sh t =
                 lookupSeekers m sh t))
       \<and> (volume (active rs) \<le> Volume state \<longrightarrow>
           fst (UpdateOpenLease_call deps m d state) =
             (if anyBorrowed (seekers (active rs)) then Blocks (OnWaitGroup (nextWaitGroup m))
              else Returns (Inr UpdateOpenLease))
           \<and> lookupSeekers (snd (UpdateOpenLease_call deps m d state)) (Shard d) (BlockStart d) =
               Some \<lparr>active = new,
                     inactive = (if anyBorrowed (seekers (active rs))
                                 then (active rs)\<lparr>wg := Some (nextWaitGroup m)\<rparr>
                                 else active rs)\<rparr>
           \<and> closedSeekers (snd (UpdateOpenLease_call deps m d state)) = closedSeekers m)"
proof -
  let ?mu = "m\<lparr>isUpdatingLease := True\<rparr>"
  have blockStart: "startUpdateOpenLease m d = ((False, None), ?mu)"
    using st nu ns by (simp add: startUpdateOpenLease_def)
  have opened': "newSeekersAndBloom deps ?mu (Shard d) (BlockStart d) (Volume state) = (Inr new, ?mu)"
    by (rule newSeekersAndBloom_success_any[OF opened]) simp
  have entry': "lookupSeekers ?mu (Shard d) (BlockStart d) = Some rs"
    using entry by (simp add: lookupSeekers_updating)
  have lt_case: "Volume state < volume (active rs) \<Longrightarrow> ?thesis"
  proof -
    assume lt: "Volume state < volume (active rs)"
    have r: "UpdateOpenLease_call deps m d state =
        (Returns (Inl errOutOfOrderUpdateOpenLease),
         (seekersByTime ?mu (Shard d))
           \<lparr>closedSeekers := closedSeekers ?mu @ map seeker (seekers new),
            isUpdatingLease := False\<rparr>)"
      by (simp add: UpdateOpenLease_call_def blockStart hotSwap_out_of_order[OF opened' entry' nowg lt])
    show ?thesis
      using lt unfolding r
      by (simp add: lookupSeekers_updating lookupSeekers_closed lookupSeekers_seekersByTime)
  qed
  have ge_case: "volume (active rs) \<le> Volume state \<Longrightarrow> ?thesis"
  proof -
    assume ge: "volume (active rs) \<le> Volume state"
    note hs = hotSwap_rotate[OF opened' entry' nowg ge]
    show ?thesis
    proof (cases "anyBorrowed (seekers (active rs))")
      case True
      have r: "UpdateOpenLease_call deps m d state =
        (Blocks (OnWaitGroup (nextWaitGroup m)),
         storeSeekers
           ((seekersByTime ?mu (Shard d))
              \<lparr>waitGroups := (waitGroups ?mu)(nextWaitGroup ?mu := 1),
               nextWaitGroup := Suc (nextWaitGroup ?mu)\<rparr>)
           (Shard d) (BlockStart d)
           \<lparr>active = new, inactive = (active rs)\<lparr>wg := Some (nextWaitGroup ?mu)\<rparr>\<rparr>)"
        using True by (simp add: UpdateOpenLease_call_def blockStart hs storeSeekers_other_fields)
      show ?thesis
        using ge True unfolding r
        by (simp add: lookupSeekers_storeSeekers length_seekersByTime storeSeekers_other_fields
            seekersByTime_other_fields)
    next
      case False
      have r: "UpdateOpenLease_call deps m d state =
        (Returns (Inr UpdateOpenLease),
         (storeSeekers (seekersByTime ?mu (Shard d)) (Shard d) (BlockStart d)
           \<lparr>active = new, inactive = active rs\<rparr>)\<lparr>isUpdatingLease := False\<rparr>)"
        using False by (simp add: UpdateOpenLease_call_def blockStart hs)
      show ?thesis
        using ge False unfolding r
        by (simp add: lookupSeekers_updating lookupSeekers_storeSeekers length_seekersByTime
            storeSeekers_other_fields seekersByTime_other_fields)
    qed
  qed
  show ?thesis
  proof (cases "Volume state < volume (active rs)")
    case True
    then show ?thesis by (rule lt_case)
  next
    case False
    then have "volume (active rs) \<le> Volume state" by simp
    then show ?thesis by (rule ge_case)
  qed
qed

lemma example_opened:
  "newSeekersAndBloom exampleDeps exampleIdleManager 0 100 v =
     (Inr \<lparr>wg = None,
           seekers = [\<lparr>seeker = 200 + nat v, isBorrowed = False\<rparr>,
                      \<lparr>seeker = 1200 + nat v, isBorrowed = False\<rparr>],
           bloomFilter = Some (200 + nat v), volume = v\<rparr>, exampleIdleManager)"
proof -
  have n: "nat (fetchConcurrency exampleIdleManager - 1) = Suc 0"
    by (simp add: exampleIdleManager_def)
  show ?thesis
    by (simp add: newSeekersAndBloom_def seekersAndBloomFromSeeker_def n exampleDeps_def)
qed

lemma example_idle_lookup:
  "lookupSeekers exampleIdleManager 0 100 = Some exampleIdleEntry"
  by (simp add: lookupSeekers_def exampleIdleManager_def)

theorem UpdateOpenLease_out_of_order_witness:
  "fst (UpdateOpenLease_call exampleDeps exampleIdleManager exampleDescriptor \<lparr>Volume = 2\<rparr>)
     = Returns (Inl errOutOfOrderUpdateOpenLease)
   \<and> closedSeekers
       (snd (UpdateOpenLease_call exampleDeps exampleIdleManager exampleDescriptor \<lparr>Volume = 2\<rparr>))
     = [202, 1202]
   \<and> lookupSeekers
       (snd (UpdateOpenLease_call exampleDeps exampleIdleManager exampleDescriptor \<lparr>Volume = 2\<rparr>))
       0 100 = Some exampleIdleEntry"
proof -
  let ?new = "\<lparr>wg = None,
           seekers = [\<lparr>seeker = 202, isBorrowed = False\<rparr>, \<lparr>seeker = 1202, isBorrowed = False\<rparr>],
           bloomFilter = Some 202, volume = 2\<rparr>"
  have st: "status exampleIdleManager = seekerManagerOpen"
    by (simp add: exampleIdleManager_def)
  have nu: "\<not> isUpdatingLease exampleIdleManager"
    by (simp add: exampleIdleManager_def)
  have ns: "namespace exampleIdleManager = Namespace exampleDescriptor"
    by (simp add: exampleIdleManager_def exampleDescriptor_def)
  have opened: "newSeekersAndBloom exampleDeps exampleIdleManager (Shard exampleDescriptor)
      (BlockStart exampleDescriptor) (Volume \<lparr>Volume = 2\<rparr>) = (Inr ?new, exampleIdleManager)"
    using example_opened[of 2] by (simp add: exampleDescriptor_def)
  have entry: "lookupSeekers exampleIdleManager (Shard exampleDescriptor)
      (BlockStart exampleDescriptor) = Some exampleIdleEntry"
    by (simp add: example_idle_lookup exampleDescriptor_def)
  have nowg: "wg (active exampleIdleEntry) = None"
    by (simp add: exampleIdleEntry_def)
  have lt: "Volume \<lparr>Volume = 2\<rparr> < volume (active exampleIdleEntry)"
    by (simp add: exampleIdleEntry_def)
  from UpdateOpenLease_out_of_order[OF st nu ns opened entry nowg] lt
  have c: "fst (UpdateOpenLease_call exampleDeps exampleIdleManager exampleDescriptor \<lparr>Volume = 2\<rparr>)
       = Returns (Inl errOutOfOrderUpdateOpenLease)
     \<and> closedSeekers
         (snd (UpdateOpenLease_call exampleDeps exampleIdleManager exampleDescriptor \<lparr>Volume = 2\<rparr>))
       = closedSeekers exampleIdleManager @ map seeker (seekers ?new)
     \<and> (\<forall>sh t. lookupSeekers
         (snd (UpdateOpenLease_call exampleDeps exampleIdleManager exampleDescriptor \<lparr>Volume = 2\<rparr>))
         sh t = lookupSeekers exampleIdleManager sh t)"
    by blast
  have cs: "closedSeekers exampleIdleManager @ map seeker (seekers ?new) = [202, 1202]"
    by (simp add: exampleIdleManager_def)
  from c cs example_idle_lookup show ?thesis by simp
qed

text \<open>
  The claim C2 as stated fails at equal volumes: with \<open>active.volume = 3\<close> and
  \<open>state.Volume = 3\<close> the call returns \<^verbatim>\<open>UpdateOpenLease\<close>, closes nothing and installs
  a new active set.
\<close>

theorem UpdateOpenLease_equal_volume_counterexample:
  "lookupSeekers exampleIdleManager 0 100 = Some exampleIdleEntry
   \<and> volume (active exampleIdleEntry) = 3
   \<and> fst (UpdateOpenLease_call exampleDeps exampleIdleManager exampleDescriptor \<lparr>Volume = 3\<rparr>)
       = Returns (Inr UpdateOpenLease)
   \<and> closedSeekers
       (snd (UpdateOpenLease_call exampleDeps exampleIdleManager exampleDescriptor \<lparr>Volume = 3\<rparr>))
       = []
   \<and> lookupSeekers
       (snd (UpdateOpenLease_call exampleDeps exampleIdleManager exampleDescriptor \<lparr>Volume = 3\<rparr>))
       0 100
     = Some \<lparr>active = \<lparr>wg = None,
                  seekers = [\<lparr>seeker = 203, isBorrowed = False\<rparr>,
                             \<lparr>seeker = 1203, isBorrowed = False\<rparr>],
                  bloomFilter = Some 203, volume = 3\<rparr>,
              inactive = active exampleIdleEntry\<rparr>"
proof -
  have blockStart: "startUpdateOpenLease exampleIdleManager exampleDescriptor =
      ((False, None), exampleIdleManager\<lparr>isUpdatingLease := True\<rparr>)"
    by (simp add: startUpdateOpenLease_def exampleIdleManager_def exampleDescriptor_def)
  have opened: "newSeekersAndBloom exampleDeps (exampleIdleManager\<lparr>isUpdatingLease := True\<rparr>)
      0 100 3 =
     (Inr \<lparr>wg = None,
           seekers = [\<lparr>seeker = 203, isBorrowed = False\<rparr>, \<lparr>seeker = 1203, isBorrowed = False\<rparr>],
           bloomFilter = Some 203, volume = 3\<rparr>, exampleIdleManager\<lparr>isUpdatingLease := True\<rparr>)"
    using newSeekersAndBloom_success_any[OF example_opened[of 3],
        of "exampleIdleManager\<lparr>isUpdatingLease := True\<rparr>"]
    by simp
  have sbt: "seekersByTime (exampleIdleManager\<lparr>isUpdatingLease := True\<rparr>) 0 =
      exampleIdleManager\<lparr>isUpdatingLease := True\<rparr>"
    by (simp add: seekersByTime_def exampleIdleManager_def)
  have lk: "lookupSeekers (exampleIdleManager\<lparr>isUpdatingLease := True\<rparr>) 0 100 = Some exampleIdleEntry"
    by (simp add: lookupSeekers_updating example_idle_lookup)
  have nb: "\<not> anyBorrowed (seekers (active exampleIdleEntry))"
    by (simp add: anyBorrowed_def exampleIdleEntry_def)
  have v: "volume (active exampleIdleEntry) = 3" "wg (active exampleIdleEntry) = None"
    by (simp_all add: exampleIdleEntry_def)
  have hs: "updateOpenLeaseHotSwapSeekers exampleDeps (exampleIdleManager\<lparr>isUpdatingLease := True\<rparr>)
      exampleDescriptor \<lparr>Volume = 3\<rparr> =
     (Returns (Inr (None, UpdateOpenLease)),
      storeSeekers (exampleIdleManager\<lparr>isUpdatingLease := True\<rparr>) 0 100
        (exampleIdleEntry\<lparr>inactive := active exampleIdleEntry,
           active := \<lparr>wg = None,
             seekers = [\<lparr>seeker = 203, isBorrowed = False\<rparr>, \<lparr>seeker = 1203, isBorrowed = False\<rparr>],
             bloomFilter = Some 203, volume = 3\<rparr>\<rparr>))"
    using opened sbt lk nb v
    by (simp add: updateOpenLeaseHotSwapSeekers_def exampleDescriptor_def
        acquireByTimeLockWaitGroupAware_def Let_def)
  have len: "0 < length (seekersByShardIdx (exampleIdleManager\<lparr>isUpdatingLease := True\<rparr>))"
    by (simp add: exampleIdleManager_def)
  have cl: "closedSeekers exampleIdleManager = []"
    by (simp add: exampleIdleManager_def)
  show ?thesis
    using v(1) len cl
    by (simp add: UpdateOpenLease_call_def blockStart hs example_idle_lookup lookupSeekers_updating
        lookupSeekers_storeSeekers storeSeekers_other_fields exampleIdleEntry_def)
qed

text \<open>
  Claim C7. On an open manager, \<^verbatim>\<open>Close\<close> returns
  \<^verbatim>\<open>errCantCloseSeekerManagerWhileSeekersAreBorrowed\<close> and changes nothing when a seeker,
  active or inactive, is borrowed. Otherwise it returns nil, the status is closed and the
  leaving open/close loop has closed every seeker the manager held. So, borrowed seekers
  being open, every seeker the manager held is closed after \<^verbatim>\<open>Close\<close> exactly when none
  was borrowed.
\<close>

theorem Close_refuses_while_borrowed:
  assumes st: "status m = seekerManagerOpen"
  shows "(managerBorrowed m \<longrightarrow>
            Close deps m = (Returns (Some errCantCloseSeekerManagerWhileSeekersAreBorrowed), m))
       \<and> (\<not> managerBorrowed m \<longrightarrow>
            fst (Close deps m) = Returns None
            \<and> status (snd (Close deps m)) = seekerManagerClosed
            \<and> seekersByShardIdx (snd (Close deps m)) = []
            \<and> closedSeekers (snd (Close deps m)) = closedSeekers m @ heldSeekers m)
       \<and> (managerBorrowed m \<longleftrightarrow> borrowedSeekers m \<noteq> [])
       \<and> ((\<forall>s\<in>set (borrowedSeekers m). s \<notin> set (closedSeekers m)) \<longrightarrow>
            (set (heldSeekers m) \<subseteq> set (closedSeekers (snd (Close deps m)))
               \<longleftrightarrow> borrowedSeekers m = []))"
proof -
  have refuse: "managerBorrowed m \<Longrightarrow>
      Close deps m = (Returns (Some errCantCloseSeekerManagerWhileSeekersAreBorrowed), m)"
    using st by (simp add: Close_def)
  have ok: "\<not> managerBorrowed m \<Longrightarrow>
      Close deps m = (Returns None, openCloseLoopRelease deps (m\<lparr>status := seekerManagerClosed\<rparr>))"
    using st by (simp add: Close_def)
  have held: "heldSeekers (m\<lparr>status := seekerManagerClosed\<rparr>) = heldSeekers m"
    by (simp add: heldSeekers_def)
  have closes: "\<not> managerBorrowed m \<Longrightarrow>
      closedSeekers (snd (Close deps m)) = closedSeekers m @ heldSeekers m"
    by (simp add: ok openCloseLoopRelease_closes held)
  have iff: "(\<forall>s\<in>set (borrowedSeekers m). s \<notin> set (closedSeekers m)) \<Longrightarrow>
      (set (heldSeekers m) \<subseteq> set (closedSeekers (snd (Close deps m)))) = (borrowedSeekers m = [])"
  proof (cases "managerBorrowed m")
    case True
    assume nc: "\<forall>s\<in>set (borrowedSeekers m). s \<notin> set (closedSeekers m)"
    from True have ne: "borrowedSeekers m \<noteq> []" by (simp add: managerBorrowed_iff)
    then obtain s where s: "s \<in> set (borrowedSeekers m)" by (cases "borrowedSeekers m") auto
    with nc have "s \<notin> set (closedSeekers m)" by blast
    moreover from s borrowedSeekers_subset have "s \<in> set (heldSeekers m)" by blast
    ultimately have "\<not> set (heldSeekers m) \<subseteq> set (closedSeekers (snd (Close deps m)))"
      using refuse[OF True] by auto
    with ne show ?thesis by simp
  next
    case False
    then have "borrowedSeekers m = []" by (simp add: managerBorrowed_iff)
    with closes[OF False] show ?thesis by simp
  qed
  show ?thesis
    using refuse ok closes iff managerBorrowed_iff
    by (simp add: openCloseLoopRelease_empties)
qed

theorem Close_refuses_while_borrowed_witness:
  "Close exampleDeps exampleManager =
      (Returns (Some errCantCloseSeekerManagerWhileSeekersAreBorrowed), exampleManager)
   \<and> fst (Close exampleDeps exampleIdleManager) = Returns None
   \<and> status (snd (Close exampleDeps exampleIdleManager)) = seekerManagerClosed
   \<and> closedSeekers (snd (Close exampleDeps exampleIdleManager)) = [103, 1103]"
proof -
  have b: "managerBorrowed exampleManager"
    by (simp add: managerBorrowed_def exampleManager_def entryBorrowed_def anyBorrowed_def
        exampleEntry_def)
  have nb: "\<not> managerBorrowed exampleIdleManager"
    by (simp add: managerBorrowed_def exampleIdleManager_def entryBorrowed_def anyBorrowed_def
        exampleIdleEntry_def emptySeekersAndBloom_def)
  have st1: "status exampleManager = seekerManagerOpen" by (simp add: exampleManager_def)
  have st2: "status exampleIdleManager = seekerManagerOpen" by (simp add: exampleIdleManager_def)
  from Close_refuses_while_borrowed[OF st1, of exampleDeps] b
  have c1: "Close exampleDeps exampleManager =
      (Returns (Some errCantCloseSeekerManagerWhileSeekersAreBorrowed), exampleManager)"
    by blast
  from Close_refuses_while_borrowed[OF st2, of exampleDeps] nb
  have c2: "fst (Close exampleDeps exampleIdleManager) = Returns None
     \<and> status (snd (Close exampleDeps exampleIdleManager)) = seekerManagerClosed
     \<and> closedSeekers (snd (Close exampleDeps exampleIdleManager)) =
         closedSeekers exampleIdleManager @ heldSeekers exampleIdleManager"
    by blast
  have h: "closedSeekers exampleIdleManager @ heldSeekers exampleIdleManager = [103, 1103]"
    by (simp add: exampleIdleManager_def heldSeekers_def entrySeekers_def exampleIdleEntry_def
        emptySeekersAndBloom_def)
  from c1 c2 h show ?thesis by simp
qed



section \<open>Properties of the namespace index query\<close>

lemma queryBlocks_prefix:
  "queryBlocks bq bs = (v, r) \<Longrightarrow> \<exists>rest. bs = v @ rest"
proof (induction bs arbitrary: v r)
  case Nil
  then show ?case by simp
next
  case (Cons b bs)
  then show ?case
    by (auto split: sum.splits bool.splits prod.splits if_splits)
qed

lemma queryBlocks_butlast:
  "queryBlocks bq bs = (v, r) \<Longrightarrow> \<forall>blk\<in>set (butlast v). bq blk = Inr True"
proof (induction bs arbitrary: v r)
  case Nil
  then show ?case by simp
next
  case (Cons b bs)
  then show ?case
    by (auto split: sum.splits bool.splits prod.splits if_splits)
qed

lemma queryBlocks_stop:
  "queryBlocks bq bs = (v, r) \<Longrightarrow> v = bs \<or> (v \<noteq> [] \<and> bq (last v) \<noteq> Inr True)"
proof (induction bs arbitrary: v r)
  case Nil
  then show ?case by simp
next
  case (Cons b bs)
  show ?case
  proof (cases "bq b")
    case (Inl e)
    with Cons.prems show ?thesis by auto
  next
    case (Inr ex)
    show ?thesis
    proof (cases ex)
      case False
      with Inr Cons.prems show ?thesis by auto
    next
      case True
      obtain v' r' where q: "queryBlocks bq bs = (v', r')" by (cases "queryBlocks bq bs")
      with True Inr Cons.prems have v: "v = b # v'" by simp
      from Cons.IH[OF q] v show ?thesis by auto
    qed
  qed
qed

lemma queryBlocks_flag:
  "queryBlocks bq bs = (v, r) \<Longrightarrow> (r = Inr True) = (\<forall>blk\<in>set v. bq blk = Inr True)"
proof (induction bs arbitrary: v r)
  case Nil
  then show ?case by auto
next
  case (Cons b bs)
  then show ?case
    by (auto split: sum.splits bool.splits prod.splits if_splits)
qed

lemma set_map_filter_eq:
  "set (List.map_filter f xs) = {y. \<exists>x\<in>set xs. f x = Some y}"
  by (induction xs) (auto simp: List.map_filter_def)

lemma intersects_iff:
  "intersects opts blk \<longleftrightarrow>
     (\<exists>x. StartTime blk \<le> x \<and> x < EndTime blk
          \<and> StartInclusive opts \<le> x \<and> x < EndExclusive opts)"
proof
  assume "intersects opts blk"
  then have "StartTime blk \<le> max (StartTime blk) (StartInclusive opts)
      \<and> max (StartTime blk) (StartInclusive opts) < EndTime blk
      \<and> StartInclusive opts \<le> max (StartTime blk) (StartInclusive opts)
      \<and> max (StartTime blk) (StartInclusive opts) < EndExclusive opts"
    by (simp add: intersects_def)
  then show "\<exists>x. StartTime blk \<le> x \<and> x < EndTime blk
          \<and> StartInclusive opts \<le> x \<and> x < EndExclusive opts"
    by blast
next
  assume "\<exists>x. StartTime blk \<le> x \<and> x < EndTime blk
          \<and> StartInclusive opts \<le> x \<and> x < EndExclusive opts"
  then show "intersects opts blk"
    by (auto simp: intersects_def)
qed

lemma intersects_empty_range:
  "EndExclusive opts \<le> StartInclusive opts \<Longrightarrow> \<not> intersects opts blk"
  by (auto simp: intersects_def)

lemma blocksForQuery_set:
  "set (blocksForQuery idx opts) =
     {blk. \<exists>t\<in>set (blockStartsDescOrder idx). blocksByTime idx t = Some blk \<and> intersects opts blk}"
  unfolding blocksForQuery_def set_map_filter_eq
  by (auto split: option.splits if_splits)

lemma map_filter_sorted:
  "sorted_wrt (>) ts \<Longrightarrow> (\<And>t b. f t = Some b \<Longrightarrow> g b = t) \<Longrightarrow>
     sorted_wrt (>) (map g (List.map_filter f ts))"
proof (induction ts)
  case Nil
  then show ?case by (simp add: List.map_filter_def)
next
  case (Cons t ts)
  then show ?case
    by (cases "f t") (auto simp: List.map_filter_def split: option.splits)
qed

text \<open>
  Claim C8. \<^verbatim>\<open>Query\<close> scans the blocks whose \<open>[start, end)\<close> intersects the query range
  (the blocks that share a time with \<open>[startInclusive, endExclusive)\<close>; none when the range
  is empty or inverted), in the order of \<open>blockStartsDescOrder\<close> (descending block start):
  the blocks it queries are a prefix of them, every queried block but the last reported
  \<open>exhaustive = true\<close>, the scan stops short only after a block that did not, and the
  flag returned is true exactly when every queried block reported true.
\<close>

theorem Query_descending_early_stop:
  assumes q: "Query bq idx opts = (visited, res)"
    and desc: "sorted_wrt (>) (blockStartsDescOrder idx)"
    and keyed: "\<forall>t blk. blocksByTime idx t = Some blk \<longrightarrow> StartTime blk = t"
  shows "set (blocksForQuery idx opts) =
           {blk. \<exists>t\<in>set (blockStartsDescOrder idx).
                   blocksByTime idx t = Some blk \<and> intersects opts blk}
       \<and> (\<forall>blk. intersects opts blk \<longleftrightarrow>
             (\<exists>x. StartTime blk \<le> x \<and> x < EndTime blk
                  \<and> StartInclusive opts \<le> x \<and> x < EndExclusive opts))
       \<and> (EndExclusive opts \<le> StartInclusive opts \<longrightarrow> visited = [] \<and> res = Inr True)
       \<and> sorted_wrt (>) (map StartTime (blocksForQuery idx opts))
       \<and> (\<exists>rest. blocksForQuery idx opts = visited @ rest)
       \<and> (visited = blocksForQuery idx opts \<or> (visited \<noteq> [] \<and> bq (last visited) \<noteq> Inr True))
       \<and> (\<forall>blk\<in>set (butlast visited). bq blk = Inr True)
       \<and> ((res = Inr True) = (\<forall>blk\<in>set visited. bq blk = Inr True))"
proof -
  from q have qb: "queryBlocks bq (blocksForQuery idx opts) = (visited, res)"
    by (simp add: Query_def)
  have srt: "sorted_wrt (>) (map StartTime (blocksForQuery idx opts))"
    unfolding blocksForQuery_def
  proof (rule map_filter_sorted[OF desc])
    fix t b
    assume "(case blocksByTime idx t of None \<Rightarrow> None
             | Some blk \<Rightarrow> if intersects opts blk then Some blk else None) = Some b"
    then have "blocksByTime idx t = Some b"
      by (auto split: option.splits if_splits)
    with keyed show "StartTime b = t" by blast
  qed
  have pts: "\<forall>blk. intersects opts blk \<longleftrightarrow>
             (\<exists>x. StartTime blk \<le> x \<and> x < EndTime blk
                  \<and> StartInclusive opts \<le> x \<and> x < EndExclusive opts)"
    using intersects_iff by blast
  have empty: "EndExclusive opts \<le> StartInclusive opts \<longrightarrow> visited = [] \<and> res = Inr True"
  proof
    assume e: "EndExclusive opts \<le> StartInclusive opts"
    have "set (blocksForQuery idx opts) = {}"
      unfolding blocksForQuery_set using intersects_empty_range[OF e] by blast
    then have "blocksForQuery idx opts = []" by simp
    with qb show "visited = [] \<and> res = Inr True" by simp
  qed
  from blocksForQuery_set pts empty srt queryBlocks_prefix[OF qb] queryBlocks_stop[OF qb]
    queryBlocks_butlast[OF qb] queryBlocks_flag[OF qb]
  show ?thesis by (intro conjI)
qed

theorem Query_descending_early_stop_witness:
  "Query exampleBlockQuery exampleIndex \<lparr>StartInclusive = 0, EndExclusive = 30\<rparr>
     = ([\<lparr>StartTime = 20, EndTime = 30\<rparr>], Inr False)
   \<and> sorted_wrt (>) (blockStartsDescOrder exampleIndex)
   \<and> sorted_wrt (>) (map StartTime
        (blocksForQuery exampleIndex \<lparr>StartInclusive = 0, EndExclusive = 30\<rparr>))
   \<and> (\<exists>rest. blocksForQuery exampleIndex \<lparr>StartInclusive = 0, EndExclusive = 30\<rparr>
        = [\<lparr>StartTime = 20, EndTime = 30\<rparr>] @ rest)
   \<and> Query exampleBlockQuery exampleIndex \<lparr>StartInclusive = 5, EndExclusive = 15\<rparr>
     = ([\<lparr>StartTime = 10, EndTime = 20\<rparr>, \<lparr>StartTime = 0, EndTime = 10\<rparr>], Inr True)
   \<and> set (blocksForQuery exampleIndex \<lparr>StartInclusive = 5, EndExclusive = 15\<rparr>)
     = {\<lparr>StartTime = 10, EndTime = 20\<rparr>, \<lparr>StartTime = 0, EndTime = 10\<rparr>}
   \<and> Query exampleBlockQuery exampleIndex \<lparr>StartInclusive = 5, EndExclusive = 5\<rparr>
     = ([], Inr True)
   \<and> Query exampleBlockQuery exampleIndex \<lparr>StartInclusive = 7, EndExclusive = 3\<rparr>
     = ([], Inr True)"
proof -
  let ?opts = "\<lparr>StartInclusive = 0, EndExclusive = 30\<rparr>"
  have q: "Query exampleBlockQuery exampleIndex ?opts
      = ([\<lparr>StartTime = 20, EndTime = 30\<rparr>], Inr False)"
    by (simp add: Query_def blocksForQuery_def exampleIndex_def exampleBlockQuery_def
        intersects_def List.map_filter_def)
  have desc: "sorted_wrt (>) (blockStartsDescOrder exampleIndex)"
    by (simp add: exampleIndex_def)
  have keyed: "\<forall>t blk. blocksByTime exampleIndex t = Some blk \<longrightarrow> StartTime blk = t"
    by (auto simp: exampleIndex_def split: if_splits)
  from Query_descending_early_stop[OF q desc keyed]
  have c: "sorted_wrt (>) (map StartTime (blocksForQuery exampleIndex ?opts))
      \<and> (\<exists>rest. blocksForQuery exampleIndex ?opts = [\<lparr>StartTime = 20, EndTime = 30\<rparr>] @ rest)"
    by blast
  have q2: "Query exampleBlockQuery exampleIndex \<lparr>StartInclusive = 5, EndExclusive = 15\<rparr>
     = ([\<lparr>StartTime = 10, EndTime = 20\<rparr>, \<lparr>StartTime = 0, EndTime = 10\<rparr>], Inr True)"
    by (simp add: Query_def blocksForQuery_def exampleIndex_def exampleBlockQuery_def
        intersects_def List.map_filter_def)
  have s2: "set (blocksForQuery exampleIndex \<lparr>StartInclusive = 5, EndExclusive = 15\<rparr>)
     = {\<lparr>StartTime = 10, EndTime = 20\<rparr>, \<lparr>StartTime = 0, EndTime = 10\<rparr>}"
    by (simp add: blocksForQuery_def exampleIndex_def intersects_def List.map_filter_def)
  obtain v3 r3 where q3: "Query exampleBlockQuery exampleIndex
      \<lparr>StartInclusive = 5, EndExclusive = 5\<rparr> = (v3, r3)"
    by (cases "Query exampleBlockQuery exampleIndex \<lparr>StartInclusive = 5, EndExclusive = 5\<rparr>")
  from Query_descending_early_stop[OF q3 desc keyed]
  have "v3 = [] \<and> r3 = Inr True" by simp
  with q3 have c3: "Query exampleBlockQuery exampleIndex
      \<lparr>StartInclusive = 5, EndExclusive = 5\<rparr> = ([], Inr True)" by simp
  obtain v4 r4 where q4: "Query exampleBlockQuery exampleIndex
      \<lparr>StartInclusive = 7, EndExclusive = 3\<rparr> = (v4, r4)"
    by (cases "Query exampleBlockQuery exampleIndex \<lparr>StartInclusive = 7, EndExclusive = 3\<rparr>")
  from Query_descending_early_stop[OF q4 desc keyed]
  have "v4 = [] \<and> r4 = Inr True" by simp
  with q4 have c4: "Query exampleBlockQuery exampleIndex
      \<lparr>StartInclusive = 7, EndExclusive = 3\<rparr> = ([], Inr True)" by simp
  from q desc c q2 s2 c3 c4 show ?thesis by (intro conjI) blast+
qed
end
